(* ===== verification/Prelude.thy ===== *)
theory Prelude
  imports Main "HOL-Library.Word"
begin

unbundle bit_operations_syntax

text \<open>
  Shared vocabulary of the development: the machine types of the Rust sources, the effect of a
  Rust call (a value, an error of its \<open>Result\<close> type, or a panic), checked slices and indexing,
  little-endian integers, and the generic list facts the components share.

  A Rust function of type \<open>Result<T, E>\<close> that may also panic is a HOL function into
  \<open>('e, 'a) outcome\<close>: \<open>Inr v\<close> is \<open>Ok(v)\<close>, \<open>Inl (Err e)\<close> is \<open>Err(e)\<close> and
  \<open>Inl (Panic p)\<close> is a panic. A function that cannot return an error leaves \<open>'e\<close> open.
\<close>

section \<open>Machine types\<close>

type_synonym byte = "8 word"
type_synonym u8 = "8 word"
type_synonym u16 = "16 word"
type_synonym u32 = "32 word"
type_synonym u64 = "64 word"
type_synonym bytes = "byte list"

section \<open>Outcomes: values, errors, panics\<close>

datatype panic =
    IndexOutOfBounds
  | SliceOutOfBounds
  | CopyLengthMismatch
  | UnwrapNone
  | AssertFailed
  | MissingKey
  | BitOutOfRange
  | ArithmeticOverflow

datatype 'e fault = Panic panic | Err 'e

type_synonym ('e, 'a) outcome = "'e fault + 'a"

named_theorems outcome_simps \<open>unfolding of the outcome combinators on constructors\<close>
named_theorems layout_simps \<open>the byte layout constants and the accessors over them\<close>

definition bind_out :: "('e, 'a) outcome \<Rightarrow> ('a \<Rightarrow> ('e, 'b) outcome) \<Rightarrow> ('e, 'b) outcome" where
  "bind_out r f = (case r of Inl e \<Rightarrow> Inl e | Inr x \<Rightarrow> f x)"

definition map_err :: "('e \<Rightarrow> 'f) \<Rightarrow> ('e, 'a) outcome \<Rightarrow> ('f, 'a) outcome" where
  "map_err g r = (case r of Inl (Panic p) \<Rightarrow> Inl (Panic p) | Inl (Err e) \<Rightarrow> Inl (Err (g e)) | Inr x \<Rightarrow> Inr x)"

definition no_panic :: "('e, 'a) outcome \<Rightarrow> bool" where
  "no_panic r = (case r of Inl (Panic p) \<Rightarrow> False | _ \<Rightarrow> True)"

fun map_out :: "('a \<Rightarrow> ('e, 'b) outcome) \<Rightarrow> 'a list \<Rightarrow> ('e, 'b list) outcome" where
  "map_out f [] = Inr []"
| "map_out f (x # xs) = bind_out (f x) (\<lambda>y. bind_out (map_out f xs) (\<lambda>ys. Inr (y # ys)))"

fun fold_out :: "('a \<Rightarrow> 's \<Rightarrow> ('e, 's) outcome) \<Rightarrow> 'a list \<Rightarrow> 's \<Rightarrow> ('e, 's) outcome" where
  "fold_out f [] s = Inr s"
| "fold_out f (x # xs) s = bind_out (f x s) (fold_out f xs)"

section \<open>Slices, indexing and copies, with Rust's bounds checks\<close>

definition index_at :: "'a list \<Rightarrow> nat \<Rightarrow> ('e, 'a) outcome" where
  "index_at xs i = (if i < length xs then Inr (xs ! i) else Inl (Panic IndexOutOfBounds))"

definition get_at :: "'a list \<Rightarrow> nat \<Rightarrow> 'a option" where
  "get_at xs i = (if i < length xs then Some (xs ! i) else None)"

definition sub_list :: "'a list \<Rightarrow> nat \<Rightarrow> nat \<Rightarrow> 'a list" where
  "sub_list xs i j = take (j - i) (drop i xs)"

definition slice :: "'a list \<Rightarrow> nat \<Rightarrow> nat \<Rightarrow> ('e, 'a list) outcome" where
  "slice xs i j =
     (if i \<le> j \<and> j \<le> length xs then Inr (sub_list xs i j) else Inl (Panic SliceOutOfBounds))"

definition store_at :: "'a list \<Rightarrow> nat \<Rightarrow> 'a \<Rightarrow> ('e, 'a list) outcome" where
  "store_at xs i v = (if i < length xs then Inr (xs[i := v]) else Inl (Panic IndexOutOfBounds))"

text \<open>\<open>xs[i..j].copy_from_slice(ys)\<close>: both the range and the lengths are checked.\<close>

definition copy_slice :: "'a list \<Rightarrow> nat \<Rightarrow> nat \<Rightarrow> 'a list \<Rightarrow> ('e, 'a list) outcome" where
  "copy_slice xs i j ys =
     (if i \<le> j \<and> j \<le> length xs
      then if length ys = j - i then Inr (take i xs @ ys @ drop j xs)
           else Inl (Panic CopyLengthMismatch)
      else Inl (Panic SliceOutOfBounds))"

definition unwrap_out :: "'a option \<Rightarrow> ('e, 'a) outcome" where
  "unwrap_out x = (case x of None \<Rightarrow> Inl (Panic UnwrapNone) | Some v \<Rightarrow> Inr v)"

text \<open>\<open>chunks_exact(n)\<close>: the full chunks; a shorter remainder is left out.\<close>

function chunks_exact :: "nat \<Rightarrow> 'a list \<Rightarrow> 'a list list" where
  "chunks_exact n xs =
     (if n = 0 \<or> length xs < n then [] else take n xs # chunks_exact n (drop n xs))"
  by pat_completeness auto
termination
  by (relation "measure (\<lambda>(n, xs). length xs)") auto

declare chunks_exact.simps [simp del]

section \<open>Little-endian integers\<close>

fun le_val :: "bytes \<Rightarrow> nat" where
  "le_val [] = 0"
| "le_val (b # bs) = unat b + 256 * le_val bs"

fun le_bytes :: "nat \<Rightarrow> nat \<Rightarrow> bytes" where
  "le_bytes 0 v = []"
| "le_bytes (Suc n) v = word_of_nat (v mod 256) # le_bytes n (v div 256)"

section \<open>Outcome lemmas\<close>

lemma bind_out_simps [simp, outcome_simps]:
  "bind_out (Inr x) f = f x"
  "bind_out (Inl e) f = Inl e"
  by (simp_all add: bind_out_def)

lemma map_err_simps [simp, outcome_simps]:
  "map_err g (Inr x) = Inr x"
  "map_err g (Inl (Err e)) = Inl (Err (g e))"
  "map_err g (Inl (Panic p)) = Inl (Panic p)"
  by (simp_all add: map_err_def)

lemma no_panic_simps [simp, outcome_simps]:
  "no_panic (Inr x)"
  "no_panic (Inl (Err e))"
  "\<not> no_panic (Inl (Panic p))"
  by (simp_all add: no_panic_def)

lemma bind_out_Inr_iff:
  "bind_out r f = Inr y \<longleftrightarrow> (\<exists>x. r = Inr x \<and> f x = Inr y)"
  by (cases r) simp_all

lemma no_panic_bind:
  assumes "no_panic r" and "\<And>x. r = Inr x \<Longrightarrow> no_panic (f x)"
  shows "no_panic (bind_out r f)"
proof (cases r)
  case (Inl e)
  with assms(1) show ?thesis by (cases e) simp_all
next
  case (Inr x)
  with assms(2) show ?thesis by simp
qed

lemma no_panic_map_err [simp]: "no_panic (map_err g r) = no_panic r"
proof (cases r)
  case (Inl e)
  then show ?thesis by (cases e) simp_all
qed simp

lemma unwrap_out_simps [simp, outcome_simps]:
  "unwrap_out (Some v) = Inr v"
  "unwrap_out None = Inl (Panic UnwrapNone)"
  by (simp_all add: unwrap_out_def)

lemma map_out_Inr:
  "(\<And>x. x \<in> set xs \<Longrightarrow> f x = Inr (g x)) \<Longrightarrow> map_out f xs = Inr (map g xs)"
  by (induction xs) simp_all

lemma fold_out_append: "fold_out f (xs @ ys) s = bind_out (fold_out f xs s) (fold_out f ys)"
proof (induction xs arbitrary: s)
  case (Cons x xs)
  then show ?case by (cases "f x s") simp_all
qed simp

section \<open>Slice lemmas\<close>

lemma length_sub_list [simp]: "i \<le> j \<Longrightarrow> j \<le> length xs \<Longrightarrow> length (sub_list xs i j) = j - i"
  by (simp add: sub_list_def)

lemma nth_sub_list: "i + k < j \<Longrightarrow> j \<le> length xs \<Longrightarrow> sub_list xs i j ! k = xs ! (i + k)"
  by (simp add: sub_list_def)

lemma sub_list_take [simp]: "j \<le> n \<Longrightarrow> sub_list (take n xs) i j = sub_list xs i j"
  by (simp add: sub_list_def drop_take min_def)

lemma sub_list_append1: "j \<le> length xs \<Longrightarrow> sub_list (xs @ ys) i j = sub_list xs i j"
  by (simp add: sub_list_def)

lemma sub_list_append2:
  "length xs \<le> i \<Longrightarrow> sub_list (xs @ ys) i j = sub_list ys (i - length xs) (j - length xs)"
  by (simp add: sub_list_def)

lemma sub_list_0 [simp]: "sub_list xs 0 j = take j xs"
  by (simp add: sub_list_def)

lemma sub_list_sub_list:
  "k + j \<le> n \<Longrightarrow> sub_list (sub_list xs k n) i j = sub_list xs (k + i) (k + j)"
  by (simp add: sub_list_def drop_take add.commute)

lemma slice_Inr [simp]: "i \<le> j \<Longrightarrow> j \<le> length xs \<Longrightarrow> slice xs i j = Inr (sub_list xs i j)"
  by (simp add: slice_def)

lemma bind_out_assoc: "bind_out (bind_out r f) g = bind_out r (\<lambda>x. bind_out (f x) g)"
  by (cases r) simp_all

lemma index_at_Inr [simp]: "i < length xs \<Longrightarrow> index_at xs i = Inr (xs ! i)"
  by (simp add: index_at_def)

lemma store_at_Inr [simp]: "i < length xs \<Longrightarrow> store_at xs i v = Inr (xs[i := v])"
  by (simp add: store_at_def)

lemma copy_slice_Inr [simp]:
  "i \<le> j \<Longrightarrow> j \<le> length xs \<Longrightarrow> length ys = j - i \<Longrightarrow>
   copy_slice xs i j ys = Inr (take i xs @ ys @ drop j xs)"
  by (simp add: copy_slice_def)

lemma chunks_exact_append:
  "0 < n \<Longrightarrow> length xs = n \<Longrightarrow> chunks_exact n (xs @ ys) = xs # chunks_exact n ys"
  by (simp add: chunks_exact.simps [of n "xs @ ys"])

lemma chunks_exact_concat:
  assumes "0 < n" and "\<forall>x\<in>set xss. length x = n"
  shows "chunks_exact n (concat xss) = xss"
  using assms(2)
proof (induction xss)
  case Nil
  with assms(1) show ?case by (simp add: chunks_exact.simps)
next
  case (Cons x xss)
  with assms(1) show ?case by (simp add: chunks_exact_append)
qed

lemma chunks_exact_lengths: "x \<in> set (chunks_exact n xs) \<Longrightarrow> length x = n"
proof (induction n xs rule: chunks_exact.induct)
  case (1 n xs)
  then show ?case
    by (auto simp: chunks_exact.simps [of n xs] split: if_splits)
qed

lemma length_chunks_exact: "0 < n \<Longrightarrow> length (chunks_exact n xs) = length xs div n"
proof (induction n xs rule: chunks_exact.induct)
  case (1 n xs)
  then show ?case
    by (auto simp: chunks_exact.simps [of n xs] div_if)
qed

section \<open>Little-endian lemmas\<close>

lemma length_le_bytes [simp]: "length (le_bytes n v) = n"
  by (induction n arbitrary: v) simp_all

lemma le_val_bound: "le_val bs < 256 ^ length bs"
proof (induction bs)
  case (Cons b bs)
  have "unat b < 256" using unsigned_less [of b] by simp
  with Cons show ?case by simp
qed simp

lemma le_val_le_bytes: "v < 256 ^ n \<Longrightarrow> le_val (le_bytes n v) = v"
proof (induction n arbitrary: v)
  case (Suc n)
  then have "v div 256 < 256 ^ n" by (simp add: less_mult_imp_div_less mult.commute)
  then have "le_val (le_bytes n (v div 256)) = v div 256" by (rule Suc.IH)
  moreover have "unat (word_of_nat (v mod 256) :: byte) = v mod 256"
    by (simp add: unat_of_nat take_bit_eq_mod)
  ultimately show ?case by simp
qed simp

lemma le_bytes_le_val: "le_bytes (length bs) (le_val bs) = bs"
proof (induction bs)
  case (Cons b bs)
  have b: "unat b < 256" using unsigned_less [of b] by simp
  then have "(unat b + 256 * le_val bs) mod 256 = unat b" by simp
  moreover have "(unat b + 256 * le_val bs) div 256 = le_val bs" using b by simp
  ultimately show ?case using Cons by simp
qed simp

end
