(* ===== verification/Merkle.thy ===== *)
theory Merkle
  imports Prelude
begin

text \<open>
  The Merkle tree over one FEC set (\<open>src/merkle.rs\<close>): leaf and node hashing, walking a proof
  to a root, building the full tree and extracting proofs from it. SHA-256
  (\<open>solana_sha256_hasher::hashv\<close>) is a parameter \<open>hashv\<close> of every definition; what the code
  relies on is its type, 32 bytes per digest (\<open>digest32\<close>).
\<close>

section \<open>Definitions\<close>

type_synonym hash32 = bytes
type_synonym hasher = "bytes list \<Rightarrow> hash32"

abbreviation PROOF_ENTRY_SIZE :: nat where "PROOF_ENTRY_SIZE \<equiv> 20"
abbreviation PROOF_ENTRIES_FOR_32_32 :: u8 where "PROOF_ENTRIES_FOR_32_32 \<equiv> 6"

definition ascii :: "string \<Rightarrow> bytes" where
  "ascii s = map of_char s"

definition LEAF_PREFIX :: bytes where
  "LEAF_PREFIX = 0 # ascii ''SOLANA_MERKLE_SHREDS_LEAF''"

definition NODE_PREFIX :: bytes where
  "NODE_PREFIX = 1 # ascii ''SOLANA_MERKLE_SHREDS_NODE''"

definition leaf :: "hasher \<Rightarrow> bytes \<Rightarrow> hash32" where
  "leaf hashv bs = hashv [LEAF_PREFIX, bs]"

definition join :: "hasher \<Rightarrow> bytes \<Rightarrow> bytes \<Rightarrow> ('e, hash32) outcome" where
  "join hashv left right =
     bind_out (slice left 0 PROOF_ENTRY_SIZE) (\<lambda>l.
     bind_out (slice right 0 PROOF_ENTRY_SIZE) (\<lambda>r.
     Inr (hashv [NODE_PREFIX, l, r])))"

text \<open>The closure folded over the proof entries by \<open>root_from_proof\<close>.\<close>

definition proof_step :: "hasher \<Rightarrow> bytes \<Rightarrow> nat \<times> hash32 \<Rightarrow> ('e, nat \<times> hash32) outcome" where
  "proof_step hashv sibling acc = (case acc of (index, node) \<Rightarrow>
     bind_out (if index mod 2 = 0 then join hashv node sibling else join hashv sibling node)
       (\<lambda>parent. Inr (drop_bit 1 index, parent)))"

definition root_from_proof :: "hasher \<Rightarrow> nat \<Rightarrow> hash32 \<Rightarrow> bytes \<Rightarrow> ('e, hash32 option) outcome" where
  "root_from_proof hashv index lf prf =
     bind_out (fold_out (proof_step hashv) (chunks_exact PROOF_ENTRY_SIZE prf) (index, lf))
       (\<lambda>(i, root). Inr (if i = 0 then Some root else None))"

record merkle_tree =
  t_nodes :: "hash32 list"
  t_num_leaves :: nat

definition div_ceil :: "nat \<Rightarrow> nat \<Rightarrow> nat" where
  "div_ceil a b = (a + b - 1) div b"

text \<open>The inner \<open>for\<close> loop of \<open>Tree::new\<close>, stepping \<open>i\<close> by two over one level.\<close>

function tree_level :: "hasher \<Rightarrow> nat \<Rightarrow> nat \<Rightarrow> nat \<Rightarrow> hash32 list \<Rightarrow> ('e, hash32 list) outcome" where
  "tree_level hashv offset sz i nodes =
     (if i < offset + sz then
        let right = min (i + 1) (offset + sz - 1) in
        bind_out (index_at nodes i) (\<lambda>l.
        bind_out (index_at nodes right) (\<lambda>r.
        bind_out (join hashv l r) (\<lambda>parent.
        tree_level hashv offset sz (i + 2) (nodes @ [parent]))))
      else Inr nodes)"
  by pat_completeness auto
termination
  by (relation "measure (\<lambda>(_, offset, sz, i, _). offset + sz - i)") auto

text \<open>The outer \<open>while\<close> loop of \<open>Tree::new\<close>.\<close>

function tree_levels :: "hasher \<Rightarrow> nat \<Rightarrow> nat \<Rightarrow> hash32 list \<Rightarrow> ('e, hash32 list) outcome" where
  "tree_levels hashv offset sz nodes =
     (if sz > 1 then
        bind_out (tree_level hashv offset sz offset nodes) (\<lambda>nodes'.
        tree_levels hashv (offset + sz) (div_ceil sz 2) nodes')
      else Inr nodes)"
  by pat_completeness auto
termination
  by (relation "measure (\<lambda>(_, _, sz, _). sz)") (auto simp: div_ceil_def)

declare tree_level.simps [simp del] tree_levels.simps [simp del]

definition tree_new :: "hasher \<Rightarrow> hash32 list \<Rightarrow> ('e, merkle_tree) outcome" where
  "tree_new hashv leaves =
     (if leaves = [] then Inl (Panic AssertFailed)
      else bind_out (tree_levels hashv 0 (length leaves) leaves) (\<lambda>nodes.
        Inr \<lparr>t_nodes = nodes, t_num_leaves = length leaves\<rparr>))"

definition tree_root :: "merkle_tree \<Rightarrow> ('e, hash32) outcome" where
  "tree_root t = (if t_nodes t = [] then Inl (Panic UnwrapNone) else Inr (last (t_nodes t)))"

text \<open>The \<open>while\<close> loop of \<open>Tree::proof\<close>.\<close>

function tree_proof_loop ::
    "hash32 list \<Rightarrow> nat \<Rightarrow> nat \<Rightarrow> nat \<Rightarrow> bytes list \<Rightarrow> ('e, bytes list) outcome" where
  "tree_proof_loop nodes offset sz index prf =
     (if sz > 1 then
        bind_out (index_at nodes (offset + min (index XOR 1) (sz - 1))) (\<lambda>sibling.
        bind_out (slice sibling 0 PROOF_ENTRY_SIZE) (\<lambda>entry.
        tree_proof_loop nodes (offset + sz) (div_ceil sz 2) (drop_bit 1 index) (prf @ [entry])))
      else Inr prf)"
  by pat_completeness auto
termination
  by (relation "measure (\<lambda>(_, _, sz, _, _). sz)") (auto simp: div_ceil_def)

declare tree_proof_loop.simps [simp del]

definition tree_proof :: "merkle_tree \<Rightarrow> nat \<Rightarrow> ('e, bytes list) outcome" where
  "tree_proof t index =
     (if index < t_num_leaves t then tree_proof_loop (t_nodes t) 0 (t_num_leaves t) index []
      else Inl (Panic AssertFailed))"


section \<open>Reference definitions\<close>

text \<open>What the code relies on from SHA-256: every digest has 32 bytes.\<close>

definition digest32 :: "hasher \<Rightarrow> bool" where
  "digest32 hashv \<longleftrightarrow> (\<forall>xs. length (hashv xs) = 32)"

definition node_hash :: "hasher \<Rightarrow> bytes \<Rightarrow> bytes \<Rightarrow> hash32" where
  "node_hash hashv l r = hashv [NODE_PREFIX, take PROOF_ENTRY_SIZE l, take PROOF_ENTRY_SIZE r]"

text \<open>The level above a level: neighbours are paired, a last one without a sibling pairs with itself.\<close>

fun parents :: "hasher \<Rightarrow> hash32 list \<Rightarrow> hash32 list" where
  "parents hashv [] = []"
| "parents hashv [x] = [node_hash hashv x x]"
| "parents hashv (x # y # zs) = node_hash hashv x y # parents hashv zs"

lemma length_parents: "length (parents hashv xs) = (length xs + 1) div 2"
  by (induction hashv xs rule: parents.induct) simp_all

function all_levels :: "hasher \<Rightarrow> hash32 list \<Rightarrow> hash32 list" where
  "all_levels hashv xs =
     (if length xs > 1 then xs @ all_levels hashv (parents hashv xs) else xs)"
  by pat_completeness auto
termination
  by (relation "measure (\<lambda>(_, xs). length xs)") (auto simp: length_parents)

text \<open>The root of a tree and the proof of a leaf, by recursion over the levels.\<close>

function merkle_root_of :: "hasher \<Rightarrow> hash32 list \<Rightarrow> hash32" where
  "merkle_root_of hashv xs =
     (if length xs > 1 then merkle_root_of hashv (parents hashv xs) else hd xs)"
  by pat_completeness auto
termination
  by (relation "measure (\<lambda>(_, xs). length xs)") (auto simp: length_parents)

function merkle_proof_of :: "hasher \<Rightarrow> hash32 list \<Rightarrow> nat \<Rightarrow> bytes list" where
  "merkle_proof_of hashv xs i =
     (if length xs > 1
      then take PROOF_ENTRY_SIZE (xs ! min (i XOR 1) (length xs - 1)) #
           merkle_proof_of hashv (parents hashv xs) (i div 2)
      else [])"
  by pat_completeness auto
termination
  by (relation "measure (\<lambda>(_, xs, _). length xs)") (auto simp: length_parents)

declare all_levels.simps [simp del] merkle_root_of.simps [simp del] merkle_proof_of.simps [simp del]

text \<open>The node reached by a proof, and the preimages hashed on the way up.\<close>

fun proof_root :: "hasher \<Rightarrow> nat \<Rightarrow> hash32 \<Rightarrow> bytes list \<Rightarrow> hash32" where
  "proof_root hashv i n [] = n"
| "proof_root hashv i n (s # ss) =
     proof_root hashv (i div 2) (if even i then node_hash hashv n s else node_hash hashv s n) ss"

fun proof_preimages :: "hasher \<Rightarrow> nat \<Rightarrow> hash32 \<Rightarrow> bytes list \<Rightarrow> bytes list list" where
  "proof_preimages hashv i n [] = []"
| "proof_preimages hashv i n (s # ss) =
     (let pre = (if even i then [NODE_PREFIX, take PROOF_ENTRY_SIZE n, take PROOF_ENTRY_SIZE s]
                 else [NODE_PREFIX, take PROOF_ENTRY_SIZE s, take PROOF_ENTRY_SIZE n])
      in pre # proof_preimages hashv (i div 2) (hashv pre) ss)"

section \<open>Hashing and single proof steps\<close>

lemma digest32_length [simp]: "digest32 hashv \<Longrightarrow> length (hashv xs) = 32"
  by (simp add: digest32_def)

lemma length_leaf [simp]: "digest32 hashv \<Longrightarrow> length (leaf hashv bs) = 32"
  by (simp add: leaf_def)

lemma length_node_hash [simp]: "digest32 hashv \<Longrightarrow> length (node_hash hashv l r) = 32"
  by (simp add: node_hash_def)

lemma join_Inr [simp]:
  "PROOF_ENTRY_SIZE \<le> length l \<Longrightarrow> PROOF_ENTRY_SIZE \<le> length r \<Longrightarrow>
   join hashv l r = Inr (node_hash hashv l r)"
  by (simp add: join_def node_hash_def)

lemma node_hash_take [simp]:
  "node_hash hashv (take PROOF_ENTRY_SIZE l) r = node_hash hashv l r"
  "node_hash hashv l (take PROOF_ENTRY_SIZE r) = node_hash hashv l r"
  by (simp_all add: node_hash_def)

lemma nat_xor_one: "(i::nat) XOR 1 = (if even i then i + 1 else i - 1)"
  by (cases "even i") (simp_all only: xor_one_eq, simp_all)

section \<open>Walking a proof\<close>

lemma proof_step_Inr:
  "PROOF_ENTRY_SIZE \<le> length n \<Longrightarrow> PROOF_ENTRY_SIZE \<le> length s \<Longrightarrow>
   proof_step hashv s (i, n) =
     Inr (i div 2, if even i then node_hash hashv n s else node_hash hashv s n)"
  by (simp add: proof_step_def even_iff_mod_2_eq_zero drop_bit_eq_div)

lemma fold_proof_steps:
  assumes "digest32 hashv" and "length n = 32" and "\<forall>s\<in>set ss. length s = PROOF_ENTRY_SIZE"
  shows "fold_out (proof_step hashv) ss (i, n) =
           Inr (i div 2 ^ length ss, proof_root hashv i n ss)"
  using assms(2,3)
proof (induction ss arbitrary: i n)
  case Nil
  then show ?case by simp
next
  case (Cons s ss)
  let ?n' = "if even i then node_hash hashv n s else node_hash hashv s n"
  have n': "length ?n' = 32" and ss: "\<forall>s\<in>set ss. length s = PROOF_ENTRY_SIZE"
    using Cons.prems assms(1) by simp_all
  from Cons.prems Cons.IH [OF n' ss, of "i div 2"] show ?case
    by (simp add: proof_step_Inr div_mult2_eq del: if_split)
qed

lemma root_from_proof_eq:
  assumes "digest32 hashv" and "length lf = 32"
  shows "root_from_proof hashv i lf prf =
    Inr (if i < 2 ^ (length prf div PROOF_ENTRY_SIZE)
         then Some (proof_root hashv i lf (chunks_exact PROOF_ENTRY_SIZE prf)) else None)"
proof -
  let ?ss = "chunks_exact PROOF_ENTRY_SIZE prf"
  have entries: "\<forall>s\<in>set ?ss. length s = PROOF_ENTRY_SIZE"
    by (auto dest: chunks_exact_lengths)
  have "length ?ss = length prf div PROOF_ENTRY_SIZE"
    by (simp add: length_chunks_exact)
  then show ?thesis
    by (simp add: root_from_proof_def fold_proof_steps [OF assms entries] div_eq_0_iff)
qed

lemma proof_root_preimages:
  assumes "length ss = length ss'"
    and "take PROOF_ENTRY_SIZE (proof_root hashv i n ss) = take PROOF_ENTRY_SIZE (proof_root hashv i n' ss')"
  shows "take PROOF_ENTRY_SIZE n = take PROOF_ENTRY_SIZE n' \<or>
    (\<exists>k < length ss.
       proof_preimages hashv i n ss ! k \<noteq> proof_preimages hashv i n' ss' ! k \<and>
       take PROOF_ENTRY_SIZE (hashv (proof_preimages hashv i n ss ! k)) =
       take PROOF_ENTRY_SIZE (hashv (proof_preimages hashv i n' ss' ! k)))"
  using assms
proof (induction ss ss' arbitrary: i n n' rule: list_induct2)
  case Nil
  then show ?case by simp
next
  case (Cons s ss s' ss')
  define pre where "pre = hd (proof_preimages hashv i n (s # ss))"
  define pre' where "pre' = hd (proof_preimages hashv i n' (s' # ss'))"
  have steps:
    "proof_root hashv i n (s # ss) = proof_root hashv (i div 2) (hashv pre) ss"
    "proof_root hashv i n' (s' # ss') = proof_root hashv (i div 2) (hashv pre') ss'"
    "proof_preimages hashv i n (s # ss) = pre # proof_preimages hashv (i div 2) (hashv pre) ss"
    "proof_preimages hashv i n' (s' # ss') = pre' # proof_preimages hashv (i div 2) (hashv pre') ss'"
    by (simp_all add: pre_def pre'_def Let_def node_hash_def)
  consider (eq) "pre = pre'"
    | (coll) "pre \<noteq> pre'" "take PROOF_ENTRY_SIZE (hashv pre) = take PROOF_ENTRY_SIZE (hashv pre')"
    | (above) "take PROOF_ENTRY_SIZE (hashv pre) \<noteq> take PROOF_ENTRY_SIZE (hashv pre')" by auto
  then show ?case
  proof cases
    case eq
    then show ?thesis by (simp add: pre_def pre'_def Let_def split: if_splits)
  next
    case coll
    then show ?thesis unfolding steps by (intro disjI2 exI [of _ 0]) simp
  next
    case above
    with Cons.IH [of "i div 2" "hashv pre" "hashv pre'"] Cons.prems
    obtain k where "k < length ss"
      "proof_preimages hashv (i div 2) (hashv pre) ss ! k \<noteq>
       proof_preimages hashv (i div 2) (hashv pre') ss' ! k"
      "take PROOF_ENTRY_SIZE (hashv (proof_preimages hashv (i div 2) (hashv pre) ss ! k)) =
       take PROOF_ENTRY_SIZE (hashv (proof_preimages hashv (i div 2) (hashv pre') ss' ! k))"
      unfolding steps by blast
    then show ?thesis unfolding steps by (intro disjI2 exI [of _ "Suc k"]) simp
  qed
qed


section \<open>Building the tree\<close>

lemma nth_parents:
  "i < length (parents hashv xs) \<Longrightarrow>
   parents hashv xs ! i = node_hash hashv (xs ! (2 * i)) (xs ! min (2 * i + 1) (length xs - 1))"
proof (induction hashv xs arbitrary: i rule: parents.induct)
  case (3 hashv x y zs)
  show ?case
  proof (cases i)
    case (Suc j)
    with "3.prems" have j: "j < length (parents hashv zs)" by simp
    then have "zs \<noteq> []" by auto
    then have "min (Suc (Suc (Suc (2 * j)))) (Suc (length zs)) =
        Suc (Suc (min (2 * j + 1) (length zs - 1)))"
      by (cases zs) auto
    with Suc "3.IH" [OF j] show ?thesis by simp
  qed simp
qed simp_all

lemma parents_long:
  "digest32 hashv \<Longrightarrow> x \<in> set (parents hashv xs) \<Longrightarrow> length x = 32"
  by (induction hashv xs rule: parents.induct) auto

lemma tree_level_from:
  assumes "digest32 hashv" and long: "\<forall>x\<in>set lvl. PROOF_ENTRY_SIZE \<le> length x"
    and k: "k \<le> length (parents hashv lvl)"
  shows "tree_level hashv (length pre) (length lvl) (length pre + 2 * k)
           (pre @ lvl @ take k (parents hashv lvl)) = Inr (pre @ lvl @ parents hashv lvl)"
  using k
proof (induction "length (parents hashv lvl) - k" arbitrary: k)
  case 0
  then have "length lvl \<le> 2 * k" by (auto simp: length_parents)
  with 0 show ?case by (simp add: tree_level.simps)
next
  case (Suc d)
  let ?m = "min (Suc (2 * k)) (length lvl - Suc 0)"
  from Suc.hyps(2) have k: "k < length (parents hashv lvl)" by simp
  then have in_level: "2 * k < length lvl" "?m < length lvl" by (auto simp: length_parents)
  have right: "min (Suc (length pre + 2 * k)) (length pre + length lvl - Suc 0) = length pre + ?m"
    using in_level by auto
  have "PROOF_ENTRY_SIZE \<le> length (lvl ! (2 * k))" "PROOF_ENTRY_SIZE \<le> length (lvl ! ?m)"
    using long in_level by auto
  moreover have "take (Suc k) (parents hashv lvl) =
      take k (parents hashv lvl) @ [node_hash hashv (lvl ! (2 * k)) (lvl ! ?m)]"
    using k nth_parents [OF k] by (simp add: take_Suc_conv_app_nth)
  ultimately show ?case
    using Suc.hyps(1) [of "Suc k"] Suc.hyps(2) k in_level
    by (subst tree_level.simps) (simp add: Let_def right nth_append)
qed

lemma tree_level_eq:
  assumes "digest32 hashv" and "\<forall>x\<in>set lvl. PROOF_ENTRY_SIZE \<le> length x"
  shows "tree_level hashv (length pre) (length lvl) (length pre) (pre @ lvl) =
           Inr (pre @ lvl @ parents hashv lvl)"
  using tree_level_from [OF assms, of 0 pre] by simp

lemma parents_entries:
  "digest32 hashv \<Longrightarrow> \<forall>x\<in>set (parents hashv xs). PROOF_ENTRY_SIZE \<le> length x"
  by (auto dest: parents_long)

lemma tree_levels_eq:
  assumes "digest32 hashv" and "\<forall>x\<in>set lvl. PROOF_ENTRY_SIZE \<le> length x"
  shows "tree_levels hashv (length pre) (length lvl) (pre @ lvl) = Inr (pre @ all_levels hashv lvl)"
  using assms
proof (induction hashv lvl arbitrary: pre rule: all_levels.induct)
  case (1 hashv lvl)
  show ?case
  proof (cases "length lvl > 1")
    case True
    have "length (parents hashv lvl) = div_ceil (length lvl) 2"
      by (simp add: length_parents div_ceil_def)
    with True "1.IH" [of "pre @ lvl"] "1.prems" parents_entries [of hashv lvl] show ?thesis
      by (simp add: tree_levels.simps [of _ "length pre"] all_levels.simps [of hashv lvl]
          tree_level_eq)
  next
    case False
    then show ?thesis by (simp add: tree_levels.simps all_levels.simps)
  qed
qed

lemma all_levels_Nil_iff [simp]: "all_levels hashv xs = [] \<longleftrightarrow> xs = []"
  by (subst all_levels.simps) auto

lemma parents_Nil_iff [simp]: "parents hashv xs = [] \<longleftrightarrow> xs = []"
  by (cases "(hashv, xs)" rule: parents.cases) auto

lemma last_all_levels: "xs \<noteq> [] \<Longrightarrow> last (all_levels hashv xs) = merkle_root_of hashv xs"
proof (induction hashv xs rule: all_levels.induct)
  case (1 hashv xs)
  show ?case
  proof (cases "length xs > 1")
    case True
    with 1 show ?thesis
      by (simp add: all_levels.simps [of hashv xs] merkle_root_of.simps [of hashv xs])
  next
    case False
    with "1.prems" obtain x where "xs = [x]" by (cases xs) auto
    then show ?thesis by (simp add: all_levels.simps merkle_root_of.simps)
  qed
qed

lemma tree_new_eq:
  assumes "digest32 hashv" and "leaves \<noteq> []" and "\<forall>x\<in>set leaves. length x = 32"
  shows "tree_new hashv leaves =
    Inr \<lparr>t_nodes = all_levels hashv leaves, t_num_leaves = length leaves\<rparr>"
proof -
  have "\<forall>x\<in>set leaves. PROOF_ENTRY_SIZE \<le> length x" using assms(3) by simp
  with assms show ?thesis
    by (simp add: tree_new_def tree_levels_eq [where pre = "[]", simplified])
qed

section \<open>Proofs out of the tree\<close>

lemma tree_proof_loop_eq:
  assumes "digest32 hashv" and "\<forall>x\<in>set lvl. PROOF_ENTRY_SIZE \<le> length x" and "index < length lvl"
  shows "tree_proof_loop (pre @ all_levels hashv lvl) (length pre) (length lvl) index acc =
           Inr (acc @ merkle_proof_of hashv lvl index)"
  using assms
proof (induction hashv lvl index arbitrary: pre acc rule: merkle_proof_of.induct)
  case (1 hashv lvl index)
  show ?case
  proof (cases "length lvl > 1")
    case True
    let ?s = "min (index XOR 1) (length lvl - 1)"
    have s: "?s < length lvl" using True by simp
    then have "PROOF_ENTRY_SIZE \<le> length (lvl ! ?s)" using "1.prems"(2) by auto
    moreover have "index div 2 < length (parents hashv lvl)"
      using "1.prems"(3) by (auto simp: length_parents)
    moreover have "div_ceil (length lvl) 2 = length (parents hashv lvl)"
      by (simp add: length_parents div_ceil_def)
    ultimately show ?thesis
      using True s "1.IH" [of "pre @ lvl" "acc @ [take PROOF_ENTRY_SIZE (lvl ! ?s)]"] "1.prems"
        parents_entries [of hashv lvl]
      by (subst tree_proof_loop.simps)
        (simp add: all_levels.simps [of hashv lvl] merkle_proof_of.simps [of hashv lvl]
          nth_append drop_bit_eq_div)
  next
    case False
    then show ?thesis by (simp add: tree_proof_loop.simps merkle_proof_of.simps)
  qed
qed

lemma merkle_proof_entries:
  assumes "digest32 hashv" and "\<forall>x\<in>set xs. PROOF_ENTRY_SIZE \<le> length x"
  shows "\<forall>s\<in>set (merkle_proof_of hashv xs i). length s = PROOF_ENTRY_SIZE"
  using assms
proof (induction hashv xs i rule: merkle_proof_of.induct)
  case (1 hashv xs i)
  have "length xs > 1 \<Longrightarrow> min (i XOR 1) (length xs - 1) < length xs" by simp
  with 1 parents_entries [of hashv xs] show ?case
    by (subst merkle_proof_of.simps) auto
qed

lemma merkle_proof_length: "length xs \<le> 2 ^ length (merkle_proof_of hashv xs i)"
proof (induction hashv xs i rule: merkle_proof_of.induct)
  case (1 hashv xs i)
  then show ?case
    by (subst merkle_proof_of.simps) (auto simp: length_parents)
qed

lemma proof_root_of_proof:
  "i < length xs \<Longrightarrow>
   proof_root hashv i (xs ! i) (merkle_proof_of hashv xs i) = merkle_root_of hashv xs"
proof (induction hashv xs i rule: merkle_proof_of.induct)
  case (1 hashv xs i)
  show ?case
  proof (cases "length xs > 1")
    case True
    let ?s = "xs ! min (i XOR 1) (length xs - 1)"
    have j: "i div 2 < length (parents hashv xs)"
      using "1.prems" by (auto simp: length_parents)
    have "(if even i then node_hash hashv (xs ! i) ?s else node_hash hashv ?s (xs ! i)) =
        parents hashv xs ! (i div 2)"
    proof (cases "even i")
      case False
      then have "2 * (i div 2) = i - 1" "min i (length xs - 1) = i" "min (i - 1) (length xs - 1) = i - 1"
        using "1.prems" by auto
      with False show ?thesis by (simp add: nth_parents [OF j] nat_xor_one [simplified])
    qed (simp add: nth_parents [OF j] nat_xor_one [simplified])
    with True 1 j show ?thesis
      by (cases "even i") (simp_all add: merkle_proof_of.simps [of hashv xs] merkle_root_of.simps [of hashv xs])
  next
    case False
    with "1.prems" obtain x where "xs = [x]" and "i = 0" by (cases xs) auto
    then show ?thesis by (simp add: merkle_proof_of.simps merkle_root_of.simps)
  qed
qed


section \<open>Properties\<close>

text \<open>A concrete 32-byte digest for the witnesses: the last 32 bytes of the input, zero padded.\<close>

definition sample_hash :: hasher where
  "sample_hash xs = take 32 (rev (concat xs) @ replicate 32 0)"

lemma digest32_sample_hash: "digest32 sample_hash"
  by (auto simp: digest32_def sample_hash_def min_def)

lemma tree_and_proof:
  assumes "digest32 hashv" and "\<forall>x\<in>set leaves. length x = 32" and "i < length leaves"
  shows "tree_proof \<lparr>t_nodes = all_levels hashv leaves, t_num_leaves = length leaves\<rparr> i = Inr (merkle_proof_of hashv leaves i)"
  using assms by (auto simp: tree_proof_def tree_proof_loop_eq [where pre = "[]", simplified])

lemma proof_walks_back:
  assumes "digest32 hashv" and "\<forall>x\<in>set leaves. length x = 32" and "i < length leaves"
  shows "bind_out (tree_new hashv leaves) (\<lambda>t.
           bind_out (tree_proof t i) (\<lambda>p.
           bind_out (root_from_proof hashv i (leaves ! i) (concat p)) (\<lambda>walked.
           bind_out (tree_root t) (\<lambda>root. Inr (walked = Some root))))) = Inr True"
proof -
  have ne: "leaves \<noteq> []" and long: "\<forall>x\<in>set leaves. PROOF_ENTRY_SIZE \<le> length x"
    using assms by auto
  let ?p = "merkle_proof_of hashv leaves i"
  have entries: "\<forall>s\<in>set ?p. length s = PROOF_ENTRY_SIZE"
    by (rule merkle_proof_entries [OF assms(1) long])
  then have chunks: "chunks_exact PROOF_ENTRY_SIZE (concat ?p) = ?p"
    by (simp add: chunks_exact_concat)
  then have "length (concat ?p) div PROOF_ENTRY_SIZE = length ?p"
    using length_chunks_exact [of PROOF_ENTRY_SIZE "concat ?p"] by simp
  moreover have "i < 2 ^ length ?p"
    using merkle_proof_length [of leaves hashv i] assms(3) by simp
  ultimately show ?thesis
    using assms ne long
    by (simp add: tree_new_eq tree_and_proof tree_root_def last_all_levels root_from_proof_eq chunks proof_root_of_proof)
qed

text \<open>A full tree's proofs have one entry per level.\<close>

lemma full_tree_proof_length: "length xs = 2 ^ n \<Longrightarrow> length (merkle_proof_of hashv xs i) = n"
proof (induction n arbitrary: xs i)
  case (Suc n)
  then have "length xs = 2 * 2 ^ n" by simp
  moreover have "1 \<le> (2 :: nat) ^ n" by (rule one_le_power) simp
  ultimately have "1 < length xs" "length (parents hashv xs) = 2 ^ n" unfolding length_parents by linarith+
  then show ?case using Suc.IH by (subst merkle_proof_of.simps) simp
qed (subst merkle_proof_of.simps, simp)

text \<open>
  C26. For every non-empty list of 32-byte leaves, building the tree, taking the root and taking
  the proof of any leaf all succeed without a panic, and walking that proof from the leaf gives
  back exactly the root of the tree (\<open>proofs_reproduce_root\<close> for every size and index).
\<close>

theorem proofs_reproduce_root:
  assumes "digest32 hashv" and "\<forall>x\<in>set leaves. length x = 32" and "i < length leaves"
  shows "bind_out (tree_new hashv leaves) (\<lambda>t.
           bind_out (tree_proof t i) (\<lambda>p.
           bind_out (root_from_proof hashv i (leaves ! i) (concat p)) (\<lambda>walked.
           bind_out (tree_root t) (\<lambda>root. Inr (walked = Some root))))) = Inr True"
  by (rule proof_walks_back [OF assms])

theorem proofs_reproduce_root_witness:
  "bind_out (tree_new sample_hash [replicate 32 1, replicate 32 2, replicate 32 3]) (\<lambda>t.
     bind_out (tree_proof t 2) (\<lambda>p.
     bind_out (root_from_proof sample_hash 2 (replicate 32 3) (concat p)) (\<lambda>walked.
     bind_out (tree_root t) (\<lambda>root. Inr (walked = Some root))))) = Inr True"
  using proofs_reproduce_root
    [of sample_hash "[replicate 32 1, replicate 32 2, replicate 32 3]" 2] digest32_sample_hash
  by simp

text \<open>
  Walking a proof never panics and returns a root exactly when the proof has enough whole
  20-byte entries for the index (\<open>index < 2 ^ entries\<close>); a proof that is too short is rejected.
\<close>

lemma root_from_proof_total:
  assumes "digest32 hashv" and "length lf = 32"
  shows "\<exists>r. root_from_proof hashv i lf prf = Inr r \<and>
             (r \<noteq> None \<longleftrightarrow> i < 2 ^ (length prf div PROOF_ENTRY_SIZE)) \<and>
             (\<forall>h. r = Some h \<longrightarrow> length h = 32)"
proof -
  have "length (proof_root hashv i n ss) = 32" if "length n = 32" for i n ss
    using that assms(1) by (induction ss arbitrary: i n) simp_all
  with assms show ?thesis by (simp add: root_from_proof_eq)
qed

text \<open>
  C27. Binding: if two proofs with the same number of entries lead two leaves at the same index to
  the same root, then the leaves agree on the 20 bytes that enter the tree, or the two walks
  themselves exhibit two different node preimages whose digests agree on 20 bytes.
\<close>

theorem same_root_same_leaf:
  assumes "digest32 hashv" and "length lf = 32" and "length lf' = 32"
    and "root_from_proof hashv i lf prf = Inr (Some root)"
    and "root_from_proof hashv i lf' prf' = Inr (Some root)"
    and "length prf = length prf'"
  shows "take PROOF_ENTRY_SIZE lf = take PROOF_ENTRY_SIZE lf' \<or>
    (\<exists>k < length prf div PROOF_ENTRY_SIZE.
       let a = proof_preimages hashv i lf (chunks_exact PROOF_ENTRY_SIZE prf) ! k;
           b = proof_preimages hashv i lf' (chunks_exact PROOF_ENTRY_SIZE prf') ! k
       in a \<noteq> b \<and> take PROOF_ENTRY_SIZE (hashv a) = take PROOF_ENTRY_SIZE (hashv b))"
proof -
  let ?c = "chunks_exact PROOF_ENTRY_SIZE"
  have "length (?c prf) = length (?c prf')" using assms(6) by (simp add: length_chunks_exact)
  moreover have "proof_root hashv i lf (?c prf) = proof_root hashv i lf' (?c prf')"
    using assms by (simp add: root_from_proof_eq split: if_splits)
  ultimately show ?thesis
    using proof_root_preimages [of "?c prf" "?c prf'" hashv i lf lf']
    by (simp add: Let_def length_chunks_exact)
qed

theorem same_root_same_leaf_witness:
  "take PROOF_ENTRY_SIZE (replicate 20 1 @ replicate 12 0) =
     take PROOF_ENTRY_SIZE (replicate 20 1 @ replicate 12 (9::byte)) \<or>
   (\<exists>k < length (replicate 20 (5::byte)) div PROOF_ENTRY_SIZE.
      let a = proof_preimages sample_hash 0 (replicate 20 1 @ replicate 12 0)
                (chunks_exact PROOF_ENTRY_SIZE (replicate 20 5)) ! k;
          b = proof_preimages sample_hash 0 (replicate 20 1 @ replicate 12 9)
                (chunks_exact PROOF_ENTRY_SIZE (replicate 20 5)) ! k
      in a \<noteq> b \<and> take PROOF_ENTRY_SIZE (sample_hash a) = take PROOF_ENTRY_SIZE (sample_hash b))"
proof (rule same_root_same_leaf
    [where root = "node_hash sample_hash (replicate 20 1) (replicate 20 5)"])
  show "digest32 sample_hash" by (rule digest32_sample_hash)
qed (simp_all add: root_from_proof_eq digest32_sample_hash chunks_exact.simps node_hash_def)

end
