(* ===== verification/Shred.thy ===== *)
theory Shred
  imports Merkle
begin

unbundle bit_operations_syntax

text \<open>
  The shred wire format (\<open>src/shred.rs\<close>): the layout constants, the parser with all its
  validation branches, and the accessors over a parsed shred. Integers keep the width of the
  source; \<open>usize\<close> values are naturals. Every slice and index of the source is bounds checked, so
  a read past the buffer would be a panic of the model too.
\<close>

section \<open>Layout constants\<close>

abbreviation DATA_SHRED_SIZE :: nat where "DATA_SHRED_SIZE \<equiv> 1203"
abbreviation CODE_SHRED_SIZE :: nat where "CODE_SHRED_SIZE \<equiv> 1228"
abbreviation DATA_SHREDS_PER_FEC_SET :: nat where "DATA_SHREDS_PER_FEC_SET \<equiv> 32"
abbreviation CODE_SHREDS_PER_FEC_SET :: nat where "CODE_SHREDS_PER_FEC_SET \<equiv> 32"
abbreviation MAX_SHREDS_PER_SLOT :: u32 where "MAX_SHREDS_PER_SLOT \<equiv> 32768"
abbreviation MAX_PACKET_SIZE :: nat where "MAX_PACKET_SIZE \<equiv> 1232"
abbreviation SIGNATURE_SIZE :: nat where "SIGNATURE_SIZE \<equiv> 64"
abbreviation DATA_HEADERS_SIZE :: nat where "DATA_HEADERS_SIZE \<equiv> 88"
abbreviation CODE_HEADERS_SIZE :: nat where "CODE_HEADERS_SIZE \<equiv> 89"
abbreviation MERKLE_ROOT_SIZE :: nat where "MERKLE_ROOT_SIZE \<equiv> 32"
abbreviation VARIANT_OFFSET :: nat where "VARIANT_OFFSET \<equiv> 64"
abbreviation SLOT_OFFSET :: nat where "SLOT_OFFSET \<equiv> 65"
abbreviation INDEX_OFFSET :: nat where "INDEX_OFFSET \<equiv> 73"
abbreviation VERSION_OFFSET :: nat where "VERSION_OFFSET \<equiv> 77"
abbreviation FEC_SET_INDEX_OFFSET :: nat where "FEC_SET_INDEX_OFFSET \<equiv> 79"
abbreviation PARENT_OFFSET_OFFSET :: nat where "PARENT_OFFSET_OFFSET \<equiv> 83"
abbreviation FLAGS_OFFSET :: nat where "FLAGS_OFFSET \<equiv> 85"
abbreviation SIZE_OFFSET :: nat where "SIZE_OFFSET \<equiv> 86"
abbreviation NUM_DATA_OFFSET :: nat where "NUM_DATA_OFFSET \<equiv> 83"
abbreviation NUM_CODE_OFFSET :: nat where "NUM_CODE_OFFSET \<equiv> 85"
abbreviation POSITION_OFFSET :: nat where "POSITION_OFFSET \<equiv> 87"
abbreviation FLAG_DATA_COMPLETE :: u8 where "FLAG_DATA_COMPLETE \<equiv> 0x40"
abbreviation FLAG_LAST_IN_SLOT :: u8 where "FLAG_LAST_IN_SLOT \<equiv> 0xC0"

section \<open>Data\<close>

datatype shred_kind = Data | Code

datatype shred_error =
    TooShort nat
  | InvalidVariant u8
  | InvalidProofSize u8
  | IndexOutOfRange u32
  | FecSetMisaligned u32 u32
  | InvalidParentOffset u64 u16
  | InvalidFlags u8
  | InvalidSize u16
  | InvalidErasureConfig u16 u16 u16

datatype header =
    DataHeader (h_parent_offset: u16) (h_flags: u8) (h_size: u16)
  | CodeHeader (h_position: u16)

record shred =
  s_bytes :: bytes
  s_kind :: shred_kind
  s_resigned :: bool
  s_proof_size :: u8
  s_slot :: u64
  s_index :: u32
  s_version :: u16
  s_fec_set_index :: u32
  s_capacity :: nat
  s_header :: header

section \<open>Parsing\<close>

definition u16_at :: "bytes \<Rightarrow> nat \<Rightarrow> ('e, u16) outcome" where
  "u16_at b off =
     bind_out (index_at b off) (\<lambda>x. bind_out (index_at b (off + 1)) (\<lambda>y.
     Inr (word_of_nat (le_val [x, y]))))"

definition u32_at :: "bytes \<Rightarrow> nat \<Rightarrow> ('e, u32) outcome" where
  "u32_at b off = bind_out (slice b off (off + 4)) (\<lambda>s. Inr (word_of_nat (le_val s)))"

definition u64_at :: "bytes \<Rightarrow> nat \<Rightarrow> ('e, u64) outcome" where
  "u64_at b off = bind_out (slice b off (off + 8)) (\<lambda>s. Inr (word_of_nat (le_val s)))"

definition wire_size :: "shred_kind \<Rightarrow> nat" where
  "wire_size kind = (case kind of Data \<Rightarrow> DATA_SHRED_SIZE | Code \<Rightarrow> CODE_SHRED_SIZE)"

definition headers_size :: "shred_kind \<Rightarrow> nat" where
  "headers_size kind = (case kind of Data \<Rightarrow> DATA_HEADERS_SIZE | Code \<Rightarrow> CODE_HEADERS_SIZE)"

definition capacity :: "shred_kind \<Rightarrow> u8 \<Rightarrow> bool \<Rightarrow> nat option" where
  "capacity kind proof_size resigned =
     (let total = wire_size kind;
          overhead = headers_size kind + MERKLE_ROOT_SIZE + unat proof_size * PROOF_ENTRY_SIZE
            + (if resigned then SIGNATURE_SIZE else 0)
      in if overhead \<le> total then Some (total - overhead) else None)"

definition DATA_CAPACITY :: nat where
  "DATA_CAPACITY = (case capacity Data PROOF_ENTRIES_FOR_32_32 False of Some n \<Rightarrow> n | None \<Rightarrow> 0)"

definition is_multiple_of :: "u32 \<Rightarrow> u32 \<Rightarrow> bool" where
  "is_multiple_of x n \<longleftrightarrow> x mod n = 0"

definition shred_variant :: "u8 \<Rightarrow> (shred_kind \<times> bool) option" where
  "shred_variant variant =
     (let high = variant AND 0xF0 in
      if high = 0x90 then Some (Data, False)
      else if high = 0xB0 then Some (Data, True)
      else if high = 0x60 then Some (Code, False)
      else if high = 0x70 then Some (Code, True)
      else None)"

text \<open>The two arms of the header match in \<open>Shred::parse\<close>.\<close>

definition parse_data_header ::
    "bytes \<Rightarrow> u64 \<Rightarrow> u32 \<Rightarrow> u32 \<Rightarrow> nat \<Rightarrow> (shred_error, header) outcome" where
  "parse_data_header bytes slot index fec_set_index cap =
     (if \<not> is_multiple_of fec_set_index (word_of_nat DATA_SHREDS_PER_FEC_SET)
         \<or> index < fec_set_index
         \<or> index - fec_set_index \<ge> word_of_nat DATA_SHREDS_PER_FEC_SET
      then Inl (Err (FecSetMisaligned index fec_set_index))
      else bind_out (u16_at bytes PARENT_OFFSET_OFFSET) (\<lambda>parent_offset.
        if (parent_offset = 0 \<and> slot \<noteq> 0) \<or> (ucast parent_offset :: u64) > slot
        then Inl (Err (InvalidParentOffset slot parent_offset))
        else bind_out (index_at bytes FLAGS_OFFSET) (\<lambda>flags.
          let last_in_slot = (flags AND FLAG_LAST_IN_SLOT = FLAG_LAST_IN_SLOT) in
          if (flags AND 0x80 \<noteq> 0 \<and> flags AND FLAG_DATA_COMPLETE = 0)
             \<or> (last_in_slot \<and> \<not> is_multiple_of (index + 1) (word_of_nat DATA_SHREDS_PER_FEC_SET))
          then Inl (Err (InvalidFlags flags))
          else bind_out (u16_at bytes SIZE_OFFSET) (\<lambda>sz.
            if unat sz < DATA_HEADERS_SIZE \<or> unat sz > DATA_HEADERS_SIZE + cap
            then Inl (Err (InvalidSize sz))
            else Inr (DataHeader parent_offset flags sz)))))"

definition parse_code_header :: "bytes \<Rightarrow> u32 \<Rightarrow> u32 \<Rightarrow> (shred_error, header) outcome" where
  "parse_code_header bytes index fec_set_index =
     bind_out (u16_at bytes NUM_DATA_OFFSET) (\<lambda>num_data.
     bind_out (u16_at bytes NUM_CODE_OFFSET) (\<lambda>num_code.
     bind_out (u16_at bytes POSITION_OFFSET) (\<lambda>position.
     if unat num_data \<noteq> DATA_SHREDS_PER_FEC_SET
        \<or> unat num_code \<noteq> CODE_SHREDS_PER_FEC_SET
        \<or> unat position \<ge> CODE_SHREDS_PER_FEC_SET
        \<or> (ucast position :: u32) > index
        \<or> \<not> is_multiple_of fec_set_index (word_of_nat DATA_SHREDS_PER_FEC_SET)
     then Inl (Err (InvalidErasureConfig num_data num_code position))
     else Inr (CodeHeader position))))"

definition parse :: "bytes \<Rightarrow> (shred_error, shred) outcome" where
  "parse packet =
     (case get_at packet VARIANT_OFFSET of
        None \<Rightarrow> Inl (Err (TooShort (length packet)))
      | Some variant \<Rightarrow>
        (case shred_variant variant of
           None \<Rightarrow> Inl (Err (InvalidVariant variant))
         | Some (kind, resigned) \<Rightarrow>
           let proof_size = variant AND 0x0F; sz = wire_size kind in
           if length packet < sz then Inl (Err (TooShort (length packet)))
           else let bytes = take sz packet in
           (case capacity kind proof_size resigned of
              None \<Rightarrow> Inl (Err (InvalidProofSize proof_size))
            | Some cap \<Rightarrow>
              bind_out (u64_at bytes SLOT_OFFSET) (\<lambda>slot.
              bind_out (u32_at bytes INDEX_OFFSET) (\<lambda>index.
              bind_out (u16_at bytes VERSION_OFFSET) (\<lambda>version.
              bind_out (u32_at bytes FEC_SET_INDEX_OFFSET) (\<lambda>fec_set_index.
              if index \<ge> MAX_SHREDS_PER_SLOT then Inl (Err (IndexOutOfRange index))
              else bind_out
                (case kind of
                   Data \<Rightarrow> parse_data_header bytes slot index fec_set_index cap
                 | Code \<Rightarrow> parse_code_header bytes index fec_set_index) (\<lambda>header.
              Inr \<lparr>s_bytes = bytes, s_kind = kind, s_resigned = resigned,
                   s_proof_size = proof_size, s_slot = slot, s_index = index,
                   s_version = version, s_fec_set_index = fec_set_index,
                   s_capacity = cap, s_header = header\<rparr>))))))))"

section \<open>Accessors\<close>

definition is_data :: "shred \<Rightarrow> bool" where
  "is_data s \<longleftrightarrow> s_kind s = Data"

definition signature :: "shred \<Rightarrow> ('e, bytes) outcome" where
  "signature s = slice (s_bytes s) 0 SIGNATURE_SIZE"

definition parent_slot :: "shred \<Rightarrow> u64 option" where
  "parent_slot s = (case s_header s of
     DataHeader parent_offset _ _ \<Rightarrow> Some (s_slot s - ucast parent_offset) | CodeHeader _ \<Rightarrow> None)"

definition flags :: "shred \<Rightarrow> u8 option" where
  "flags s = (case s_header s of DataHeader _ f _ \<Rightarrow> Some f | CodeHeader _ \<Rightarrow> None)"

definition data_complete :: "shred \<Rightarrow> bool" where
  "data_complete s = (case flags s of None \<Rightarrow> False | Some f \<Rightarrow> f AND FLAG_DATA_COMPLETE \<noteq> 0)"

definition last_in_slot :: "shred \<Rightarrow> bool" where
  "last_in_slot s =
     (case flags s of None \<Rightarrow> False | Some f \<Rightarrow> f AND FLAG_LAST_IN_SLOT = FLAG_LAST_IN_SLOT)"

definition shred_data :: "shred \<Rightarrow> ('e, bytes) outcome" where
  "shred_data s = (case s_header s of
     DataHeader _ _ sz \<Rightarrow> slice (s_bytes s) DATA_HEADERS_SIZE (unat sz)
   | CodeHeader _ \<Rightarrow> Inr [])"

definition erasure_shard :: "shred \<Rightarrow> ('e, bytes) outcome" where
  "erasure_shard s = (case s_kind s of
     Data \<Rightarrow> slice (s_bytes s) SIGNATURE_SIZE (DATA_HEADERS_SIZE + s_capacity s)
   | Code \<Rightarrow> slice (s_bytes s) CODE_HEADERS_SIZE (CODE_HEADERS_SIZE + s_capacity s))"

definition erasure_shard_index :: "shred \<Rightarrow> nat" where
  "erasure_shard_index s = (case s_header s of
     DataHeader _ _ _ \<Rightarrow> unat (s_index s - s_fec_set_index s)
   | CodeHeader position \<Rightarrow> DATA_SHREDS_PER_FEC_SET + unat position)"

definition proof_offset :: "shred \<Rightarrow> nat" where
  "proof_offset s = headers_size (s_kind s) + s_capacity s + MERKLE_ROOT_SIZE"

definition chained_merkle_root :: "shred \<Rightarrow> ('e, bytes) outcome" where
  "chained_merkle_root s = slice (s_bytes s) (proof_offset s - MERKLE_ROOT_SIZE) (proof_offset s)"

definition merkle_proof :: "shred \<Rightarrow> ('e, bytes) outcome" where
  "merkle_proof s = slice (s_bytes s) (proof_offset s)
     (proof_offset s + unat (s_proof_size s) * PROOF_ENTRY_SIZE)"

definition retransmitter_signature :: "shred \<Rightarrow> ('e, bytes option) outcome" where
  "retransmitter_signature s =
     (if s_resigned s
      then bind_out (slice (s_bytes s) (length (s_bytes s) - SIGNATURE_SIZE) (length (s_bytes s)))
             (\<lambda>sig. Inr (Some sig))
      else Inr None)"

definition merkle_leaf :: "hasher \<Rightarrow> shred \<Rightarrow> ('e, hash32) outcome" where
  "merkle_leaf hashv s =
     bind_out (slice (s_bytes s) SIGNATURE_SIZE (proof_offset s)) (\<lambda>bs. Inr (leaf hashv bs))"

definition merkle_root :: "hasher \<Rightarrow> shred \<Rightarrow> ('e, hash32 option) outcome" where
  "merkle_root hashv s =
     bind_out (merkle_leaf hashv s) (\<lambda>lf.
     bind_out (merkle_proof s) (\<lambda>prf.
     root_from_proof hashv (erasure_shard_index s) lf prf))"

section \<open>Validity\<close>

text \<open>
  What a parsed shred satisfies; every client may rely on it. The fields are those of the bytes,
  the layout fits the buffer, and the indices respect the FEC set.
\<close>

definition header_ok :: "shred \<Rightarrow> bool" where
  "header_ok s = (case s_header s of
     DataHeader parent_offset f sz \<Rightarrow>
       s_kind s = Data \<and> s_fec_set_index s \<le> s_index s
       \<and> unat (s_index s) < unat (s_fec_set_index s) + DATA_SHREDS_PER_FEC_SET
       \<and> unat parent_offset \<le> unat (s_slot s) \<and> (parent_offset = 0 \<longrightarrow> s_slot s = 0)
       \<and> (f AND 0x80 \<noteq> 0 \<longrightarrow> f AND FLAG_DATA_COMPLETE \<noteq> 0)
       \<and> (f AND FLAG_LAST_IN_SLOT = FLAG_LAST_IN_SLOT \<longrightarrow>
            unat (s_index s) mod DATA_SHREDS_PER_FEC_SET = DATA_SHREDS_PER_FEC_SET - 1)
       \<and> DATA_HEADERS_SIZE \<le> unat sz \<and> unat sz \<le> DATA_HEADERS_SIZE + s_capacity s
   | CodeHeader position \<Rightarrow>
       s_kind s = Code \<and> unat position < CODE_SHREDS_PER_FEC_SET
       \<and> unat position \<le> unat (s_index s))"

definition shred_ok :: "shred \<Rightarrow> bool" where
  "shred_ok s \<longleftrightarrow>
     length (s_bytes s) = wire_size (s_kind s)
     \<and> unat (s_proof_size s) < 16
     \<and> capacity (s_kind s) (s_proof_size s) (s_resigned s) = Some (s_capacity s)
     \<and> unat (s_index s) < unat MAX_SHREDS_PER_SLOT
     \<and> unat (s_fec_set_index s) mod DATA_SHREDS_PER_FEC_SET = 0
     \<and> header_ok s"


section \<open>Reading integers\<close>

lemma u16_at_Inr [layout_simps]:
  "off + 2 \<le> length b \<Longrightarrow> u16_at b off = Inr (word_of_nat (le_val (sub_list b off (off + 2))))"
proof -
  assume "off + 2 \<le> length b"
  then have "sub_list b off (off + 2) = [b ! off, b ! (off + 1)]"
    by (simp add: sub_list_def numeral_2_eq_2 take_Suc_conv_app_nth)
  with \<open>off + 2 \<le> length b\<close> show ?thesis by (simp add: u16_at_def)
qed

lemma u32_at_Inr [layout_simps]:
  "off + 4 \<le> length b \<Longrightarrow> u32_at b off = Inr (word_of_nat (le_val (sub_list b off (off + 4))))"
  by (simp add: u32_at_def)

lemma u64_at_Inr [layout_simps]:
  "off + 8 \<le> length b \<Longrightarrow> u64_at b off = Inr (word_of_nat (le_val (sub_list b off (off + 8))))"
  by (simp add: u64_at_def)

lemma is_multiple_of_32: "is_multiple_of x 32 \<longleftrightarrow> unat x mod 32 = 0"
  by (simp add: is_multiple_of_def unat_eq_zero [symmetric] unat_mod)

lemma wire_size_cases: "wire_size k = 1203 \<or> wire_size k = 1228"
  by (cases k) (simp_all add: wire_size_def)

lemma unat_ucast_u16:
  "unat (ucast (x::u16) :: u32) = unat x"
  "unat (ucast (x::u16) :: u64) = unat x"
  using unsigned_less [of x, where 'a = nat]
  by (simp_all add: unsigned_ucast_eq take_bit_eq_mod)

lemma low_nibble_lt: "unat (v AND 0x0F :: u8) < 16"
proof -
  have "v AND 0x0F \<le> (0x0F :: u8)" by (rule word_and_le1)
  then show ?thesis by (simp add: word_le_nat_alt)
qed

lemma capacity_eq:
  "unat p < 16 \<Longrightarrow> capacity k p r =
     Some ((case k of Data \<Rightarrow> 1083 | Code \<Rightarrow> 1107) - 20 * unat p - (if r then 64 else 0))"
  by (cases k) (auto simp: capacity_def Let_def wire_size_def headers_size_def)

lemma capacity_low_nibble: "capacity k (v AND 0x0F) r \<noteq> None"
  by (simp add: capacity_eq [OF low_nibble_lt])

section \<open>What a successful parse says\<close>

lemma parse_data_header_Inr_iff:
  assumes "DATA_HEADERS_SIZE \<le> length b"
  shows "parse_data_header b slot index fec cap = Inr h \<longleftrightarrow>
    unat fec mod 32 = 0 \<and> fec \<le> index \<and> index - fec < 32 \<and>
    (\<exists>po f sz. h = DataHeader po f sz \<and>
       po = word_of_nat (le_val (sub_list b 83 85)) \<and> f = b ! 85 \<and>
       sz = word_of_nat (le_val (sub_list b 86 88)) \<and>
       (po = 0 \<longrightarrow> slot = 0) \<and> (ucast po :: u64) \<le> slot \<and>
       (f AND 0x80 \<noteq> 0 \<longrightarrow> f AND FLAG_DATA_COMPLETE \<noteq> 0) \<and>
       (f AND FLAG_LAST_IN_SLOT = FLAG_LAST_IN_SLOT \<longrightarrow> unat (index + 1) mod 32 = 0) \<and>
       88 \<le> unat sz \<and> unat sz \<le> 88 + cap)"
  using assms
  by (auto simp: parse_data_header_def layout_simps is_multiple_of_32 not_less not_le Let_def
      split: if_splits)

lemma parse_code_header_Inr_iff:
  assumes "CODE_HEADERS_SIZE \<le> length b"
  shows "parse_code_header b index fec = Inr h \<longleftrightarrow>
    unat fec mod 32 = 0 \<and>
    unat (word_of_nat (le_val (sub_list b 83 85)) :: u16) = 32 \<and>
    unat (word_of_nat (le_val (sub_list b 85 87)) :: u16) = 32 \<and>
    (\<exists>pos. h = CodeHeader pos \<and> pos = word_of_nat (le_val (sub_list b 87 89)) \<and>
       unat pos < 32 \<and> (ucast pos :: u32) \<le> index)"
  using assms
  by (auto simp: parse_code_header_def layout_simps is_multiple_of_32 not_less not_le
      split: if_splits)

lemma parse_header_no_panic:
  "DATA_HEADERS_SIZE \<le> length b \<Longrightarrow> no_panic (parse_data_header b slot index fec cap)"
  "CODE_HEADERS_SIZE \<le> length b \<Longrightarrow> no_panic (parse_code_header b index fec)"
  by (simp_all add: parse_data_header_def parse_code_header_def layout_simps Let_def)

lemma reads_take:
  assumes "wire_size k \<le> length p"
  shows "off + 2 \<le> 89 \<Longrightarrow> u16_at (take (wire_size k) p) off = Inr (word_of_nat (le_val (sub_list p off (off + 2))))"
    and "off + 4 \<le> 89 \<Longrightarrow> u32_at (take (wire_size k) p) off = Inr (word_of_nat (le_val (sub_list p off (off + 4))))"
    and "off + 8 \<le> 89 \<Longrightarrow> u64_at (take (wire_size k) p) off = Inr (word_of_nat (le_val (sub_list p off (off + 8))))"
  using assms wire_size_cases [of k] by (auto simp: layout_simps)

lemma parse_Inr_iff:
  "parse p = Inr s \<longleftrightarrow>
     VARIANT_OFFSET < length p \<and> shred_variant (p ! 64) = Some (s_kind s, s_resigned s) \<and>
     wire_size (s_kind s) \<le> length p \<and> s_bytes s = take (wire_size (s_kind s)) p \<and>
     s_proof_size s = p ! 64 AND 0x0F \<and>
     capacity (s_kind s) (s_proof_size s) (s_resigned s) = Some (s_capacity s) \<and>
     s_slot s = word_of_nat (le_val (sub_list p 65 73)) \<and>
     s_index s = word_of_nat (le_val (sub_list p 73 77)) \<and>
     s_version s = word_of_nat (le_val (sub_list p 77 79)) \<and>
     s_fec_set_index s = word_of_nat (le_val (sub_list p 79 83)) \<and>
     s_index s < MAX_SHREDS_PER_SLOT \<and>
     (case s_kind s of
        Data \<Rightarrow> parse_data_header (s_bytes s) (s_slot s) (s_index s) (s_fec_set_index s) (s_capacity s)
      | Code \<Rightarrow> parse_code_header (s_bytes s) (s_index s) (s_fec_set_index s)) = Inr (s_header s)"
  by (cases s)
    (auto simp: parse_def get_at_def reads_take Let_def bind_out_Inr_iff not_less not_le
      capacity_low_nibble split: option.split if_split cong: shred_kind.case_cong)


lemma index_in_set:
  assumes "(fec::u32) \<le> index"
  shows "index - fec < 32 \<longleftrightarrow> unat index < unat fec + 32"
  using assms by (auto simp: word_less_nat_alt word_le_nat_alt unat_sub)

lemma unat_Suc_index: "unat (i::u32) < 32768 \<Longrightarrow> unat (i + 1) = unat i + 1"
  by (simp add: unat_word_ariths)

lemma mod_32_Suc: "32 dvd Suc i \<longleftrightarrow> i mod (32::nat) = 31"
  by presburger

lemma parse_InrD:
  assumes "parse p = Inr s"
  shows "wire_size (s_kind s) \<le> length p"
    and "s_bytes s = take (wire_size (s_kind s)) p"
    and "s_index s < MAX_SHREDS_PER_SLOT"
    and "s_proof_size s = p ! 64 AND 0x0F"
    and "capacity (s_kind s) (s_proof_size s) (s_resigned s) = Some (s_capacity s)"
    and "s_kind s = Data \<Longrightarrow> parse_data_header (s_bytes s) (s_slot s) (s_index s)
           (s_fec_set_index s) (s_capacity s) = Inr (s_header s)"
    and "s_kind s = Code \<Longrightarrow>
           parse_code_header (s_bytes s) (s_index s) (s_fec_set_index s) = Inr (s_header s)"
  using assms unfolding parse_Inr_iff by (auto simp only: shred_kind.case)

lemma parse_shred_ok:
  assumes "parse p = Inr s"
  shows "shred_ok s"
proof -
  note inv = parse_InrD [OF assms]
  have len: "length (s_bytes s) = wire_size (s_kind s)" using inv(1) by (simp add: inv(2))
  have idx: "unat (s_index s) < 32768" using inv(3) by (simp add: word_less_nat_alt)
  have "header_ok s \<and> unat (s_fec_set_index s) mod 32 = 0"
  proof (cases "s_kind s")
    case Data
    with len have "DATA_HEADERS_SIZE \<le> length (s_bytes s)" by (simp add: wire_size_def)
    with inv(6) [OF Data] idx Data show ?thesis
      by (auto simp: parse_data_header_Inr_iff header_ok_def index_in_set unat_Suc_index mod_32_Suc
          word_le_nat_alt unat_ucast_u16)
  next
    case Code
    with len have "CODE_HEADERS_SIZE \<le> length (s_bytes s)" by (simp add: wire_size_def)
    with inv(7) [OF Code] Code show ?thesis
      by (auto simp: parse_code_header_Inr_iff header_ok_def word_le_nat_alt unat_ucast_u16)
  qed
  with inv(5) len idx show ?thesis by (simp add: shred_ok_def inv(4) low_nibble_lt)
qed

lemma parse_no_panic_aux: "no_panic (parse p)"
proof -
  have hdr: "89 \<le> length (take (wire_size k) p)" if "wire_size k \<le> length p" for k
    using that wire_size_cases [of k] by auto
  show ?thesis
    by (auto simp: parse_def reads_take Let_def not_less
        intro!: no_panic_bind parse_header_no_panic dest!: hdr
        split: option.split shred_kind.split)
qed

text \<open>The header of a data shred is its bytes 64 to 88; nothing else decides what parses.\<close>

lemma parse_data_header_local:
  assumes "DATA_HEADERS_SIZE \<le> length b" and "DATA_HEADERS_SIZE \<le> length b'"
    and "sub_list b 64 88 = sub_list b' 64 88"
  shows "parse_data_header b slot index fec cap = parse_data_header b' slot index fec cap"
proof -
  have sub: "sub_list b (64 + i) (64 + j) = sub_list b' (64 + i) (64 + j)" if "j \<le> 24" for i j
    using arg_cong [OF assms(3), of "\<lambda>l. sub_list l i j"] that by (simp add: sub_list_sub_list)
  have "b ! 85 = b' ! 85"
    using arg_cong [OF assms(3), of "\<lambda>l. l ! 21"] assms(1,2) by (simp add: nth_sub_list)
  then show ?thesis
    using assms(1,2) sub [of 21 19] sub [of 24 22]
    by (simp add: parse_data_header_def layout_simps)
qed

lemma parse_data_local:
  assumes "parse p = Inr s" and "s_kind s = Data"
    and "length q = DATA_SHRED_SIZE" and "sub_list p 64 88 = sub_list q 64 88"
  shows "parse q = Inr (s\<lparr>s_bytes := q\<rparr>)"
proof -
  note inv = assms(1) [unfolded parse_Inr_iff]
  have lp: "1203 \<le> length p" using inv assms(2) by (simp add: wire_size_def)
  have sub: "sub_list p (64 + i) (64 + j) = sub_list q (64 + i) (64 + j)" if "j \<le> 24" for i j
    using arg_cong [OF assms(4), of "\<lambda>l. sub_list l i j"] that by (simp add: sub_list_sub_list)
  have v: "p ! 64 = q ! 64"
    using arg_cong [OF assms(4), of "\<lambda>l. l ! 0"] assms(3) lp by (simp add: nth_sub_list)
  have "parse_data_header (s_bytes s) (s_slot s) (s_index s) (s_fec_set_index s) (s_capacity s) =
        parse_data_header q (s_slot s) (s_index s) (s_fec_set_index s) (s_capacity s)"
    using inv assms(2,3,4) lp by (intro parse_data_header_local) (simp_all add: wire_size_def)
  with inv assms(2,3) v sub [of 9 1] sub [of 13 9] sub [of 15 13] sub [of 19 15] show ?thesis
    unfolding parse_Inr_iff by (auto simp: wire_size_def)
qed

section \<open>Accessors of a valid shred\<close>

lemma shred_ok_layout:
  assumes "shred_ok s"
  shows "proof_offset s + unat (s_proof_size s) * 20 + (if s_resigned s then 64 else 0) = length (s_bytes s)"
    and "headers_size (s_kind s) + s_capacity s + 32 = proof_offset s"
    and "length (s_bytes s) = wire_size (s_kind s)"
  using assms
  by (cases "s_kind s";
      auto simp: shred_ok_def capacity_eq proof_offset_def headers_size_def wire_size_def)+

lemmas shred_accessors_def = erasure_shard_def chained_merkle_root_def merkle_proof_def
  retransmitter_signature_def merkle_leaf_def signature_def

lemma shred_ok_accessors [layout_simps]:
  assumes "shred_ok s"
  shows "signature s = Inr (take 64 (s_bytes s))"
    and "erasure_shard s = Inr (case s_kind s of
           Data \<Rightarrow> sub_list (s_bytes s) 64 (88 + s_capacity s)
         | Code \<Rightarrow> sub_list (s_bytes s) 89 (89 + s_capacity s))"
    and "chained_merkle_root s = Inr (sub_list (s_bytes s) (proof_offset s - 32) (proof_offset s))"
    and "merkle_proof s =
           Inr (sub_list (s_bytes s) (proof_offset s) (proof_offset s + unat (s_proof_size s) * 20))"
    and "retransmitter_signature s =
           Inr (if s_resigned s then Some (sub_list (s_bytes s) (length (s_bytes s) - 64) (length (s_bytes s)))
                else None)"
    and "merkle_leaf hashv s = Inr (leaf hashv (sub_list (s_bytes s) 64 (proof_offset s)))"
  using shred_ok_layout [OF assms]
  by (cases "s_kind s"; auto simp: shred_accessors_def headers_size_def wire_size_def)+

lemma shred_ok_data [layout_simps]:
  assumes "shred_ok s"
  shows "shred_data s = Inr (case s_header s of
           DataHeader _ _ sz \<Rightarrow> sub_list (s_bytes s) 88 (unat sz) | CodeHeader _ \<Rightarrow> [])"
  using shred_ok_layout [OF assms] assms
  by (auto simp: shred_data_def shred_ok_def header_ok_def headers_size_def split: header.splits)

lemma shred_ok_shard_index:
  assumes "shred_ok s"
  shows "erasure_shard_index s < 64"
    and "s_kind s = Data \<Longrightarrow> erasure_shard_index s = unat (s_index s) - unat (s_fec_set_index s)"
    and "s_kind s = Data \<longleftrightarrow> erasure_shard_index s < 32"
  using assms
  by (auto simp: shred_ok_def header_ok_def erasure_shard_index_def unat_sub word_le_nat_alt
      split: header.splits)

text \<open>The root a valid shred's own proof leads to.\<close>

definition shred_root :: "hasher \<Rightarrow> shred \<Rightarrow> hash32 option" where
  "shred_root hashv s =
     (if erasure_shard_index s < 2 ^ unat (s_proof_size s)
      then Some (proof_root hashv (erasure_shard_index s)
        (leaf hashv (sub_list (s_bytes s) 64 (proof_offset s)))
        (chunks_exact PROOF_ENTRY_SIZE
          (sub_list (s_bytes s) (proof_offset s) (proof_offset s + unat (s_proof_size s) * 20))))
      else None)"

lemma merkle_root_Inr:
  assumes "shred_ok s" and "digest32 hashv"
  shows "merkle_root hashv s = Inr (shred_root hashv s)"
  using assms shred_ok_layout [OF assms(1)]
  by (simp add: merkle_root_def shred_ok_accessors root_from_proof_eq shred_root_def)

section \<open>The documented layout as an encoder\<close>

text \<open>
  The table of the module documentation read as a serializer: the common header, then the data or
  code header, then everything behind it (\<open>rest\<close>: entry bytes or coded shard, chained root, proof,
  retransmitter signature, and possibly a repair nonce).
\<close>

definition common_wire :: "bytes \<Rightarrow> u8 \<Rightarrow> u64 \<Rightarrow> u32 \<Rightarrow> u16 \<Rightarrow> u32 \<Rightarrow> bytes" where
  "common_wire sig variant slot index version fec_set_index =
     sig @ [variant] @ le_bytes 8 (unat slot) @ le_bytes 4 (unat index) @ le_bytes 2 (unat version)
       @ le_bytes 4 (unat fec_set_index)"

definition data_wire ::
    "bytes \<Rightarrow> u8 \<Rightarrow> u64 \<Rightarrow> u32 \<Rightarrow> u16 \<Rightarrow> u32 \<Rightarrow> u16 \<Rightarrow> u8 \<Rightarrow> u16 \<Rightarrow> bytes \<Rightarrow> bytes" where
  "data_wire sig variant slot index version fec_set_index parent_offset fl sz rest =
     common_wire sig variant slot index version fec_set_index
       @ le_bytes 2 (unat parent_offset) @ [fl] @ le_bytes 2 (unat sz) @ rest"

definition code_wire ::
    "bytes \<Rightarrow> u8 \<Rightarrow> u64 \<Rightarrow> u32 \<Rightarrow> u16 \<Rightarrow> u32 \<Rightarrow> u16 \<Rightarrow> u16 \<Rightarrow> u16 \<Rightarrow> bytes \<Rightarrow> bytes" where
  "code_wire sig variant slot index version fec_set_index num_data num_code position rest =
     common_wire sig variant slot index version fec_set_index
       @ le_bytes 2 (unat num_data) @ le_bytes 2 (unat num_code) @ le_bytes 2 (unat position) @ rest"

lemma le_val_word:
  "le_val (le_bytes 2 (unat (a::u16))) = unat a"
  "le_val (le_bytes 4 (unat (b::u32))) = unat b"
  "le_val (le_bytes 8 (unat (c::u64))) = unat c"
  using unsigned_less [of a, where 'a = nat] unsigned_less [of b, where 'a = nat]
    unsigned_less [of c, where 'a = nat]
  by (simp_all add: le_val_le_bytes)

lemma common_wire_fields:
  assumes "length sig = 64"
  shows "length (common_wire sig v slot index version fec) = 83"
    and "common_wire sig v slot index version fec ! 64 = v"
    and "sub_list (common_wire sig v slot index version fec) 65 73 = le_bytes 8 (unat slot)"
    and "sub_list (common_wire sig v slot index version fec) 73 77 = le_bytes 4 (unat index)"
    and "sub_list (common_wire sig v slot index version fec) 77 79 = le_bytes 2 (unat version)"
    and "sub_list (common_wire sig v slot index version fec) 79 83 = le_bytes 4 (unat fec)"
  using assms by (simp_all add: common_wire_def nth_append sub_list_def)

lemma data_wire_fields:
  assumes "length sig = 64"
  shows "length (data_wire sig v slot index version fec po fl sz rest) = 88 + length rest"
    and "data_wire sig v slot index version fec po fl sz rest ! 64 = v"
    and "sub_list (data_wire sig v slot index version fec po fl sz rest) 65 73 = le_bytes 8 (unat slot)"
    and "sub_list (data_wire sig v slot index version fec po fl sz rest) 73 77 = le_bytes 4 (unat index)"
    and "sub_list (data_wire sig v slot index version fec po fl sz rest) 77 79 = le_bytes 2 (unat version)"
    and "sub_list (data_wire sig v slot index version fec po fl sz rest) 79 83 = le_bytes 4 (unat fec)"
    and "sub_list (data_wire sig v slot index version fec po fl sz rest) 83 85 = le_bytes 2 (unat po)"
    and "data_wire sig v slot index version fec po fl sz rest ! 85 = fl"
    and "sub_list (data_wire sig v slot index version fec po fl sz rest) 86 88 = le_bytes 2 (unat sz)"
  using common_wire_fields [OF assms, of v slot index version fec]
  by (simp_all add: data_wire_def nth_append sub_list_append1 sub_list_append2)
    (simp_all add: sub_list_def)

lemma code_wire_fields:
  assumes "length sig = 64"
  shows "length (code_wire sig v slot index version fec nd nc pos rest) = 89 + length rest"
    and "code_wire sig v slot index version fec nd nc pos rest ! 64 = v"
    and "sub_list (code_wire sig v slot index version fec nd nc pos rest) 65 73 = le_bytes 8 (unat slot)"
    and "sub_list (code_wire sig v slot index version fec nd nc pos rest) 73 77 = le_bytes 4 (unat index)"
    and "sub_list (code_wire sig v slot index version fec nd nc pos rest) 77 79 = le_bytes 2 (unat version)"
    and "sub_list (code_wire sig v slot index version fec nd nc pos rest) 79 83 = le_bytes 4 (unat fec)"
    and "sub_list (code_wire sig v slot index version fec nd nc pos rest) 83 85 = le_bytes 2 (unat nd)"
    and "sub_list (code_wire sig v slot index version fec nd nc pos rest) 85 87 = le_bytes 2 (unat nc)"
    and "sub_list (code_wire sig v slot index version fec nd nc pos rest) 87 89 = le_bytes 2 (unat pos)"
  using common_wire_fields [OF assms, of v slot index version fec]
  by (simp_all add: code_wire_def nth_append sub_list_append1 sub_list_append2 sub_list_def)

lemma parse_data_layout:
  assumes "length sig = 64" and "shred_variant v = Some (Data, resigned)"
    and "length rest = 1115" and "capacity Data (v AND 0x0F) resigned = Some cap"
    and "unat index < 32768" and "unat fec mod 32 = 0" and "fec \<le> index" and "unat index < unat fec + 32"
    and "po = 0 \<Longrightarrow> slot = 0" and "unat po \<le> unat slot"
    and "fl AND 0x80 \<noteq> 0 \<Longrightarrow> fl AND FLAG_DATA_COMPLETE \<noteq> 0"
    and "fl AND FLAG_LAST_IN_SLOT = FLAG_LAST_IN_SLOT \<Longrightarrow> unat index mod 32 = 31"
    and "88 \<le> unat sz" and "unat sz \<le> 88 + cap"
  shows "parse (data_wire sig v slot index version fec po fl sz rest @ nonce) =
    Inr \<lparr>s_bytes = data_wire sig v slot index version fec po fl sz rest, s_kind = Data,
         s_resigned = resigned, s_proof_size = v AND 0x0F, s_slot = slot, s_index = index,
         s_version = version, s_fec_set_index = fec, s_capacity = cap,
         s_header = DataHeader po fl sz\<rparr>"
proof -
  let ?w = "data_wire sig v slot index version fec po fl sz rest"
  note fields = data_wire_fields [OF assms(1), of v slot index version fec po fl sz rest]
  have len: "length ?w = 1203" by (simp add: fields assms(3))
  have "parse_data_header ?w slot index fec cap = Inr (DataHeader po fl sz)"
    using assms(5-14) len
    by (simp add: parse_data_header_Inr_iff fields le_val_word index_in_set unat_Suc_index mod_32_Suc
        word_le_nat_alt unat_ucast_u16)
  with assms(2,4,5) len show ?thesis
    unfolding parse_Inr_iff
    by (simp add: wire_size_def sub_list_append1 nth_append fields le_val_word word_less_nat_alt)
qed

lemma parse_code_layout:
  assumes "length sig = 64" and "shred_variant v = Some (Code, resigned)"
    and "length rest = 1139" and "capacity Code (v AND 0x0F) resigned = Some cap"
    and "unat index < 32768" and "unat fec mod 32 = 0" and "unat pos < 32" and "unat pos \<le> unat index"
  shows "parse (code_wire sig v slot index version fec 32 32 pos rest @ nonce) =
    Inr \<lparr>s_bytes = code_wire sig v slot index version fec 32 32 pos rest, s_kind = Code,
         s_resigned = resigned, s_proof_size = v AND 0x0F, s_slot = slot, s_index = index,
         s_version = version, s_fec_set_index = fec, s_capacity = cap, s_header = CodeHeader pos\<rparr>"
proof -
  let ?w = "code_wire sig v slot index version fec 32 32 pos rest"
  note fields = code_wire_fields [OF assms(1), of v slot index version fec 32 32 pos rest]
  have len: "length ?w = 1228" by (simp add: fields assms(3))
  have "parse_code_header ?w index fec = Inr (CodeHeader pos)"
    using assms(5-8) len
    by (simp add: parse_code_header_Inr_iff fields le_val_word le_val_word(1) [of 32, simplified]
        word_le_nat_alt unat_ucast_u16)
  with assms(2,4,5) len show ?thesis
    unfolding parse_Inr_iff
    by (simp add: wire_size_def sub_list_append1 nth_append fields le_val_word word_less_nat_alt)
qed

lemma erasure_shard_length:
  assumes "shred_ok s" and "erasure_shard s = Inr sh"
  shows "length sh = 1107 - 20 * unat (s_proof_size s) - (if s_resigned s then 64 else 0)"
  using assms shred_ok_layout [OF assms(1)]
  by (cases "s_kind s")
    (auto simp: shred_ok_accessors shred_ok_def capacity_eq headers_size_def wire_size_def)

lemma shard_sizes_differ:
  assumes "m < 16" and "n < (16::nat)"
  shows "1107 - 20 * m - (if r then 64 else 0) = 1107 - 20 * n - (if r' then 64 else 0)
    \<longleftrightarrow> m = n \<and> r = r'"
proof -
  have "20 * m + 64 \<noteq> 20 * n" and "20 * n + 64 \<noteq> 20 * m" by presburger+
  with assms show ?thesis by (cases r; cases r') (simp_all, arith+)
qed

lemma sub_list_drop: "i \<le> j \<Longrightarrow> sub_list xs i j @ drop j xs = drop i xs"
  by (metis append_take_drop_id drop_drop le_add_diff_inverse2 sub_list_def)

lemma shred_ok_tiles:
  assumes "shred_ok s"
  shows "take 64 (s_bytes s) @ sub_list (s_bytes s) 64 (headers_size (s_kind s) + s_capacity s)
           @ sub_list (s_bytes s) (proof_offset s - 32) (proof_offset s)
           @ sub_list (s_bytes s) (proof_offset s) (proof_offset s + unat (s_proof_size s) * 20)
           @ (if s_resigned s then sub_list (s_bytes s) (length (s_bytes s) - 64) (length (s_bytes s)) else [])
         = s_bytes s"
proof -
  note lay = shred_ok_layout [OF assms]
  let ?b = "s_bytes s" and ?a = "headers_size (s_kind s) + s_capacity s"
    and ?e = "proof_offset s + unat (s_proof_size s) * 20"
  have le: "64 \<le> ?a" "?a = proof_offset s - 32" "?a \<le> proof_offset s" "proof_offset s \<le> ?e"
    "?e \<le> length ?b" "?e = length ?b - (if s_resigned s then 64 else 0)"
    using lay by (cases "s_kind s"; auto simp: headers_size_def)+
  have "take 64 ?b @ sub_list ?b 64 ?a @ sub_list ?b ?a (proof_offset s)
      @ sub_list ?b (proof_offset s) ?e @ drop ?e ?b = ?b"
    using le by (simp add: sub_list_drop)
  moreover have "drop ?e ?b =
      (if s_resigned s then sub_list ?b (length ?b - 64) (length ?b) else [])"
    using le by (simp add: sub_list_def)
  ultimately show ?thesis using le(2) by simp
qed

text \<open>The packets of the unit tests, used in the witnesses.\<close>

definition sample_data_packet :: bytes where
  "sample_data_packet = data_wire (replicate 64 0) 0x96 1000 35 0 32 1 0 500 (replicate 1115 0)"

definition sample_code_packet :: bytes where
  "sample_code_packet = code_wire (replicate 64 0) 0x66 1000 40 0 32 32 32 8 (replicate 1139 0)"

lemma parse_sample_data:
  "parse (sample_data_packet @ nonce) =
    Inr \<lparr>s_bytes = sample_data_packet, s_kind = Data, s_resigned = False, s_proof_size = 6,
         s_slot = 1000, s_index = 35, s_version = 0, s_fec_set_index = 32, s_capacity = 963,
         s_header = DataHeader 1 0 500\<rparr>"
  unfolding sample_data_packet_def
  by (subst parse_data_layout [where resigned = False and cap = 963])
    (simp_all add: shred_variant_def capacity_def wire_size_def headers_size_def)

section \<open>Properties\<close>

text \<open>C13. Parsing a datagram of any length and content returns a shred or an error; it never panics.\<close>

theorem parse_never_panics: "no_panic (parse packet)"
  by (rule parse_no_panic_aux)

text \<open>
  C11. A shred that parses is valid (\<open>shred_ok\<close>: its layout fits its buffer, it sits inside its FEC
  set, its parent, flags and size fields are consistent), its bytes are the datagram cut to the wire
  size of its kind, and parsing those bytes again gives the same shred.
\<close>

theorem parse_sound:
  assumes "parse packet = Inr s"
  shows "shred_ok s \<and> s_bytes s = take (wire_size (s_kind s)) packet \<and> parse (s_bytes s) = Inr s"
proof (intro conjI)
  show "shred_ok s" by (rule parse_shred_ok [OF assms])
  show b: "s_bytes s = take (wire_size (s_kind s)) packet" by (rule parse_InrD(2) [OF assms])
  have "wire_size (s_kind s) \<ge> 1203" using wire_size_cases [of "s_kind s"] by auto
  with assms show "parse (s_bytes s) = Inr s"
    unfolding parse_Inr_iff b by (auto simp: parse_InrD(1) [OF assms])
qed

theorem parse_sound_witness:
  "\<exists>s. parse (sample_data_packet @ [1, 2, 3, 4]) = Inr s \<and> s_index s = 35 \<and>
     shred_ok s \<and> s_bytes s = take (wire_size (s_kind s)) (sample_data_packet @ [1, 2, 3, 4]) \<and>
     parse (s_bytes s) = Inr s"
proof -
  obtain s where s: "parse (sample_data_packet @ [1, 2, 3, 4]) = Inr s" and "s_index s = 35"
    by (simp add: parse_sample_data)
  with parse_sound [OF s] show ?thesis by blast
qed

text \<open>
  Completeness: every datagram laid out as documented whose fields satisfy the checks parses, to exactly
  those fields; bytes after the wire size (a repair nonce) are dropped. For code shreds the 32:32 erasure
  configuration and the position inside the set are the only extra conditions; their FEC set index is not bounded.
\<close>

lemma parse_wire:
  "(length sig = 64 \<and> shred_variant v = Some (Data, resigned) \<and> length rest = 1115 \<and> capacity Data (v AND 0x0F) resigned = Some cap \<and>
      unat index < 32768 \<and> unat fec mod 32 = 0 \<and> fec \<le> index \<and> unat index < unat fec + 32 \<and>
      (po = 0 \<longrightarrow> slot = 0) \<and> unat po \<le> unat slot \<and> (fl AND 0x80 \<noteq> 0 \<longrightarrow> fl AND FLAG_DATA_COMPLETE \<noteq> 0) \<and>
      (fl AND FLAG_LAST_IN_SLOT = FLAG_LAST_IN_SLOT \<longrightarrow> unat index mod 32 = 31) \<and> 88 \<le> unat sz \<and> unat sz \<le> 88 + cap \<longrightarrow>
    parse (data_wire sig v slot index version fec po fl sz rest @ nonce) =
      Inr \<lparr>s_bytes = data_wire sig v slot index version fec po fl sz rest, s_kind = Data, s_resigned = resigned,
        s_proof_size = v AND 0x0F, s_slot = slot, s_index = index, s_version = version, s_fec_set_index = fec,
        s_capacity = cap, s_header = DataHeader po fl sz\<rparr>) \<and>
   (length sig = 64 \<and> shred_variant v = Some (Code, resigned) \<and> length rest = 1139 \<and> capacity Code (v AND 0x0F) resigned = Some cap \<and>
      unat index < 32768 \<and> unat fec mod 32 = 0 \<and> unat pos < 32 \<and> unat pos \<le> unat index \<longrightarrow>
    parse (code_wire sig v slot index version fec 32 32 pos rest @ nonce) =
      Inr \<lparr>s_bytes = code_wire sig v slot index version fec 32 32 pos rest, s_kind = Code, s_resigned = resigned,
        s_proof_size = v AND 0x0F, s_slot = slot, s_index = index, s_version = version, s_fec_set_index = fec,
        s_capacity = cap, s_header = CodeHeader pos\<rparr>)"
proof (intro conjI impI; elim conjE)
  assume "length sig = 64" "shred_variant v = Some (Data, resigned)" "length rest = 1115" "capacity Data (v AND 0x0F) resigned = Some cap"
    "unat index < 32768" "unat fec mod 32 = 0" "fec \<le> index" "unat index < unat fec + 32" "po = 0 \<longrightarrow> slot = 0" "unat po \<le> unat slot"
    "fl AND 0x80 \<noteq> 0 \<longrightarrow> fl AND FLAG_DATA_COMPLETE \<noteq> 0" "fl AND FLAG_LAST_IN_SLOT = FLAG_LAST_IN_SLOT \<longrightarrow> unat index mod 32 = 31"
    "88 \<le> unat sz" "unat sz \<le> 88 + cap"
  then show "parse (data_wire sig v slot index version fec po fl sz rest @ nonce) =
      Inr \<lparr>s_bytes = data_wire sig v slot index version fec po fl sz rest, s_kind = Data, s_resigned = resigned,
        s_proof_size = v AND 0x0F, s_slot = slot, s_index = index, s_version = version, s_fec_set_index = fec,
        s_capacity = cap, s_header = DataHeader po fl sz\<rparr>"
    by (intro parse_data_layout) simp_all
qed (rule parse_code_layout; simp)

text \<open>
  C25. The accessors of a parsed data shred never panic and tile its bytes: leader signature,
  erasure shard (which starts right after the signature and holds all headers), chained Merkle
  root, Merkle proof and, on resigned variants, the retransmitter signature, in this order and with
  nothing left over.
\<close>

theorem data_shred_tiles:
  assumes "parse packet = Inr s" and "s_kind s = Data"
  shows "\<exists>sig shard root prf rsig.
    signature s = Inr sig \<and> erasure_shard s = Inr shard \<and> chained_merkle_root s = Inr root \<and>
    merkle_proof s = Inr prf \<and> retransmitter_signature s = Inr rsig \<and>
    length sig = 64 \<and> length root = 32 \<and> length prf = 20 * unat (s_proof_size s) \<and>
    s_bytes s = sig @ shard @ root @ prf @ (case rsig of None \<Rightarrow> [] | Some r \<Rightarrow> r)"
proof -
  have ok: "shred_ok s" by (rule parse_shred_ok [OF assms(1)])
  note lay = shred_ok_layout [OF ok]
  show ?thesis
    using shred_ok_tiles [OF ok] lay assms(2)
    by (simp add: shred_ok_accessors [OF ok] headers_size_def wire_size_def split: if_splits)
qed

theorem data_shred_tiles_witness:
  "\<exists>s. parse sample_data_packet = Inr s \<and>
    (\<exists>sig shard root prf rsig.
      signature s = Inr sig \<and> erasure_shard s = Inr shard \<and> chained_merkle_root s = Inr root \<and>
      merkle_proof s = Inr prf \<and> retransmitter_signature s = Inr rsig \<and>
      length sig = 64 \<and> length root = 32 \<and> length prf = 20 * unat (s_proof_size s) \<and>
      s_bytes s = sig @ shard @ root @ prf @ (case rsig of None \<Rightarrow> [] | Some r \<Rightarrow> r))"
proof -
  obtain s where s: "parse sample_data_packet = Inr s" "s_kind s = Data"
    using parse_sample_data [of "[]"] by simp
  with data_shred_tiles [OF s] show ?thesis by blast
qed

text \<open>
  The erasure shards of two parsed shreds, data or code, have the same length exactly when
  their variants carry the same number of proof entries and agree on being resigned, which is what
  Reed-Solomon needs of the shards of one set.
\<close>

lemma shard_length_iff_same_variant:
  assumes "parse p = Inr a" and "parse q = Inr b"
    and "erasure_shard a = Inr x" and "erasure_shard b = Inr y"
  shows "length x = length y \<longleftrightarrow> s_proof_size a = s_proof_size b \<and> s_resigned a = s_resigned b"
proof -
  have ok: "shred_ok a" "shred_ok b" using assms parse_shred_ok by blast+
  have "unat (s_proof_size a) < 16" "unat (s_proof_size b) < 16" using ok by (auto simp: shred_ok_def)
  then show ?thesis
    using erasure_shard_length [OF ok(1) assms(3)] erasure_shard_length [OF ok(2) assms(4)]
      shard_sizes_differ
    by (simp only: word_unat_eq_iff)
qed

end
