(* ===== verification/Fec.thy ===== *)
theory Fec
  imports Shred
begin

text \<open>
  One FEC set (\<open>src/fec.rs\<close>): admission of shreds against the set's Merkle root and leader
  signature, and Reed-Solomon recovery of the missing data shreds. The Reed-Solomon coder
  (\<open>reed_solomon_erasure::ReedSolomon::reconstruct_data\<close>) and SHA-256 are parameters. A method that
  mutates the set before it returns an error gives the mutated set back with the error.
\<close>

section \<open>Definitions\<close>

datatype reject = BadProof | MerkleRootMismatch | SignatureMismatch

datatype insert_result = New | Duplicate | Unneeded | Rejected reject

datatype 'r recover_error = ReedSolomonError 'r | InvalidShred shred_error | WrongHeaders u32

type_synonym 'r reconstructor = "(bytes \<times> bool) list \<Rightarrow> 'r + (bytes \<times> bool) list"

record fec_set =
  f_data :: "shred option list"
  f_code :: "shred option list"
  f_num_data :: nat
  f_num_code :: nat
  f_root :: "hash32 option"
  f_signature :: bytes

definition fec_default :: fec_set where
  "fec_default = \<lparr>f_data = replicate DATA_SHREDS_PER_FEC_SET None,
     f_code = replicate CODE_SHREDS_PER_FEC_SET None, f_num_data = 0, f_num_code = 0,
     f_root = None, f_signature = replicate SIGNATURE_SIZE 0\<rparr>"

definition is_complete :: "fec_set \<Rightarrow> bool" where
  "is_complete self \<longleftrightarrow> f_num_data self = DATA_SHREDS_PER_FEC_SET"

definition can_recover :: "fec_set \<Rightarrow> bool" where
  "can_recover self \<longleftrightarrow> \<not> is_complete self \<and> f_num_code self > 0
     \<and> f_num_data self + f_num_code self \<ge> DATA_SHREDS_PER_FEC_SET"

definition drop_code :: "fec_set \<Rightarrow> fec_set" where
  "drop_code self = self\<lparr>f_code := replicate CODE_SHREDS_PER_FEC_SET None, f_num_code := 0\<rparr>"

text \<open>\<open>usize\<close> subtraction: below zero is an overflow panic, or an index far out of range.\<close>

definition usize_sub :: "nat \<Rightarrow> nat \<Rightarrow> ('e, nat) outcome" where
  "usize_sub a b = (if b \<le> a then Inr (a - b) else Inl (Panic ArithmeticOverflow))"

definition fec_get :: "fec_set \<Rightarrow> shred \<Rightarrow> ('e, shred option) outcome" where
  "fec_get self shred =
     (let position = erasure_shard_index shred in
      case s_kind shred of
        Data \<Rightarrow> index_at (f_data self) position
      | Code \<Rightarrow> bind_out (usize_sub position DATA_SHREDS_PER_FEC_SET) (index_at (f_code self)))"

definition fec_data :: "fec_set \<Rightarrow> nat \<Rightarrow> ('e, shred option) outcome" where
  "fec_data self position = index_at (f_data self) position"

text \<open>The root and signature match of \<open>FecSet::insert\<close>: the set to go on with, or the rejection.\<close>

definition fec_admit :: "fec_set \<Rightarrow> hash32 \<Rightarrow> bytes \<Rightarrow> ('e, reject + fec_set) outcome" where
  "fec_admit self root sig = (case f_root self of
     None \<Rightarrow> bind_out (copy_slice (f_signature self) 0 (length (f_signature self)) sig) (\<lambda>sg.
       Inr (Inr (self\<lparr>f_root := Some root, f_signature := sg\<rparr>)))
   | Some known \<Rightarrow>
       if known \<noteq> root then Inr (Inl MerkleRootMismatch)
       else if f_signature self \<noteq> sig then Inr (Inl SignatureMismatch)
       else Inr (Inr self))"

definition fec_place :: "fec_set \<Rightarrow> shred \<Rightarrow> ('e, fec_set) outcome" where
  "fec_place self shred =
     (let position = erasure_shard_index shred in
      case s_kind shred of
        Data \<Rightarrow> bind_out (store_at (f_data self) position (Some shred)) (\<lambda>d.
          Inr (self\<lparr>f_data := d, f_num_data := f_num_data self + 1\<rparr>))
      | Code \<Rightarrow> bind_out (usize_sub position DATA_SHREDS_PER_FEC_SET) (\<lambda>p.
          bind_out (store_at (f_code self) p (Some shred)) (\<lambda>c.
          Inr (self\<lparr>f_code := c, f_num_code := f_num_code self + 1\<rparr>))))"

definition fec_insert :: "hasher \<Rightarrow> fec_set \<Rightarrow> shred \<Rightarrow> ('e, fec_set \<times> insert_result) outcome" where
  "fec_insert hashv self shred =
     (if s_kind shred = Code \<and> is_complete self then Inr (self, Unneeded)
      else bind_out (fec_get self shred) (\<lambda>present.
      if present \<noteq> None then Inr (self, Duplicate)
      else bind_out (merkle_root hashv shred) (\<lambda>root.
      case root of
        None \<Rightarrow> Inr (self, Rejected BadProof)
      | Some root \<Rightarrow>
        bind_out (signature shred) (\<lambda>sig.
        bind_out (fec_admit self root sig) (\<lambda>admitted.
        case admitted of
          Inl why \<Rightarrow> Inr (self, Rejected why)
        | Inr self1 \<Rightarrow>
          bind_out (fec_place self1 shred) (\<lambda>self2.
          Inr (if is_complete self2 then drop_code self2 else self2, New)))))))"

definition any_shred :: "fec_set \<Rightarrow> ('e, shred) outcome" where
  "any_shred self = (case List.map_filter id (f_code self @ f_data self) of
     [] \<Rightarrow> Inl (Panic UnwrapNone) | s # _ \<Rightarrow> Inr s)"

text \<open>The buffer of a recovered shred: signature, shard, chained root, zero proof, retransmitter signature.\<close>

definition rebuild_bytes :: "bytes \<Rightarrow> bytes \<Rightarrow> bytes \<Rightarrow> bytes option \<Rightarrow> ('e, bytes) outcome" where
  "rebuild_bytes sig shard chained_root rsig =
     bind_out (copy_slice (replicate DATA_SHRED_SIZE 0) 0 SIGNATURE_SIZE sig) (\<lambda>b1.
     bind_out (copy_slice b1 SIGNATURE_SIZE (SIGNATURE_SIZE + length shard) shard) (\<lambda>b2.
     bind_out (copy_slice b2 (SIGNATURE_SIZE + length shard)
       (SIGNATURE_SIZE + length shard + length chained_root) chained_root) (\<lambda>b3.
     case rsig of
       None \<Rightarrow> Inr b3
     | Some sg \<Rightarrow> copy_slice b3 (length b3 - SIGNATURE_SIZE) (length b3) sg)))"

record recover_template =
  tm_chained_root :: bytes
  tm_retransmitter_signature :: "bytes option"
  tm_slot :: u64
  tm_fec_set_index :: u32
  tm_version :: u16

text \<open>The \<open>for\<close> loop of \<open>FecSet::recover\<close> over the data shards from \<open>position\<close> on.\<close>

fun recover_loop :: "recover_template \<Rightarrow> nat \<Rightarrow> (bytes \<times> bool) list \<Rightarrow> fec_set \<Rightarrow> u32 list \<Rightarrow>
    ('e, fec_set \<times> ('r recover_error + u32 list)) outcome" where
  "recover_loop tm position [] self recovered = Inr (self, Inr recovered)"
| "recover_loop tm position ((shard, present) # shards) self recovered =
     (if present then recover_loop tm (position + 1) shards self recovered
      else bind_out (rebuild_bytes (f_signature self) shard (tm_chained_root tm)
             (tm_retransmitter_signature tm)) (\<lambda>bytes.
      case parse bytes of
        Inl (Panic p) \<Rightarrow> Inl (Panic p)
      | Inl (Err e) \<Rightarrow> Inr (self, Inl (InvalidShred e))
      | Inr shred \<Rightarrow>
        let index = tm_fec_set_index tm + word_of_nat position in
        if s_kind shred \<noteq> Data \<or> s_slot shred \<noteq> tm_slot tm \<or> s_index shred \<noteq> index
           \<or> s_fec_set_index shred \<noteq> tm_fec_set_index tm \<or> s_version shred \<noteq> tm_version tm
        then Inr (self, Inl (WrongHeaders index))
        else bind_out (store_at (f_data self) position (Some shred)) (\<lambda>d.
          recover_loop tm (position + 1) shards
            (self\<lparr>f_data := d, f_num_data := f_num_data self + 1\<rparr>) (recovered @ [index]))))"

definition collect_shards :: "fec_set \<Rightarrow> nat \<Rightarrow> ('e, (bytes \<times> bool) list) outcome" where
  "collect_shards self shard_len =
     map_out (\<lambda>shred. case shred of
         Some s \<Rightarrow> bind_out (erasure_shard s) (\<lambda>b. Inr (b, True))
       | None \<Rightarrow> Inr (replicate shard_len 0, False)) (f_data self @ f_code self)"

definition fec_recover :: "'r reconstructor \<Rightarrow> fec_set \<Rightarrow>
    ('e, fec_set \<times> ('r recover_error + u32 list)) outcome" where
  "fec_recover rs self =
     bind_out (any_shred self) (\<lambda>template.
     bind_out (erasure_shard template) (\<lambda>template_shard.
     bind_out (chained_merkle_root template) (\<lambda>chained_root.
     bind_out (retransmitter_signature template) (\<lambda>rsig.
     bind_out (collect_shards self (length template_shard)) (\<lambda>shards.
     case rs shards of
       Inl e \<Rightarrow> Inr (self, Inl (ReedSolomonError e))
     | Inr shards' \<Rightarrow>
       bind_out (recover_loop
           \<lparr>tm_chained_root = chained_root, tm_retransmitter_signature = rsig,
            tm_slot = s_slot template, tm_fec_set_index = s_fec_set_index template,
            tm_version = s_version template\<rparr>
           0 (take DATA_SHREDS_PER_FEC_SET shards') self []) (\<lambda>(self', result).
         case result of
           Inl e \<Rightarrow> Inr (self', Inl e)
         | Inr recovered \<Rightarrow> Inr (drop_code self', Inr recovered)))))))"


section \<open>Invariant and contracts\<close>

definition count_some :: "'a option list \<Rightarrow> nat" where
  "count_some xs = length (filter (\<lambda>x. x \<noteq> None) xs)"

text \<open>A shred stored at position \<open>p\<close> of the data (code) array of the set \<open>fec\<close>.\<close>

definition data_at :: "u32 \<Rightarrow> nat \<Rightarrow> shred \<Rightarrow> bool" where
  "data_at fec p s \<longleftrightarrow> shred_ok s \<and> s_kind s = Data \<and> s_fec_set_index s = fec
     \<and> unat (s_index s) = unat fec + p"

definition code_at :: "u32 \<Rightarrow> nat \<Rightarrow> shred \<Rightarrow> bool" where
  "code_at fec p s \<longleftrightarrow> shred_ok s \<and> s_kind s = Code \<and> s_fec_set_index s = fec
     \<and> erasure_shard_index s = 32 + p"

definition all_at :: "(nat \<Rightarrow> shred \<Rightarrow> bool) \<Rightarrow> shred option list \<Rightarrow> bool" where
  "all_at P xs \<longleftrightarrow> (\<forall>p < length xs. case xs ! p of None \<Rightarrow> True | Some s \<Rightarrow> P p s)"

text \<open>The arrays have their fixed lengths, the counters count, stored shreds sit where they belong.\<close>

definition fec_arrays_ok :: "u32 \<Rightarrow> fec_set \<Rightarrow> bool" where
  "fec_arrays_ok fec self \<longleftrightarrow>
     length (f_data self) = 32 \<and> length (f_code self) = 32 \<and> length (f_signature self) = 64
     \<and> f_num_data self = count_some (f_data self) \<and> f_num_code self = count_some (f_code self)
     \<and> all_at (data_at fec) (f_data self) \<and> all_at (code_at fec) (f_code self)"

definition fec_ok :: "u32 \<Rightarrow> fec_set \<Rightarrow> bool" where
  "fec_ok fec self \<longleftrightarrow> fec_arrays_ok fec self \<and> (is_complete self \<longrightarrow> f_num_code self = 0)"

text \<open>
  What the code relies on from \<open>reconstruct_data\<close>: it works in place, so the result has the same
  shards with the same lengths, and it leaves the presence flags of the caller alone.
\<close>

definition rs_in_place :: "'r reconstructor \<Rightarrow> bool" where
  "rs_in_place rs \<longleftrightarrow> (\<forall>shards out. rs shards = Inr out \<longrightarrow>
     map snd out = map snd shards \<and> map (length \<circ> fst) out = map (length \<circ> fst) shards)"

section \<open>Counting\<close>

lemma count_some_card: "count_some xs = card {i. i < length xs \<and> xs ! i \<noteq> None}"
  by (simp add: count_some_def length_filter_conv_card)

lemma count_some_update [simp]:
  assumes "p < length xs" and "xs ! p = None"
  shows "count_some (xs[p := Some v]) = Suc (count_some xs)"
proof -
  have "{i. i < length (xs[p := Some v]) \<and> xs[p := Some v] ! i \<noteq> None} =
      insert p {i. i < length xs \<and> xs ! i \<noteq> None}"
    using assms by (auto simp: nth_list_update)
  with assms(2) show ?thesis by (simp add: count_some_card del: not_None_eq)
qed

lemma count_some_replicate [simp]: "count_some (replicate n None) = 0"
  by (simp add: count_some_def)

lemma count_some_full: "count_some xs = length xs \<longleftrightarrow> (\<forall>p < length xs. xs ! p \<noteq> None)"
proof -
  have "length (filter P xs) = length xs \<longleftrightarrow> (\<forall>x\<in>set xs. P x)" for P :: "'a option \<Rightarrow> bool"
  proof (induction xs)
    case (Cons x xs)
    have "length (filter P xs) \<noteq> Suc (length xs)" using length_filter_le [of P xs] by linarith
    with Cons show ?case by simp
  qed simp
  then show ?thesis by (simp add: count_some_def all_set_conv_all_nth)
qed

lemma count_some_le: "count_some xs \<le> length xs"
  by (simp add: count_some_def)

lemma count_some_pos: "0 < count_some xs \<longleftrightarrow> (\<exists>s. Some s \<in> set xs)"
  by (auto simp: count_some_def filter_empty_conv)

lemma all_at_update:
  "all_at P xs \<Longrightarrow> P p s \<Longrightarrow> all_at P (xs[p := Some s])"
  unfolding all_at_def
proof (intro allI impI)
  fix q
  assume "\<forall>p<length xs. case xs ! p of None \<Rightarrow> True | Some s \<Rightarrow> P p s" and "P p s"
    and "q < length (xs[p := Some s])"
  then show "case xs[p := Some s] ! q of None \<Rightarrow> True | Some s \<Rightarrow> P q s"
    by (cases "q = p") simp_all
qed

lemma all_at_replicate [simp]: "all_at P (replicate n None)"
  by (simp add: all_at_def)

lemma all_atD: "all_at P xs \<Longrightarrow> p < length xs \<Longrightarrow> xs ! p = Some s \<Longrightarrow> P p s"
  by (auto simp: all_at_def split: option.splits)

lemma all_at_setD: "all_at P xs \<Longrightarrow> Some s \<in> set xs \<Longrightarrow> \<exists>p < length xs. P p s"
  by (metis all_atD in_set_conv_nth)

lemma fec_ok_default: "fec_ok fec fec_default"
  by (simp add: fec_ok_def fec_arrays_ok_def fec_default_def is_complete_def)

lemma is_complete_iff:
  "fec_arrays_ok fec self \<Longrightarrow> is_complete self \<longleftrightarrow> (\<forall>p < 32. f_data self ! p \<noteq> None)"
  using count_some_full [of "f_data self"] by (simp add: is_complete_def fec_arrays_ok_def)

lemma fec_ok_drop_code: "fec_arrays_ok fec self \<Longrightarrow> fec_ok fec (drop_code self)"
  by (simp add: fec_ok_def fec_arrays_ok_def drop_code_def)

section \<open>Insertion\<close>

lemma shred_position:
  assumes "shred_ok x" and "s_fec_set_index x = fec"
  shows "s_kind x = Data \<Longrightarrow> erasure_shard_index x < 32 \<and> data_at fec (erasure_shard_index x) x"
    and "s_kind x = Code \<Longrightarrow> 32 \<le> erasure_shard_index x \<and> erasure_shard_index x - 32 < 32 \<and>
           code_at fec (erasure_shard_index x - 32) x"
proof -
  have "s_kind x = Data \<Longrightarrow> unat (s_index x) = unat fec + erasure_shard_index x"
    using assms shred_ok_shard_index(2) [OF assms(1)]
    by (auto simp: shred_ok_def header_ok_def word_le_nat_alt split: header.splits)
  then show "s_kind x = Data \<Longrightarrow> erasure_shard_index x < 32 \<and> data_at fec (erasure_shard_index x) x"
    using assms shred_ok_shard_index(3) [OF assms(1)] by (simp add: data_at_def)
  show "s_kind x = Code \<Longrightarrow> 32 \<le> erasure_shard_index x \<and> erasure_shard_index x - 32 < 32 \<and>
      code_at fec (erasure_shard_index x - 32) x"
    using assms shred_ok_shard_index [OF assms(1)] by (auto simp: code_at_def)
qed

text \<open>The array slot a shred belongs to.\<close>

definition slot_of :: "fec_set \<Rightarrow> shred \<Rightarrow> shred option" where
  "slot_of self x = (case s_kind x of
     Data \<Rightarrow> f_data self ! erasure_shard_index x
   | Code \<Rightarrow> f_code self ! (erasure_shard_index x - 32))"

definition with_shred :: "fec_set \<Rightarrow> shred \<Rightarrow> fec_set" where
  "with_shred self x = (case s_kind x of
     Data \<Rightarrow> self\<lparr>f_data := (f_data self)[erasure_shard_index x := Some x],
                  f_num_data := f_num_data self + 1\<rparr>
   | Code \<Rightarrow> self\<lparr>f_code := (f_code self)[erasure_shard_index x - 32 := Some x],
                  f_num_code := f_num_code self + 1\<rparr>)"

lemma with_shred_stored:
  assumes "Some s \<in> set (f_data (with_shred self x) @ f_code (with_shred self x))"
  shows "Some s \<in> set (f_data self @ f_code self) \<or> s = x"
  using assms set_update_subset_insert [of "f_data self" "erasure_shard_index x" "Some x"]
    set_update_subset_insert [of "f_code self" "erasure_shard_index x - 32" "Some x"]
  by (cases "s_kind x") (auto simp: with_shred_def)

lemma fec_get_Inr:
  assumes "fec_arrays_ok fec self" and "shred_ok x" and "s_fec_set_index x = fec"
  shows "fec_get self x = Inr (slot_of self x)"
  using assms(1) shred_position [OF assms(2,3)]
  by (cases "s_kind x") (simp_all add: fec_get_def slot_of_def usize_sub_def fec_arrays_ok_def)

lemma fec_place_Inr:
  assumes "fec_arrays_ok fec self" and "shred_ok x" and "s_fec_set_index x = fec"
  shows "fec_place self x = Inr (with_shred self x)"
  using assms(1) shred_position [OF assms(2,3)]
  by (cases "s_kind x") (simp_all add: fec_place_def with_shred_def usize_sub_def fec_arrays_ok_def Let_def)

lemma fec_arrays_with_shred:
  assumes "fec_arrays_ok fec self" and "shred_ok x" and "s_fec_set_index x = fec"
    and "slot_of self x = None"
  shows "fec_arrays_ok fec (with_shred self x)"
  using assms(1,4) shred_position [OF assms(2,3)]
  by (cases "s_kind x") (auto simp: fec_arrays_ok_def with_shred_def slot_of_def intro: all_at_update)

text \<open>The verdict of \<open>FecSet::insert\<close> on a valid shred.\<close>

definition insert_verdict :: "hasher \<Rightarrow> fec_set \<Rightarrow> shred \<Rightarrow> insert_result" where
  "insert_verdict hashv self x =
     (if s_kind x = Code \<and> is_complete self then Unneeded
      else if slot_of self x \<noteq> None then Duplicate
      else case shred_root hashv x of
        None \<Rightarrow> Rejected BadProof
      | Some root \<Rightarrow>
          if f_root self \<noteq> None \<and> f_root self \<noteq> Some root then Rejected MerkleRootMismatch
          else if f_root self \<noteq> None \<and> f_signature self \<noteq> take 64 (s_bytes x)
          then Rejected SignatureMismatch
          else New)"

definition pinned :: "hasher \<Rightarrow> fec_set \<Rightarrow> shred \<Rightarrow> fec_set" where
  "pinned hashv self x =
     self\<lparr>f_root := shred_root hashv x, f_signature := take 64 (s_bytes x)\<rparr>"

lemma fec_admit_eq:
  assumes "length (f_signature self) = 64" and "length (take 64 (s_bytes x)) = 64"
    and "shred_root hashv x = Some root"
  shows "fec_admit self root (take 64 (s_bytes x)) =
    Inr (if f_root self \<noteq> None \<and> f_root self \<noteq> Some root then Inl MerkleRootMismatch
         else if f_root self \<noteq> None \<and> f_signature self \<noteq> take 64 (s_bytes x)
         then Inl SignatureMismatch else Inr (pinned hashv self x))"
  using assms by (auto simp: fec_admit_def pinned_def split: option.split)

lemma fec_insert_eq:
  assumes "fec_ok fec self" and "shred_ok x" and "s_fec_set_index x = fec" and "digest32 hashv"
  shows "fec_insert hashv self x =
    (if insert_verdict hashv self x = New
     then let self2 = with_shred (pinned hashv self x) x
          in Inr (if is_complete self2 then drop_code self2 else self2, New)
     else Inr (self, insert_verdict hashv self x))"
proof -
  have arrays: "fec_arrays_ok fec self" using assms(1) by (simp add: fec_ok_def)
  have sig: "length (f_signature self) = 64" "length (take 64 (s_bytes x)) = 64"
    using arrays shred_ok_layout(3) [OF assms(2)] wire_size_cases [of "s_kind x"]
    by (auto simp: fec_arrays_ok_def)
  have pinned: "fec_arrays_ok fec (pinned hashv self x)"
    using arrays sig by (simp add: fec_arrays_ok_def pinned_def)
  show ?thesis
    by (cases "shred_root hashv x")
      (simp_all add: fec_insert_def insert_verdict_def fec_get_Inr [OF arrays assms(2,3)]
        fec_place_Inr [OF pinned assms(2,3)] merkle_root_Inr [OF assms(2,4)]
        shred_ok_accessors(1) [OF assms(2)] fec_admit_eq [OF sig] Let_def)
qed

lemma fec_insert_stored:
  assumes "fec_ok fec self" and "shred_ok x" and "s_fec_set_index x = fec" and "digest32 hashv"
    and "(fec_insert hashv self x :: (unit, _) outcome) = Inr (self', v)"
    and "Some s \<in> set (f_data self' @ f_code self')"
  shows "Some s \<in> set (f_data self @ f_code self) \<or> s = x"
  using assms(5,6) with_shred_stored [of s "pinned hashv self x" x]
  unfolding fec_insert_eq [OF assms(1-4)]
  by (auto simp: Let_def drop_code_def pinned_def split: if_splits)

lemma verdict_New:
  assumes "insert_verdict hashv self x = New"
  shows "slot_of self x = None" and "shred_root hashv x \<noteq> None"
  using assms by (auto simp: insert_verdict_def split: if_splits option.splits)

lemma fec_ok_insert:
  assumes "fec_ok fec self" and "shred_ok x" and "s_fec_set_index x = fec" and "digest32 hashv"
  obtains self' where "fec_insert hashv self x = Inr (self', insert_verdict hashv self x)"
    and "fec_ok fec self'"
    and "insert_verdict hashv self x \<noteq> New \<Longrightarrow> self' = self"
    and "insert_verdict hashv self x = New \<Longrightarrow> s_kind x = Data \<Longrightarrow>
           f_data self ! erasure_shard_index x = None \<and>
           f_data self' = (f_data self)[erasure_shard_index x := Some x]"
    and "insert_verdict hashv self x = New \<Longrightarrow> s_kind x = Code \<Longrightarrow> f_data self' = f_data self"
    and "insert_verdict hashv self x = New \<Longrightarrow>
           f_root self' = shred_root hashv x \<and> f_signature self' = take 64 (s_bytes x)"
proof (cases "insert_verdict hashv self x = New")
  case False
  with that [of self] assms show ?thesis by (simp add: fec_insert_eq)
next
  case True
  let ?p = "pinned hashv self x"
  let ?w = "with_shred ?p x"
  let ?r = "if is_complete ?w then drop_code ?w else ?w"
  have free: "slot_of ?p x = None"
    using verdict_New(1) [OF True] by (cases "s_kind x") (simp_all add: slot_of_def pinned_def)
  have sig: "length (take 64 (s_bytes x)) = 64"
    using shred_ok_layout(3) [OF assms(2)] wire_size_cases [of "s_kind x"] by auto
  then have "fec_arrays_ok fec ?p" using assms(1) by (simp add: fec_ok_def fec_arrays_ok_def pinned_def)
  then have "fec_arrays_ok fec ?w" using assms(2,3) free by (rule fec_arrays_with_shred)
  then have ok: "fec_ok fec ?r" using fec_ok_drop_code by (auto simp: fec_ok_def)
  show ?thesis
  proof (rule that [of ?r])
    show "fec_insert hashv self x = Inr (?r, insert_verdict hashv self x)"
      using True by (simp add: fec_insert_eq [OF assms] Let_def)
    show "fec_ok fec ?r" by (rule ok)
  qed (use True free in \<open>simp_all add: with_shred_def pinned_def drop_code_def slot_of_def split: shred_kind.split\<close>)
qed

section \<open>Rebuilding the bytes of a shred\<close>

lemma copy_slice_zeros:
  assumes "length xs = i" and "length ys = j - i" and "i \<le> j" and "j \<le> i + n"
  shows "copy_slice (xs @ replicate n 0) i j ys = Inr ((xs @ ys) @ replicate (n - (j - i)) 0)"
  using assms by (simp add: copy_slice_def)

definition rebuilt :: "bytes \<Rightarrow> bytes \<Rightarrow> bytes \<Rightarrow> bytes option \<Rightarrow> bytes" where
  "rebuilt sig shard root rsig =
     (let tail = (case rsig of None \<Rightarrow> [] | Some r \<Rightarrow> r)
      in sig @ shard @ root @ replicate (1107 - length shard - length tail) 0 @ tail)"

text \<open>The parts of a rebuilt shred have the sizes the layout expects and leave room for each other.\<close>

definition rebuild_fits :: "bytes \<Rightarrow> bytes \<Rightarrow> bytes \<Rightarrow> bytes option \<Rightarrow> bool" where
  "rebuild_fits sig shard root rsig \<longleftrightarrow>
     length sig = 64 \<and> 24 \<le> length shard \<and> length root = 32
     \<and> (case rsig of None \<Rightarrow> length shard \<le> 1107 | Some r \<Rightarrow> length r = 64 \<and> length shard \<le> 1043)"

lemma rebuild_bytes_Inr:
  assumes "rebuild_fits sig shard root rsig"
  shows "rebuild_bytes sig shard root rsig = Inr (rebuilt sig shard root rsig)"
proof -
  have "copy_slice (replicate 1203 (0::byte)) 0 64 sig = Inr (sig @ replicate 1139 0)"
    using copy_slice_zeros [of "[]" 0 sig 64 1203] assms by (simp add: rebuild_fits_def)
  then show ?thesis
    using assms
    by (auto simp: rebuild_bytes_def rebuild_fits_def rebuilt_def copy_slice_zeros
        copy_slice_zeros [of "_ @ _"] simp del: append_assoc split: option.splits)
qed

lemma rebuilt_header:
  assumes "rebuild_fits sig shard root rsig"
  shows "length (rebuilt sig shard root rsig) = 1203"
    and "sub_list (rebuilt sig shard root rsig) 64 88 = take 24 shard"
  using assms
  by (auto simp: rebuild_fits_def rebuilt_def Let_def sub_list_append1 sub_list_append2
      split: option.splits)

section \<open>The recovery loop\<close>

lemma parse_cases:
  obtains (err) e where "parse b = Inl (Err e)" | (ok) s where "parse b = Inr s"
  using parse_no_panic_aux [of b] by (auto simp: no_panic_def split: sum.splits fault.splits)

lemma aligned_plus:
  assumes "unat (fec::u32) mod 32 = 0" and "p < 32"
  shows "unat (fec + word_of_nat p) = unat fec + p"
proof -
  have "unat fec < 4294967296" using unsigned_less [of fec] by simp
  then have "unat fec + p < 4294967296" using assms by presburger
  moreover have "unat (word_of_nat p :: u32) = p"
    using assms(2) by (simp add: unat_of_nat take_bit_eq_mod)
  ultimately show ?thesis by (simp add: unat_word_ariths)
qed

definition missing_from :: "fec_set \<Rightarrow> nat \<Rightarrow> nat list" where
  "missing_from self p = filter (\<lambda>q. f_data self ! q = None) [p..<32]"

definition template_ok :: "recover_template \<Rightarrow> bool" where
  "template_ok tm \<longleftrightarrow> unat (tm_fec_set_index tm) mod 32 = 0"

text \<open>What the loop leaves behind when it starts at position \<open>p\<close>.\<close>

definition loop_post :: "u32 \<Rightarrow> fec_set \<Rightarrow> nat \<Rightarrow> u32 list \<Rightarrow> fec_set \<Rightarrow> ('r recover_error + u32 list) \<Rightarrow> bool" where
  "loop_post fec self p done self' result \<longleftrightarrow>
     fec_arrays_ok fec self' \<and>
     f_code self' = f_code self \<and> f_root self' = f_root self \<and> f_signature self' = f_signature self \<and>
     (\<forall>q<32. f_data self ! q \<noteq> None \<or> q < p \<longrightarrow> f_data self' ! q = f_data self ! q) \<and>
     (\<forall>indexes. result = Inr indexes \<longrightarrow>
        indexes = done @ map (\<lambda>q. fec + word_of_nat q) (missing_from self p) \<and>
        (\<forall>q. p \<le> q \<and> q < 32 \<longrightarrow> f_data self' ! q \<noteq> None)) \<and>
     (\<forall>e. result = Inl e \<longrightarrow> (\<exists>q<32. f_data self' ! q = None))"

lemma missing_from_Suc:
  "p < 32 \<Longrightarrow> missing_from self p =
     (if f_data self ! p = None then [p] else []) @ missing_from self (Suc p)"
  by (simp add: missing_from_def upt_rec [of p])

lemma missing_from_cong:
  "(\<And>q. p \<le> q \<Longrightarrow> q < 32 \<Longrightarrow> f_data self ! q = f_data self2 ! q) \<Longrightarrow> missing_from self p = missing_from self2 p"
  by (auto simp: missing_from_def intro: filter_cong)

lemma loop_post_present:
  assumes "loop_post fec self (Suc p) done self' result" and "f_data self ! p \<noteq> None" and "p < 32"
  shows "loop_post fec self p done self' result"
proof -
  have "p \<le> q \<longleftrightarrow> q = p \<or> Suc p \<le> q" for q by auto
  with assms show ?thesis
    unfolding loop_post_def missing_from_Suc [OF assms(3)] by (auto simp: less_Suc_eq)
qed

definition fill :: "fec_set \<Rightarrow> nat \<Rightarrow> shred \<Rightarrow> fec_set" where
  "fill self p s = self\<lparr>f_data := (f_data self)[p := Some s], f_num_data := f_num_data self + 1\<rparr>"

lemma fec_arrays_fill:
  assumes "fec_arrays_ok fec self" and "data_at fec p s" and "f_data self ! p = None" and "p < 32"
  shows "fec_arrays_ok fec (fill self p s)"
  using assms by (auto simp: fec_arrays_ok_def fill_def intro: all_at_update)

lemma loop_post_fill:
  assumes "loop_post fec (fill self p s) (Suc p) (done @ [fec + word_of_nat p]) self' result"
    and "f_data self ! p = None" and "p < 32" and "length (f_data self) = 32"
  shows "loop_post fec self p done self' result"
proof -
  have "p \<le> q \<longleftrightarrow> q = p \<or> Suc p \<le> q" for q by auto
  moreover have "missing_from (fill self p s) (Suc p) = missing_from self (Suc p)"
    by (rule missing_from_cong) (simp add: fill_def)
  moreover have "f_data (fill self p s) ! q = (if q = p then Some s else f_data self ! q)" for q
    using assms(3,4) by (simp add: fill_def nth_list_update)
  ultimately show ?thesis
    using assms unfolding loop_post_def missing_from_Suc [OF assms(3)]
    by (auto simp: less_Suc_eq fill_def)
qed

lemma loop_post_stop:
  "fec_arrays_ok fec self \<Longrightarrow> p < 32 \<Longrightarrow> f_data self ! p = None \<Longrightarrow> loop_post fec self p done self (Inl e)"
  by (auto simp: loop_post_def)

lemma recover_loop_post:
  assumes "fec_arrays_ok (tm_fec_set_index tm) self" and "template_ok tm"
    and "p + length shards = 32"
    and "\<forall>i < length shards. snd (shards ! i) \<longleftrightarrow> f_data self ! (p + i) \<noteq> None"
    and "\<forall>i < length shards. \<not> snd (shards ! i) \<longrightarrow> rebuild_fits (f_signature self) (fst (shards ! i)) (tm_chained_root tm)
           (tm_retransmitter_signature tm)"
  shows "\<exists>self' result. recover_loop tm p shards self done = Inr (self', result) \<and>
    loop_post (tm_fec_set_index tm) self p done self' result"
  using assms
proof (induction shards arbitrary: p self "done")
  case Nil
  then show ?case by (auto simp: loop_post_def missing_from_def)
next
  case (Cons sh shards)
  obtain shard present where sh: "sh = (shard, present)" by (cases sh)
  let ?fec = "tm_fec_set_index tm"
  have p: "p < 32" using Cons.prems(3) by simp
  have rest: "\<forall>i < length shards. snd (shards ! i) \<longleftrightarrow> f_data self ! (Suc p + i) \<noteq> None"
    "\<forall>i < length shards. \<not> snd (shards ! i) \<longrightarrow> rebuild_fits (f_signature self) (fst (shards ! i)) (tm_chained_root tm)
           (tm_retransmitter_signature tm)"
    using Cons.prems(4,5) by (simp_all add: All_less_Suc2)
  have len: "Suc p + length shards = 32" using Cons.prems(3) by simp
  have here: "present \<longleftrightarrow> f_data self ! p \<noteq> None" using Cons.prems(4) sh by (simp add: All_less_Suc2)
  show ?case
  proof (cases present)
    case True
    then show ?thesis
      using Cons.IH [OF Cons.prems(1,2) len rest] loop_post_present here p sh by fastforce
  next
    case False
    let ?b = "rebuilt (f_signature self) shard (tm_chained_root tm) (tm_retransmitter_signature tm)"
    have fits: "rebuild_fits (f_signature self) shard (tm_chained_root tm) (tm_retransmitter_signature tm)"
      using Cons.prems(5) sh False by (simp add: All_less_Suc2)
    have none: "f_data self ! p = None" using here False by simp
    note stop = loop_post_stop [OF Cons.prems(1) p none]
    note unf = rebuild_bytes_Inr [OF fits] sh False
    consider (err) e where "parse ?b = Inl (Err e)" | (ok) s where "parse ?b = Inr s"
      by (rule parse_cases)
    then show ?thesis
    proof cases
      case err
      then show ?thesis using stop by (auto simp: unf)
    next
      case ok
      let ?bad = "s_kind s \<noteq> Data \<or> s_slot s \<noteq> tm_slot tm \<or> s_index s \<noteq> ?fec + word_of_nat p
           \<or> s_fec_set_index s \<noteq> ?fec \<or> s_version s \<noteq> tm_version tm"
      show ?thesis
      proof (cases ?bad)
        case True
        then show ?thesis using ok stop by (auto simp: unf Let_def)
      next
        case good: False
        have "data_at ?fec p s"
          using good parse_shred_ok [OF ok] aligned_plus [of ?fec p] p Cons.prems(2)
          by (auto simp: data_at_def template_ok_def)
        moreover have "f_data self ! p = None" by (rule none)
        ultimately have arrays: "fec_arrays_ok ?fec (fill self p s)"
          using fec_arrays_fill Cons.prems(1) p by blast
        have lend: "length (f_data self) = 32" using Cons.prems(1) by (simp add: fec_arrays_ok_def)
        have rest': "\<forall>i < length shards. snd (shards ! i) \<longleftrightarrow> f_data (fill self p s) ! (Suc p + i) \<noteq> None"
          "\<forall>i < length shards. \<not> snd (shards ! i) \<longrightarrow> rebuild_fits (f_signature (fill self p s)) (fst (shards ! i))
             (tm_chained_root tm) (tm_retransmitter_signature tm)"
          using rest by (simp_all add: fill_def)
        note IH = Cons.IH [OF arrays Cons.prems(2) len rest', of "done @ [?fec + word_of_nat p]"]
        have step: "recover_loop tm p (sh # shards) self done =
            recover_loop tm (Suc p) shards (fill self p s) (done @ [?fec + word_of_nat p])"
          using ok good p lend by (simp add: unf Let_def fill_def)
        show ?thesis unfolding step using IH by (auto intro: loop_post_fill [OF _ none p lend])
      qed
    qed
  qed
qed

text \<open>Where a failing loop stops: everything missing before that position is filled, nothing from it on.\<close>

lemma recover_loop_fails:
  assumes "(recover_loop tm p shards self done :: (unit, _) outcome) = Inr (self', Inl e)"
    and "length (f_data self) = 32" and "p + length shards = 32"
    and "\<forall>i < length shards. snd (shards ! i) \<longleftrightarrow> f_data self ! (p + i) \<noteq> None"
  shows "\<exists>m<32. p \<le> m \<and> f_data self ! m = None \<and>
    (e = WrongHeaders (tm_fec_set_index tm + word_of_nat m) \<or> (\<exists>why. e = InvalidShred why)) \<and>
    (\<forall>q<32. f_data self' ! q = None \<longleftrightarrow> f_data self ! q = None \<and> (q < p \<or> m \<le> q))"
  using assms
proof (induction shards arbitrary: p self "done")
  case (Cons sh shards)
  obtain shard present where sh: "sh = (shard, present)" by (cases sh)
  have p: "p < 32" "Suc p + length shards = 32" using Cons.prems(3) by simp_all
  have here: "present \<longleftrightarrow> f_data self ! p \<noteq> None"
    and rest: "\<forall>i < length shards. snd (shards ! i) \<longleftrightarrow> f_data self ! (Suc p + i) \<noteq> None"
    using Cons.prems(4) sh by (simp_all add: All_less_Suc2)
  have lt: "q < Suc p \<longleftrightarrow> q = p \<or> q < p" for q by auto
  show ?case
  proof (cases present)
    case True
    then have "recover_loop tm (Suc p) shards self done = (Inr (self', Inl e) :: (unit, _) outcome)" using Cons.prems(1) sh by simp
    from Cons.IH [OF this Cons.prems(2) p(2) rest] obtain m where m: "m < 32" "Suc p \<le> m" "f_data self ! m = None"
        "e = WrongHeaders (tm_fec_set_index tm + word_of_nat m) \<or> (\<exists>why. e = InvalidShred why)"
        "\<forall>q<32. f_data self' ! q = None \<longleftrightarrow> f_data self ! q = None \<and> (q < Suc p \<or> m \<le> q)" by blast
    then show ?thesis using here True unfolding lt by (intro exI [of _ m]) auto
  next
    case False
    then have none: "f_data self ! p = None" using here by simp
    consider (stop) "self' = self" "e = WrongHeaders (tm_fec_set_index tm + word_of_nat p) \<or> (\<exists>why. e = InvalidShred why)"
      | (go) s ix where "recover_loop tm (Suc p) shards (fill self p s) ix = (Inr (self', Inl e) :: (unit, _) outcome)"
      using Cons.prems(1,2) p(1) False
      by (auto simp: sh Let_def bind_out_def fill_def split: sum.splits fault.splits if_splits)
    then show ?thesis
    proof cases
      case stop
      then show ?thesis using p(1) none by (intro exI [of _ p]) auto
    next
      case go
      have "length (f_data (fill self p s)) = 32" using Cons.prems(2) by (simp add: fill_def)
      moreover have "\<forall>i < length shards. snd (shards ! i) \<longleftrightarrow> f_data (fill self p s) ! (Suc p + i) \<noteq> None"
        using rest by (simp add: fill_def)
      ultimately obtain m where m: "m < 32" "Suc p \<le> m" "f_data (fill self p s) ! m = None"
          "e = WrongHeaders (tm_fec_set_index tm + word_of_nat m) \<or> (\<exists>why. e = InvalidShred why)"
          "\<forall>q<32. f_data self' ! q = None \<longleftrightarrow> f_data (fill self p s) ! q = None \<and> (q < Suc p \<or> m \<le> q)"
        using Cons.IH [OF go _ p(2)] by blast
      moreover have "f_data (fill self p s) ! q = (if q = p then Some s else f_data self ! q)" for q
        using p(1) Cons.prems(2) by (simp add: fill_def nth_list_update)
      ultimately show ?thesis unfolding lt by (intro exI [of _ m]) auto
    qed
  qed
qed simp

section \<open>Recovery\<close>

lemma set_map_filter_id: "set (List.map_filter id xs) = {s. Some s \<in> set xs}"
proof (induction xs)
  case (Cons x xs)
  then show ?case by (cases x) (auto simp: map_filter_simps)
qed (simp add: map_filter_simps)

lemma any_shred_Inr:
  assumes "Some s0 \<in> set (f_code self @ f_data self)"
  shows "\<exists>s. any_shred self = Inr s \<and> Some s \<in> set (f_code self @ f_data self)"
proof -
  let ?l = "List.map_filter id (f_code self @ f_data self)"
  obtain s ss where l: "?l = s # ss"
    using assms set_map_filter_id [of "f_code self @ f_data self"] by (cases ?l) auto
  then have "s \<in> set ?l" by simp
  then show ?thesis
    using l unfolding set_map_filter_id any_shred_def by auto
qed

text \<open>The shard a stored shred contributes, and the vector handed to the Reed-Solomon coder.\<close>

definition shard_of :: "shred \<Rightarrow> bytes" where
  "shard_of s = (case s_kind s of
     Data \<Rightarrow> sub_list (s_bytes s) 64 (88 + s_capacity s)
   | Code \<Rightarrow> sub_list (s_bytes s) 89 (89 + s_capacity s))"

definition shard_vector :: "fec_set \<Rightarrow> nat \<Rightarrow> (bytes \<times> bool) list" where
  "shard_vector self n = map (\<lambda>x. case x of Some s \<Rightarrow> (shard_of s, True) | None \<Rightarrow> (replicate n 0, False))
     (f_data self @ f_code self)"

lemma erasure_shard_Inr: "shred_ok s \<Longrightarrow> erasure_shard s = Inr (shard_of s)"
  by (simp add: shred_ok_accessors(2) shard_of_def)

lemma length_shard_of:
  assumes "shred_ok s"
  shows "length (shard_of s) = 1107 - 20 * unat (s_proof_size s) - (if s_resigned s then 64 else 0)"
    and "24 \<le> length (shard_of s)"
proof -
  show len: "length (shard_of s) = 1107 - 20 * unat (s_proof_size s) - (if s_resigned s then 64 else 0)"
    using erasure_shard_length [OF assms erasure_shard_Inr [OF assms]] .
  show "24 \<le> length (shard_of s)" using assms unfolding len by (auto simp: shred_ok_def)
qed

lemma stored_ok:
  assumes "fec_arrays_ok fec self" and "Some s \<in> set (f_data self @ f_code self)"
  shows "shred_ok s" and "s_fec_set_index s = fec" and "unat fec mod 32 = 0"
proof -
  show ok: "shred_ok s" and idx: "s_fec_set_index s = fec"
    using assms all_at_setD [of "data_at fec" "f_data self" s] all_at_setD [of "code_at fec" "f_code self" s]
    by (auto simp: fec_arrays_ok_def data_at_def code_at_def)
  show "unat fec mod 32 = 0" using ok idx by (simp add: shred_ok_def)
qed

lemma collect_shards_Inr:
  assumes "fec_arrays_ok fec self"
  shows "collect_shards self n = Inr (shard_vector self n)"
  unfolding collect_shards_def shard_vector_def
  by (rule map_out_Inr) (auto simp: erasure_shard_Inr stored_ok(1) [OF assms] split: option.split)

text \<open>What recovery promises its caller.\<close>

definition recover_post :: "u32 \<Rightarrow> fec_set \<Rightarrow> fec_set \<Rightarrow> ('r recover_error + u32 list) \<Rightarrow> bool" where
  "recover_post fec self self' result \<longleftrightarrow>
     fec_ok fec self' \<and> f_root self' = f_root self \<and> f_signature self' = f_signature self \<and>
     (\<forall>q<32. f_data self ! q \<noteq> None \<longrightarrow> f_data self' ! q = f_data self ! q) \<and>
     (case result of
        Inr indexes \<Rightarrow> is_complete self' \<and> indexes = map (\<lambda>q. fec + word_of_nat q) (missing_from self 0)
      | Inl e \<Rightarrow> \<not> is_complete self')"

lemma recover_post_loop:
  assumes "loop_post fec self 0 [] self' result"
  shows "recover_post fec self (case result of Inl e \<Rightarrow> self' | Inr ix \<Rightarrow> drop_code self') result"
proof (cases result)
  case (Inl e)
  with assms is_complete_iff [of fec self'] show ?thesis
    by (auto simp: loop_post_def recover_post_def fec_ok_def)
next
  case (Inr ix)
  have "is_complete self'" using assms Inr is_complete_iff [of fec self'] by (auto simp: loop_post_def)
  with assms Inr fec_ok_drop_code [of fec self'] show ?thesis
    by (auto simp: loop_post_def recover_post_def drop_code_def is_complete_def)
qed

lemma shard_vector_nth:
  assumes "fec_arrays_ok fec self" and "i < 32"
  shows "snd (shard_vector self n ! i) \<longleftrightarrow> f_data self ! i \<noteq> None"
    and "f_data self ! i = None \<Longrightarrow> fst (shard_vector self n ! i) = replicate n 0"
    and "length (shard_vector self n) = 64"
  using assms by (auto simp: shard_vector_def fec_arrays_ok_def nth_append split: option.split)

lemma rs_in_placeD:
  assumes "rs_in_place rs" and "rs shards = Inr out"
  shows "length out = length shards"
    and "i < length shards \<Longrightarrow> snd (out ! i) = snd (shards ! i)"
    and "i < length shards \<Longrightarrow> length (fst (out ! i)) = length (fst (shards ! i))"
proof -
  have eq: "map snd out = map snd shards" "map (length \<circ> fst) out = map (length \<circ> fst) shards"
    using assms by (auto simp: rs_in_place_def)
  show len: "length out = length shards" using arg_cong [OF eq(1), of length] by simp
  show "i < length shards \<Longrightarrow> snd (out ! i) = snd (shards ! i)"
    using arg_cong [OF eq(1), of "\<lambda>l. l ! i"] len by simp
  show "i < length shards \<Longrightarrow> length (fst (out ! i)) = length (fst (shards ! i))"
    using arg_cong [OF eq(2), of "\<lambda>l. l ! i"] len by simp
qed

lemma rebuild_fits_template:
  assumes "shred_ok t" and "length shard = length (shard_of t)" and "length sig = 64"
  shows "rebuild_fits sig shard (sub_list (s_bytes t) (proof_offset t - 32) (proof_offset t))
    (if s_resigned t then Some (sub_list (s_bytes t) (length (s_bytes t) - 64) (length (s_bytes t))) else None)"
  using assms length_shard_of [OF assms(1)] shred_ok_layout [OF assms(1)] wire_size_cases [of "s_kind t"]
  by (auto simp: rebuild_fits_def)

definition template_of :: "shred \<Rightarrow> recover_template" where
  "template_of t = \<lparr>
     tm_chained_root = sub_list (s_bytes t) (proof_offset t - 32) (proof_offset t),
     tm_retransmitter_signature = (if s_resigned t
       then Some (sub_list (s_bytes t) (length (s_bytes t) - 64) (length (s_bytes t))) else None),
     tm_slot = s_slot t, tm_fec_set_index = s_fec_set_index t, tm_version = s_version t\<rparr>"

lemma fec_recover_unfold:
  assumes "fec_arrays_ok fec self" and "any_shred self = Inr t" and "shred_ok t"
  shows "fec_recover rs self = (case rs (shard_vector self (length (shard_of t))) of
       Inl e \<Rightarrow> Inr (self, Inl (ReedSolomonError e))
     | Inr out \<Rightarrow> bind_out (recover_loop (template_of t) 0 (take 32 out) self []) (\<lambda>(self', result).
         Inr (case result of Inl e \<Rightarrow> self' | Inr ix \<Rightarrow> drop_code self', result)))"
  using assms(2)
  by (auto simp: fec_recover_def any_shred_def erasure_shard_Inr [OF assms(3)] shred_ok_accessors [OF assms(3)]
      collect_shards_Inr [OF assms(1)] template_of_def split: list.splits sum.splits
      intro!: arg_cong2 [where f = bind_out])

lemma can_recover_stored:
  assumes "fec_arrays_ok fec self" and "can_recover self"
  shows "\<exists>s. Some s \<in> set (f_code self @ f_data self)"
  using assms count_some_pos [of "f_code self"] by (auto simp: can_recover_def fec_arrays_ok_def)

lemma template_loop:
  assumes "fec_arrays_ok fec self" and "shred_ok t" and "s_fec_set_index t = fec"
    and "rs_in_place rs" and "rs (shard_vector self (length (shard_of t))) = Inr out"
  shows "\<exists>self' result. recover_loop (template_of t) 0 (take 32 out) self [] = Inr (self', result) \<and>
    loop_post fec self 0 [] self' result"
proof -
  note place = rs_in_placeD [OF assms(4,5)]
  note vec = shard_vector_nth [OF assms(1)]
  have len: "length out = 64" using place(1) vec(3) [of 0] by simp
  have flags: "snd (out ! i) \<longleftrightarrow> f_data self ! i \<noteq> None" if "i < 32" for i
    using that place(2) vec by simp
  have fits: "rebuild_fits (f_signature self) (fst (out ! i)) (tm_chained_root (template_of t))
      (tm_retransmitter_signature (template_of t))" if "i < 32" and "\<not> snd (out ! i)" for i
  proof -
    have "length (fst (out ! i)) = length (shard_of t)" using that place(3) vec flags by simp
    then show ?thesis
      using rebuild_fits_template [OF assms(2)] assms(1) by (simp add: template_of_def fec_arrays_ok_def)
  qed
  have fec: "tm_fec_set_index (template_of t) = fec" "template_ok (template_of t)"
    using assms(2,3) by (simp_all add: template_of_def template_ok_def shred_ok_def)
  show ?thesis
    using recover_loop_post [of "template_of t" self 0 "take 32 out" "[]"] assms(1) fec flags fits
    by (simp add: len)
qed

lemma bind_pair_ex:
  assumes "\<exists>a b. r = Inr (a, b) \<and> P a b" and "\<And>a b. P a b \<Longrightarrow> Q (g a b) b"
  shows "\<exists>a b. bind_out r (\<lambda>(a, b). Inr (g a b, b)) = Inr (a, b) \<and> Q a b"
  using assms by auto

lemma fec_recover_post:
  assumes "fec_ok fec self" and "can_recover self" and "rs_in_place rs"
  shows "\<exists>self' result. fec_recover rs self = Inr (self', result) \<and> recover_post fec self self' result"
proof -
  have arrays: "fec_arrays_ok fec self" using assms(1) by (simp add: fec_ok_def)
  obtain t where t: "(any_shred self :: (unit, shred) outcome) = Inr t"
      and "Some t \<in> set (f_code self @ f_data self)"
    using can_recover_stored [OF arrays assms(2)] any_shred_Inr by blast
  then have ok: "shred_ok t" "s_fec_set_index t = fec" using stored_ok [OF arrays] by auto
  note unf = fec_recover_unfold [OF arrays t ok(1)]
  show ?thesis
  proof (cases "rs (shard_vector self (length (shard_of t)))")
    case (Inl e)
    then show ?thesis
      using assms by (auto simp: unf recover_post_def can_recover_def)
  next
    case (Inr out)
    show ?thesis
      unfolding unf Inr sum.case
      by (rule bind_pair_ex, rule template_loop [OF arrays ok assms(3) Inr], rule recover_post_loop)
  qed
qed

section \<open>Recovery of a codeword\<close>

text \<open>
  What is documented of \<open>reconstruct_data\<close>: given the 64 shards of a codeword of the 32:32 code, of
  which at least 32 are present, it succeeds and fills in the missing data shards of that codeword.
\<close>

definition rs_decodes :: "'r reconstructor \<Rightarrow> bytes list \<Rightarrow> bool" where
  "rs_decodes rs cw \<longleftrightarrow> (\<forall>shards.
     length shards = 64 \<and> 32 \<le> length (filter snd shards) \<and>
     (\<forall>i<64. length (fst (shards ! i)) = length (cw ! i) \<and> (snd (shards ! i) \<longrightarrow> fst (shards ! i) = cw ! i))
     \<longrightarrow> (\<exists>out. rs shards = Inr out \<and> (\<forall>i<32. fst (out ! i) = cw ! i)))"

definition header_matches :: "recover_template \<Rightarrow> nat \<Rightarrow> shred \<Rightarrow> bool" where
  "header_matches tm p s \<longleftrightarrow> s_kind s = Data \<and> s_slot s = tm_slot tm
     \<and> s_index s = tm_fec_set_index tm + word_of_nat p
     \<and> s_fec_set_index s = tm_fec_set_index tm \<and> s_version s = tm_version tm"

lemma recover_loop_exact:
  assumes "length (f_data self) = 32" and "p + length shards = 32"
    and "\<forall>i < length shards. snd (shards ! i) \<longleftrightarrow> f_data self ! (p + i) \<noteq> None"
    and "\<forall>i < length shards. \<not> snd (shards ! i) \<longrightarrow>
           rebuild_fits (f_signature self) (fst (shards ! i)) (tm_chained_root tm) (tm_retransmitter_signature tm) \<and>
           parse (rebuilt (f_signature self) (fst (shards ! i)) (tm_chained_root tm) (tm_retransmitter_signature tm))
             = Inr (r (p + i)) \<and> header_matches tm (p + i) (r (p + i))"
  shows "\<exists>self' ix. recover_loop tm p shards self done = Inr (self', Inr ix) \<and>
    (\<forall>q<32. f_data self' ! q = (if p \<le> q \<and> f_data self ! q = None then Some (r q) else f_data self ! q))"
  using assms
proof (induction shards arbitrary: p self "done")
  case Nil
  then show ?case by auto
next
  case (Cons sh shards)
  obtain shard present where sh: "sh = (shard, present)" by (cases sh)
  have p: "p < 32" and len: "Suc p + length shards = 32" using Cons.prems(2) by simp_all
  have here: "present \<longleftrightarrow> f_data self ! p \<noteq> None" using Cons.prems(3) sh by (simp add: All_less_Suc2)
  have le: "p \<le> q \<longleftrightarrow> q = p \<or> Suc p \<le> q" for q by auto
  show ?case
  proof (cases present)
    case True
    have "recover_loop tm p (sh # shards) self done = recover_loop tm (Suc p) shards self done"
      by (simp add: sh True)
    note step = this
    show ?thesis
      unfolding step le
      using Cons.IH [OF Cons.prems(1) len, of "done"] Cons.prems(3,4) here True
      by (simp add: All_less_Suc2) (metis option.distinct(1))
  next
    case False
    then have none: "f_data self ! p = None" using here by simp
    have fits: "rebuild_fits (f_signature self) shard (tm_chained_root tm) (tm_retransmitter_signature tm)"
      and ok: "parse (rebuilt (f_signature self) shard (tm_chained_root tm) (tm_retransmitter_signature tm)) = Inr (r p)"
      and hdr: "header_matches tm p (r p)"
      using Cons.prems(4) sh False by (simp_all add: All_less_Suc2)
    let ?s = "fill self p (r p)" and ?d = "done @ [tm_fec_set_index tm + word_of_nat p]"
    have step: "recover_loop tm p (sh # shards) self done = recover_loop tm (Suc p) shards ?s ?d"
      using ok hdr p Cons.prems(1)
      by (simp add: sh False rebuild_bytes_Inr [OF fits] Let_def fill_def header_matches_def)
    have sd: "f_data ?s ! q = (if q = p then Some (r p) else f_data self ! q)" for q
      using p Cons.prems(1) by (simp add: fill_def nth_list_update)
    have eq: "(if p \<le> q \<and> f_data self ! q = None then Some (r q) else f_data self ! q) =
        (if Suc p \<le> q \<and> f_data ?s ! q = None then Some (r q) else f_data ?s ! q)" for q
      using none by (auto simp: sd le)
    show ?thesis
      unfolding step eq
      by (rule Cons.IH) (use len Cons.prems in \<open>simp_all add: All_less_Suc2 fill_def\<close>)
  qed
qed

lemma parse_rebuilt_original:
  assumes "parse b = Inr s" and "s_kind s = Data" and "rebuild_fits sig (shard_of s) root rsig"
  shows "parse (rebuilt sig (shard_of s) root rsig) = Inr (s\<lparr>s_bytes := rebuilt sig (shard_of s) root rsig\<rparr>)"
proof (rule parse_data_local [OF assms(1,2)])
  show "length (rebuilt sig (shard_of s) root rsig) = 1203" by (rule rebuilt_header(1) [OF assms(3)])
  have "take 24 (shard_of s) = sub_list (s_bytes s) 64 88"
    by (simp add: shard_of_def assms(2) sub_list_def)
  also have "\<dots> = sub_list b 64 88"
    by (simp add: parse_InrD(2) [OF assms(1)] assms(2) wire_size_def)
  finally show "sub_list b 64 88 = sub_list (rebuilt sig (shard_of s) root rsig) 64 88"
    by (simp add: rebuilt_header(2) [OF assms(3)])
qed

lemma rebuilt_shard:
  assumes "rebuild_fits sig shard root rsig" and "j \<le> length shard"
  shows "sub_list (rebuilt sig shard root rsig) (64 + i) (64 + j) = sub_list shard i j"
  using assms by (auto simp: rebuilt_def rebuild_fits_def Let_def sub_list_append1 sub_list_append2)

lemma rebuilt_data:
  assumes "shred_ok s" and "s_kind s = Data" and "rebuild_fits sig (shard_of s) root rsig"
  shows "shred_data (s\<lparr>s_bytes := rebuilt sig (shard_of s) root rsig\<rparr>) = shred_data s"
proof -
  let ?b = "rebuilt sig (shard_of s) root rsig"
  obtain po fl sz where h: "s_header s = DataHeader po fl sz"
    using assms(1,2) by (auto simp: shred_ok_def header_ok_def split: header.splits)
  have sz: "88 \<le> unat sz" "unat sz \<le> 88 + s_capacity s" "88 + s_capacity s + 32 \<le> 1203"
    using assms(1,2) h shred_ok_layout [OF assms(1)]
    by (auto simp: shred_ok_def header_ok_def headers_size_def wire_size_def)
  have len: "length (shard_of s) = 24 + s_capacity s"
    using sz shred_ok_layout(3) [OF assms(1)] by (simp add: shard_of_def assms(2) wire_size_def)
  have "sub_list ?b 88 (unat sz) = sub_list (shard_of s) 24 (unat sz - 64)"
    using rebuilt_shard [OF assms(3), of "unat sz - 64" 24] sz len by simp
  also have "\<dots> = sub_list (s_bytes s) 88 (unat sz)"
    using sub_list_sub_list [of 64 "unat sz - 64" "88 + s_capacity s" "s_bytes s" 24] sz
    by (simp add: shard_of_def assms(2))
  finally show ?thesis
    using sz rebuilt_header(1) [OF assms(3)] shred_ok_layout(3) [OF assms(1)]
    by (simp add: shred_data_def h assms(2) wire_size_def)
qed

text \<open>The entry bytes of a valid data shred, and shreds that differ at most in signature, root and proof.\<close>

definition payload :: "shred \<Rightarrow> bytes" where
  "payload s = (case s_header s of
     DataHeader _ _ sz \<Rightarrow> sub_list (s_bytes s) 88 (unat sz) | CodeHeader _ \<Rightarrow> [])"

lemma shred_data_payload: "shred_ok s \<Longrightarrow> shred_data s = Inr (payload s)"
  by (simp add: shred_ok_data payload_def)

definition same_content :: "shred \<Rightarrow> shred \<Rightarrow> bool" where
  "same_content a b \<longleftrightarrow> s_kind a = s_kind b \<and> s_slot a = s_slot b \<and> s_index a = s_index b
     \<and> s_version a = s_version b \<and> s_fec_set_index a = s_fec_set_index b \<and> s_header a = s_header b
     \<and> payload a = payload b \<and> shard_of a = shard_of b"

lemma rebuilt_same_content:
  assumes "parse b = Inr s" and "s_kind s = Data" and "rebuild_fits sig (shard_of s) root rsig"
  shows "same_content (s\<lparr>s_bytes := rebuilt sig (shard_of s) root rsig\<rparr>) s"
proof -
  let ?r = "s\<lparr>s_bytes := rebuilt sig (shard_of s) root rsig\<rparr>"
  have ok: "shred_ok s" "shred_ok ?r"
    using parse_shred_ok [OF assms(1)] parse_shred_ok [OF parse_rebuilt_original [OF assms]] by auto
  have "(shred_data ?r :: (unit, _) outcome) = shred_data s" by (rule rebuilt_data [OF ok(1) assms(2,3)])
  then have "payload ?r = payload s" by (simp add: shred_data_payload [OF ok(1)] shred_data_payload [OF ok(2)])
  moreover have len: "length (shard_of s) = 24 + s_capacity s"
    using shred_ok_layout [OF ok(1)] by (simp add: shard_of_def assms(2) wire_size_def headers_size_def)
  have "shard_of ?r = shard_of s"
    using rebuilt_shard [OF assms(3), of "24 + s_capacity s" 0] len
    by (simp add: shard_of_def [of ?r] assms(2))
  ultimately show ?thesis by (simp add: same_content_def)
qed

text \<open>
  The leader's view of a set: the 32 data shreds \<open>orig\<close>, all of one slot and version, whose erasure
  shards are the data part of the codeword \<open>cw\<close>; and a receiver that holds some shreds of that set.
\<close>

definition encoded_set :: "u32 \<Rightarrow> u64 \<Rightarrow> u16 \<Rightarrow> nat \<Rightarrow> (nat \<Rightarrow> shred) \<Rightarrow> bytes list \<Rightarrow> bool" where
  "encoded_set fec slot version n orig cw \<longleftrightarrow>
     length cw = 64 \<and> (\<forall>i<64. length (cw ! i) = n) \<and>
     (\<forall>p<32. parse (s_bytes (orig p)) = Inr (orig p) \<and> data_at fec p (orig p) \<and> shard_of (orig p) = cw ! p \<and>
        s_slot (orig p) = slot \<and> s_version (orig p) = version)"

definition holds_part :: "u64 \<Rightarrow> u16 \<Rightarrow> (nat \<Rightarrow> shred) \<Rightarrow> bytes list \<Rightarrow> fec_set \<Rightarrow> bool" where
  "holds_part slot version orig cw self \<longleftrightarrow>
     (\<forall>p<32. \<forall>s. f_data self ! p = Some s \<longrightarrow> same_content s (orig p)) \<and>
     (\<forall>p<32. \<forall>s. f_code self ! p = Some s \<longrightarrow>
        s_slot s = slot \<and> s_version s = version \<and> shard_of s = cw ! (32 + p))"

lemma holds_part_stored:
  assumes "fec_arrays_ok fec self" and "encoded_set fec slot version n orig cw"
    and "holds_part slot version orig cw self" and "Some t \<in> set (f_data self @ f_code self)"
  shows "s_slot t = slot \<and> s_version t = version \<and> length (shard_of t) = n"
proof -
  have lens: "length (f_data self) = 32" "length (f_code self) = 32"
    using assms(1) by (simp_all add: fec_arrays_ok_def)
  consider p where "p < 32" "f_data self ! p = Some t" | p where "p < 32" "f_code self ! p = Some t"
    using assms(4) lens by (auto simp: in_set_conv_nth)
  then show ?thesis
  proof cases
    case 1
    then have "same_content t (orig p)" using assms(3) by (auto simp: holds_part_def)
    moreover have "length (cw ! p) = n" using assms(2) 1(1) by (simp add: encoded_set_def)
    ultimately show ?thesis using assms(2) 1(1) by (auto simp: encoded_set_def same_content_def)
  next
    case 2
    then have "s_slot t = slot \<and> s_version t = version \<and> shard_of t = cw ! (32 + p)"
      using assms(3) by (auto simp: holds_part_def)
    moreover have "length (cw ! (32 + p)) = n" using assms(2) 2(1) by (simp add: encoded_set_def)
    ultimately show ?thesis by simp
  qed
qed

lemma present_count:
  "length (filter snd (shard_vector self n)) = count_some (f_data self) + count_some (f_code self)"
proof -
  have "length (filter snd (map (\<lambda>x. case x of Some s \<Rightarrow> (shard_of s, True) | None \<Rightarrow> (replicate n 0, False)) xs))
      = count_some xs" for xs
    by (induction xs) (auto simp: count_some_def split: option.split)
  then show ?thesis by (simp add: shard_vector_def)
qed

lemma codeword_shards:
  assumes "fec_arrays_ok fec self" and "encoded_set fec slot version n orig cw"
    and "holds_part slot version orig cw self" and "i < 64"
  shows "length (fst (shard_vector self n ! i)) = length (cw ! i)"
    and "snd (shard_vector self n ! i) \<Longrightarrow> fst (shard_vector self n ! i) = cw ! i"
proof -
  have lens: "length (f_data self) = 32" "length (f_code self) = 32"
    using assms(1) by (simp_all add: fec_arrays_ok_def)
  have cwi: "length (cw ! i) = n" using assms(2,4) by (simp add: encoded_set_def)
  define x where "x = (if i < 32 then f_data self ! i else f_code self ! (i - 32))"
  have nth: "shard_vector self n ! i = (case x of Some s \<Rightarrow> (shard_of s, True) | None \<Rightarrow> (replicate n 0, False))"
    using assms(4) lens by (simp add: shard_vector_def nth_append x_def)
  have val: "shard_of s = cw ! i" if "x = Some s" for s
  proof (cases "i < 32")
    case True
    with that assms(2,3) show ?thesis by (auto simp: x_def encoded_set_def holds_part_def same_content_def)
  next
    case False
    then have "i = 32 + (i - 32)" "i - 32 < 32" using assms(4) by auto
    with that assms(3) False show ?thesis unfolding holds_part_def x_def by metis
  qed
  show "length (fst (shard_vector self n ! i)) = length (cw ! i)"
    unfolding nth using val cwi by (auto split: option.split)
  show "snd (shard_vector self n ! i) \<Longrightarrow> fst (shard_vector self n ! i) = cw ! i"
    unfolding nth using val by (auto split: option.splits)
qed

lemma codeword_original_fits:
  assumes "encoded_set fec slot version n orig cw" and "p < 32" and "shred_ok t"
    and "length (shard_of t) = n" and "length sig = 64"
  shows "rebuild_fits sig (shard_of (orig p)) (tm_chained_root (template_of t))
    (tm_retransmitter_signature (template_of t))"
proof -
  have "length (shard_of (orig p)) = length (shard_of t)"
    using assms(1,2,4) by (simp add: encoded_set_def)
  with rebuild_fits_template [OF assms(3) this assms(5)] show ?thesis by (simp add: template_of_def)
qed

text \<open>The shred that recovery puts at a missing position: the original with its proof zeroed.\<close>

definition restored :: "bytes \<Rightarrow> shred \<Rightarrow> shred \<Rightarrow> shred" where
  "restored sig t s = s\<lparr>s_bytes := rebuilt sig (shard_of s) (tm_chained_root (template_of t))
     (tm_retransmitter_signature (template_of t))\<rparr>"

lemma bind_ok_ex:
  assumes "\<exists>a ix. r = Inr (a, Inr ix) \<and> P a" and "\<And>a. P a \<Longrightarrow> Q (g a)"
  shows "\<exists>a ix. bind_out r (\<lambda>(a, result). Inr (case result of Inl e \<Rightarrow> a | Inr ix \<Rightarrow> g a, result))
    = Inr (a, Inr ix) \<and> Q a"
  using assms by fastforce

lemma ex_mono2:
  "\<exists>a b. P a b \<Longrightarrow> (\<And>a b. P a b \<Longrightarrow> Q a b) \<Longrightarrow> \<exists>a b. Q a b"
  by blast

lemma recover_codeword:
  assumes "fec_ok fec self" and "can_recover self" and "rs_in_place rs" and "rs_decodes rs cw"
    and "encoded_set fec slot version n orig cw" and "holds_part slot version orig cw self"
  shows "\<exists>self' ix. fec_recover rs self = Inr (self', Inr ix) \<and> f_code self' = replicate 32 None \<and>
    (\<exists>t. shred_ok t \<and> length (shard_of t) = n \<and> (\<forall>q<32. f_data self' ! q =
      (if f_data self ! q = None then Some (restored (f_signature self) t (orig q)) else f_data self ! q)))"
proof -
  have arrays: "fec_arrays_ok fec self" using assms(1) by (simp add: fec_ok_def)
  then have lens: "length (f_data self) = 32" "length (f_signature self) = 64"
    by (simp_all add: fec_arrays_ok_def)
  obtain t where t: "(any_shred self :: (unit, shred) outcome) = Inr t"
      and mem: "Some t \<in> set (f_data self @ f_code self)"
    using can_recover_stored [OF arrays assms(2)] any_shred_Inr [of _ self] by auto
  have tok: "shred_ok t" "s_fec_set_index t = fec" "unat fec mod 32 = 0"
    using stored_ok [OF arrays mem] by auto
  have tin: "s_slot t = slot" "s_version t = version" "length (shard_of t) = n"
    using holds_part_stored [OF arrays assms(5,6) mem] by auto
  let ?v = "shard_vector self n"
  have "length ?v = 64 \<and> 32 \<le> length (filter snd ?v)"
    using shard_vector_nth(3) [OF arrays, of 0] present_count [of self n] assms(2) arrays
    by (simp add: can_recover_def fec_arrays_ok_def)
  then obtain out where out: "rs ?v = Inr out" "\<And>i. i < 32 \<Longrightarrow> fst (out ! i) = cw ! i"
    using assms(4) codeword_shards [OF arrays assms(5,6)] unfolding rs_decodes_def by blast
  have orig: "parse (s_bytes (orig p)) = Inr (orig p)" "data_at fec p (orig p)" "shard_of (orig p) = cw ! p"
    "s_slot (orig p) = slot" "s_version (orig p) = version" if "p < 32" for p
    using assms(5) that by (simp_all add: encoded_set_def)
  note place = rs_in_placeD [OF assms(3) out(1)]
  have len: "length out = 64" and flags: "snd (out ! i) \<longleftrightarrow> f_data self ! i \<noteq> None" if "i < 32" for i
    using that place(1,2) shard_vector_nth [OF arrays] by auto
  let ?r = "\<lambda>p. restored (f_signature self) t (orig p)"
  have hdr: "header_matches (template_of t) p (?r p)" if "p < 32" for p
  proof -
    have "s_index (orig p) = fec + word_of_nat p"
      using orig(2) [OF that] aligned_plus [OF tok(3) that] by (simp add: data_at_def word_unat_eq_iff)
    then show ?thesis
      using orig [OF that] tin tok(2)
      by (simp add: header_matches_def restored_def template_of_def data_at_def)
  qed
  have parse: "rebuild_fits (f_signature self) (fst (out ! p)) (tm_chained_root (template_of t))
       (tm_retransmitter_signature (template_of t)) \<and>
     parse (rebuilt (f_signature self) (fst (out ! p)) (tm_chained_root (template_of t))
       (tm_retransmitter_signature (template_of t))) = Inr (?r p)" if "p < 32" for p
    using codeword_original_fits [OF assms(5) that tok(1) tin(3) lens(2)] out(2) [OF that] orig [OF that]
      parse_rebuilt_original [of "s_bytes (orig p)" "orig p"]
    by (simp add: restored_def data_at_def)
  have "\<exists>self' ix. recover_loop (template_of t) 0 (take 32 out) self [] = Inr (self', Inr ix) \<and>
    (\<forall>q<32. f_data self' ! q = (if 0 \<le> q \<and> f_data self ! q = None then Some (?r q) else f_data self ! q))"
    by (rule recover_loop_exact) (use lens len [of 0] flags hdr parse in auto)
  note loop = this
  show ?thesis
    unfolding fec_recover_unfold [OF arrays t tok(1)] tin(3) out(1) sum.case
    by (rule bind_ok_ex, rule loop, rule conjI, simp add: drop_code_def, rule exI [of _ t])
      (simp add: tok(1) tin(3) drop_code_def)
qed

lemma restored_same_content:
  assumes "encoded_set fec slot version n orig cw" and "p < 32" and "shred_ok t"
    and "length (shard_of t) = n" and "length sig = 64"
  shows "same_content (restored sig t (orig p)) (orig p)"
proof -
  have "parse (s_bytes (orig p)) = Inr (orig p)" "s_kind (orig p) = Data"
    using assms(1,2) by (simp_all add: encoded_set_def data_at_def)
  then show ?thesis
    unfolding restored_def using codeword_original_fits [OF assms] by (rule rebuilt_same_content)
qed

text \<open>After recovery from part of an encoded set, all 32 data shreds of the leader are there.\<close>

lemma recover_codeword_content:
  assumes "fec_ok fec self" and "can_recover self" and "rs_in_place rs" and "rs_decodes rs cw"
    and "encoded_set fec slot version n orig cw" and "holds_part slot version orig cw self"
  shows "\<exists>self' ix. fec_recover rs self = Inr (self', Inr ix) \<and> f_code self' = replicate 32 None \<and>
    (\<forall>q<32. \<exists>s. f_data self' ! q = Some s \<and> same_content s (orig q))"
proof -
  have sig: "length (f_signature self) = 64" using assms(1) by (simp add: fec_ok_def fec_arrays_ok_def)
  have content: "\<exists>s. (if d = None then Some (restored (f_signature self) t (orig q)) else d) = Some s \<and> same_content s (orig q)"
    if "q < 32" "d = f_data self ! q" "shred_ok t" "length (shard_of t) = n" for d q t
    using that assms(6) restored_same_content [OF assms(5) that(1,3,4) sig]
    by (cases d) (auto simp: holds_part_def)
  show ?thesis
    by (rule ex_mono2 [OF recover_codeword [OF assms]]) (use content in auto)
qed

section \<open>A concrete set\<close>

definition sample_data_shred :: "nat \<Rightarrow> shred" where
  "sample_data_shred p = \<lparr>
     s_bytes = data_wire (replicate 64 0) 0x96 1000 (32 + word_of_nat p) 0 32 1 0 500 (replicate 1115 0),
     s_kind = Data, s_resigned = False, s_proof_size = 6, s_slot = 1000, s_index = 32 + word_of_nat p,
     s_version = 0, s_fec_set_index = 32, s_capacity = 963, s_header = DataHeader 1 0 500\<rparr>"

definition sample_code_shred :: "nat \<Rightarrow> shred" where
  "sample_code_shred p = \<lparr>
     s_bytes = code_wire (replicate 64 0) 0x66 1000 (32 + word_of_nat p) 0 32 32 32 (word_of_nat p) (replicate 1139 0),
     s_kind = Code, s_resigned = False, s_proof_size = 6, s_slot = 1000, s_index = 32 + word_of_nat p,
     s_version = 0, s_fec_set_index = 32, s_capacity = 987, s_header = CodeHeader (word_of_nat p)\<rparr>"

text \<open>The set 32 of the tests with its first \<open>k\<close> data shreds missing and \<open>k\<close> code shreds received.\<close>

definition sample_set :: "nat \<Rightarrow> fec_set" where
  "sample_set k = \<lparr>f_data = map (\<lambda>p. if p < k then None else Some (sample_data_shred p)) [0..<32],
     f_code = map (\<lambda>p. if p < k then Some (sample_code_shred p) else None) [0..<32],
     f_num_data = 32 - k, f_num_code = k, f_root = Some [], f_signature = replicate 64 0\<rparr>"

lemma sample_index:
  "p < 32 \<Longrightarrow> unat (32 + word_of_nat p :: u32) = 32 + p"
  "p < 32 \<Longrightarrow> unat (word_of_nat p :: u16) = p"
  using aligned_plus [of 32 p] by (simp_all add: unat_of_nat take_bit_eq_mod)

lemma parse_sample_data_shred:
  "p < 32 \<Longrightarrow> parse (s_bytes (sample_data_shred p)) = Inr (sample_data_shred p)"
  unfolding sample_data_shred_def shred.simps
  by (subst parse_data_layout [where resigned = False and cap = 963 and nonce = "[]", simplified])
    (simp_all add: shred_variant_def capacity_def wire_size_def headers_size_def sample_index word_le_nat_alt)

lemma parse_sample_code_shred:
  "p < 32 \<Longrightarrow> parse (s_bytes (sample_code_shred p)) = Inr (sample_code_shred p)"
  unfolding sample_code_shred_def shred.simps
  by (subst parse_code_layout [where resigned = False and cap = 987 and nonce = "[]", simplified])
    (simp_all add: shred_variant_def capacity_def wire_size_def headers_size_def sample_index)

lemma sample_data_at: "p < 32 \<Longrightarrow> data_at 32 p (sample_data_shred p)"
  using parse_shred_ok [OF parse_sample_data_shred]
  by (simp add: data_at_def) (simp add: sample_data_shred_def sample_index)

lemma sample_code_at: "p < 32 \<Longrightarrow> code_at 32 p (sample_code_shred p)"
  using parse_shred_ok [OF parse_sample_code_shred]
  by (simp add: code_at_def) (simp add: sample_code_shred_def erasure_shard_index_def sample_index)

lemma count_some_map: "count_some (map f xs) = length (filter (\<lambda>x. f x \<noteq> None) xs)"
  by (simp add: count_some_def filter_map comp_def)

lemma sample_set_ok:
  assumes "0 < k" and "k \<le> 32"
  shows "fec_ok 32 (sample_set k)" and "can_recover (sample_set k)"
proof -
  have "filter (\<lambda>p. p < k) [0..<32] = [0..<k]" "filter (\<lambda>p. \<not> p < k) [0..<32] = [k..<32]"
    using assms upt_add_eq_append [of 0 k "32 - k"] by (simp_all add: filter_id_conv)
  then have "count_some (f_data (sample_set k)) = 32 - k" "count_some (f_code (sample_set k)) = k"
    by (simp_all add: sample_set_def count_some_map if_distrib cong: filter_cong)
  moreover have "all_at (data_at 32) (f_data (sample_set k))" "all_at (code_at 32) (f_code (sample_set k))"
    using sample_data_at sample_code_at by (simp_all add: sample_set_def all_at_def)
  ultimately show "fec_ok 32 (sample_set k)" "can_recover (sample_set k)"
    using assms by (simp_all add: fec_ok_def fec_arrays_ok_def is_complete_def can_recover_def)
      (simp_all add: sample_set_def)
qed

definition sample_codeword :: "bytes list" where
  "sample_codeword = map (shard_of \<circ> sample_data_shred) [0..<32] @ map (shard_of \<circ> sample_code_shred) [0..<32]"

text \<open>A decoder for one given codeword, in place and refusing shards of other lengths.\<close>

definition codeword_rs :: "bytes list \<Rightarrow> unit reconstructor" where
  "codeword_rs cw shards =
     (if map (length \<circ> fst) shards = map length cw then Inr (map2 (\<lambda>c s. (c, snd s)) cw shards) else Inl ())"

lemma codeword_rs_in_place: "rs_in_place (codeword_rs cw)"
  unfolding rs_in_place_def
proof (intro allI impI)
  fix shards out assume "codeword_rs cw shards = Inr out"
  then have eq: "map (length \<circ> fst) shards = map length cw" and out: "out = map2 (\<lambda>c s. (c, snd s)) cw shards"
    by (auto simp: codeword_rs_def split: if_splits)
  have "length shards = length cw" using arg_cong [OF eq, of length] by simp
  then show "map snd out = map snd shards \<and> map (length \<circ> fst) out = map (length \<circ> fst) shards"
    unfolding eq out by (auto simp: list_eq_iff_nth_eq)
qed

lemma codeword_rs_decodes:
  assumes "length cw = 64"
  shows "rs_decodes (codeword_rs cw) cw"
  unfolding rs_decodes_def
proof (intro allI impI, elim conjE)
  fix shards :: "(bytes \<times> bool) list"
  assume "length shards = 64"
    and all: "\<forall>i<64. length (fst (shards ! i)) = length (cw ! i) \<and> (snd (shards ! i) \<longrightarrow> fst (shards ! i) = cw ! i)"
  moreover from this have "map (length \<circ> fst) shards = map length cw"
    using assms by (simp add: list_eq_iff_nth_eq)
  ultimately show "\<exists>out. codeword_rs cw shards = Inr out \<and> (\<forall>i<32. fst (out ! i) = cw ! i)"
    using assms by (auto simp: codeword_rs_def)
qed

lemma sample_encoded: "encoded_set 32 1000 0 987 sample_data_shred sample_codeword"
proof -
  have "length (shard_of (sample_data_shred p)) = 987" "length (shard_of (sample_code_shred p)) = 987" if "p < 32" for p
    using length_shard_of(1) sample_data_at [OF that] sample_code_at [OF that]
    by (auto simp: data_at_def code_at_def) (simp_all add: sample_data_shred_def sample_code_shred_def)
  then show ?thesis
    using parse_sample_data_shred sample_data_at
    by (auto simp: encoded_set_def sample_codeword_def nth_append)
      (simp_all add: sample_data_shred_def)
qed

lemma sample_holds: "holds_part 1000 0 sample_data_shred sample_codeword (sample_set k)"
  by (auto simp: holds_part_def same_content_def sample_set_def sample_codeword_def nth_append split: if_splits)
    (simp_all add: sample_code_shred_def)

text \<open>A coder that answers with the codeword above but an all-zero second shard.\<close>

definition broken_codeword :: "bytes list" where
  "broken_codeword = sample_codeword[1 := replicate 987 0]"

lemma parse_zero_shard:
  assumes "rebuild_fits sig (replicate 987 0) root rsig"
  shows "parse (rebuilt sig (replicate 987 0) root rsig) = Inl (Err (InvalidVariant 0))"
proof -
  have "rebuilt sig (replicate 987 0) root rsig ! 64 = 0"
    using assms by (simp add: rebuilt_def rebuild_fits_def Let_def nth_append)
  then show ?thesis
    using rebuilt_header(1) [OF assms] by (simp add: parse_def get_at_def shred_variant_def)
qed

lemma list_two: "2 \<le> length xs \<Longrightarrow> \<exists>x y rest. xs = x # y # rest"
  by (auto simp: numeral_2_eq_2 Suc_le_length_iff)

lemma any_shred_sample: "any_shred (sample_set 2) = Inr (sample_code_shred 0)"
  by (simp add: any_shred_def sample_set_def upt_rec [of 0 32] map_filter_simps)

lemma recover_broken:
  "fec_recover (codeword_rs broken_codeword) (sample_set 2) =
     Inr (fill (sample_set 2) 0 (restored (replicate 64 0) (sample_code_shred 0) (sample_data_shred 0)),
          Inl (InvalidShred (InvalidVariant 0)))"
proof -
  let ?self = "sample_set 2" and ?t = "sample_code_shred 0"
  let ?tm = "template_of ?t" and ?v = "shard_vector ?self 987"
  have arrays: "fec_arrays_ok 32 ?self" using sample_set_ok(1) [of 2] by (simp add: fec_ok_def)
  have t: "shred_ok ?t" "s_fec_set_index ?t = 32" using sample_code_at [of 0] by (simp_all add: code_at_def)
  have tl: "length (shard_of ?t) = 987"
    using holds_part_stored [OF arrays sample_encoded sample_holds, of ?t]
    by (simp add: sample_set_def upt_rec [of 0 32])
  have len: "length ?v = 64" "length broken_codeword = 64" "length sample_codeword = 64"
    using shard_vector_nth(3) [OF arrays, of 0] by (simp_all add: broken_codeword_def sample_codeword_def)
  have "length (fst (?v ! i)) = length (broken_codeword ! i)" if "i < 64" for i
    using codeword_shards(1) [OF arrays sample_encoded sample_holds that] sample_encoded that len
    by (cases "i = 1") (auto simp: broken_codeword_def encoded_set_def)
  then have rs: "codeword_rs broken_codeword ?v = Inr (map2 (\<lambda>c s. (c, snd s)) broken_codeword ?v)"
    using len by (auto simp: codeword_rs_def list_eq_iff_nth_eq)
  let ?out = "take 32 (map2 (\<lambda>c s. (c, snd s)) broken_codeword ?v)"
  have "\<not> snd (?v ! 0)" "\<not> snd (?v ! 1)"
    using shard_vector_nth(1) [OF arrays] by (simp_all add: sample_set_def)
  moreover have "broken_codeword ! 0 = shard_of (sample_data_shred 0)" "broken_codeword ! 1 = replicate 987 0"
    using len by (simp_all add: broken_codeword_def) (simp add: sample_codeword_def nth_append)
  ultimately have heads: "?out ! 0 = (shard_of (sample_data_shred 0), False)" "?out ! 1 = (replicate 987 0, False)"
    using len by simp_all
  obtain x y rest where "?out = x # y # rest"
    using list_two [of ?out] len by auto
  with heads have out: "?out = (shard_of (sample_data_shred 0), False) # (replicate 987 0, False) # rest" by simp
  have sig: "f_signature ?self = replicate 64 0" by (simp add: sample_set_def)
  note orig = sample_encoded [unfolded encoded_set_def]
  have fits: "rebuild_fits (replicate 64 0) (shard_of (sample_data_shred 0)) (tm_chained_root ?tm) (tm_retransmitter_signature ?tm)"
    using codeword_original_fits [OF sample_encoded, of 0 ?t "replicate 64 0"] t tl by simp
  have fits0: "rebuild_fits (replicate 64 0) (replicate 987 0) (tm_chained_root ?tm) (tm_retransmitter_signature ?tm)"
    using rebuild_fits_template [OF t(1), of "replicate 987 0" "replicate 64 0"] tl by (simp add: template_of_def)
  have kind: "s_kind (sample_data_shred 0) = Data" by (simp add: sample_data_shred_def)
  have hdr: "header_matches ?tm 0 (restored (replicate 64 0) ?t (sample_data_shred 0))"
    by (simp add: header_matches_def restored_def template_of_def) (simp add: sample_data_shred_def sample_code_shred_def)
  have "length (f_data ?self) = 32" using arrays by (simp add: fec_arrays_ok_def)
  then have loop: "recover_loop ?tm 0 ?out ?self [] =
      Inr (fill ?self 0 (restored (replicate 64 0) ?t (sample_data_shred 0)), Inl (InvalidShred (InvalidVariant 0)))"
    using hdr parse_rebuilt_original [OF parse_sample_data_shred kind fits]
    by (simp add: out sig rebuild_bytes_Inr [OF fits] rebuild_bytes_Inr [OF fits0] parse_zero_shard [OF fits0]
        header_matches_def fill_def restored_def Let_def)
  show ?thesis
    unfolding fec_recover_unfold [OF arrays any_shred_sample t(1)] tl rs sum.case loop by simp
qed

section \<open>Sequences of insertions\<close>

text \<open>A set that only receives shreds, from its creation on.\<close>

definition insert_all :: "hasher \<Rightarrow> shred list \<Rightarrow> fec_set \<Rightarrow> (unit, fec_set) outcome" where
  "insert_all hashv xs self =
     fold_out (\<lambda>x self. bind_out (fec_insert hashv self x) (\<lambda>(self', _). Inr self')) xs self"

definition agrees :: "hasher \<Rightarrow> fec_set \<Rightarrow> shred \<Rightarrow> bool" where
  "agrees hashv self s \<longleftrightarrow> f_root self \<noteq> None \<and> shred_root hashv s = f_root self
     \<and> take 64 (s_bytes s) = f_signature self"

definition all_agree :: "hasher \<Rightarrow> fec_set \<Rightarrow> bool" where
  "all_agree hashv self \<longleftrightarrow> (\<forall>s. Some s \<in> set (f_data self @ f_code self) \<longrightarrow> agrees hashv self s)"

lemma verdict_New_pinned:
  assumes "insert_verdict hashv self x = New" and "agrees hashv self s"
  shows "agrees hashv (pinned hashv self x) s"
  using assms by (auto simp: insert_verdict_def agrees_def pinned_def split: if_splits option.splits)

lemma all_agree_insert:
  assumes "all_agree hashv self" and "insert_verdict hashv self x = New"
  shows "all_agree hashv (with_shred (pinned hashv self x) x)"
proof -
  let ?p = "pinned hashv self x"
  have x: "agrees hashv ?p x" using verdict_New(2) [OF assms(2)] by (simp add: agrees_def pinned_def)
  have old: "agrees hashv ?p s" if "Some s \<in> set (f_data ?p @ f_code ?p)" for s
  proof (rule verdict_New_pinned [OF assms(2)])
    show "agrees hashv self s" using that assms(1) by (auto simp: all_agree_def pinned_def)
  qed
  have "Some s \<in> set (f_data ?p @ f_code ?p) \<or> s = x" if "Some s \<in> set (f_data (with_shred ?p x) @ f_code (with_shred ?p x))" for s
    using that by (rule with_shred_stored)
  moreover have "agrees hashv (with_shred ?p x) s = agrees hashv ?p s" for s
    by (cases "s_kind x") (simp_all add: with_shred_def agrees_def)
  ultimately show ?thesis using x old unfolding all_agree_def by metis
qed

lemma all_agree_drop_code: "all_agree hashv self \<Longrightarrow> all_agree hashv (drop_code self)"
  by (auto simp: all_agree_def drop_code_def agrees_def)

lemma insert_all_ok:
  assumes "\<forall>x\<in>set xs. shred_ok x \<and> s_fec_set_index x = fec" and "digest32 hashv"
    and "fec_ok fec self" and "all_agree hashv self"
  shows "\<exists>self'. insert_all hashv xs self = Inr self' \<and> fec_ok fec self' \<and> all_agree hashv self'"
  using assms(1,3,4)
proof (induction xs arbitrary: self)
  case Nil
  then show ?case by (simp add: insert_all_def)
next
  case (Cons x xs)
  have x: "shred_ok x" "s_fec_set_index x = fec" using Cons.prems(1) by auto
  obtain self1 where ins: "(fec_insert hashv self x :: (unit, _) outcome) = Inr (self1, insert_verdict hashv self x)"
    and ok: "fec_ok fec self1"
    using fec_ok_insert [OF Cons.prems(2) x assms(2)] by metis
  have "all_agree hashv self1"
    using ins Cons.prems(3) all_agree_insert [OF Cons.prems(3)] all_agree_drop_code
    unfolding fec_insert_eq [OF Cons.prems(2) x assms(2)] by (auto simp: Let_def split: if_splits)
  then have "\<exists>self'. insert_all hashv xs self1 = Inr self' \<and> fec_ok fec self' \<and> all_agree hashv self'"
    using Cons.IH [OF _ ok] Cons.prems(1) by simp
  then show ?case by (simp add: insert_all_def ins)
qed

section \<open>Properties\<close>

text \<open>
  C17. \<open>FecSet::insert\<close> of a valid shred of the set never panics, returns exactly the documented
  verdict (unneeded, duplicate, bad proof, root mismatch, signature mismatch, new), keeps the set's
  invariant and leaves the set untouched unless the verdict is \<open>New\<close>. A new shred's root and signature are
  those of the set from then on, and it is stored at its own position, which was free, and counted: a data
  shred among the data shreds, with all code shreds dropped exactly if it completes the set; a code shred
  among the code shreds. Nothing else changes.
\<close>

theorem insert_spec:
  assumes "fec_ok fec self" and "shred_ok x" and "s_fec_set_index x = fec" and "digest32 hashv"
  shows "\<exists>self'. (fec_insert hashv self x :: (unit, _) outcome) = Inr (self', insert_verdict hashv self x) \<and>
    fec_ok fec self' \<and>
    (insert_verdict hashv self x \<noteq> New \<longrightarrow> self' = self) \<and>
    (insert_verdict hashv self x = New \<longrightarrow>
       f_root self' = shred_root hashv x \<and> f_signature self' = take 64 (s_bytes x) \<and>
       (case s_kind x of
          Data \<Rightarrow> f_data self ! erasure_shard_index x = None \<and>
                  f_data self' = (f_data self)[erasure_shard_index x := Some x] \<and> f_num_data self' = f_num_data self + 1 \<and>
                  (if is_complete self' then f_code self' = replicate 32 None \<and> f_num_code self' = 0
                   else f_code self' = f_code self \<and> f_num_code self' = f_num_code self)
        | Code \<Rightarrow> f_code self ! (erasure_shard_index x - 32) = None \<and>
                  f_code self' = (f_code self)[erasure_shard_index x - 32 := Some x] \<and> f_num_code self' = f_num_code self + 1 \<and>
                  f_data self' = f_data self \<and> f_num_data self' = f_num_data self))"
proof -
  let ?v = "insert_verdict hashv self x" and ?w = "with_shred (pinned hashv self x) x"
  obtain self' where ins: "(fec_insert hashv self x :: (unit, _) outcome) = Inr (self', ?v)"
    and ok: "fec_ok fec self'" and same: "?v \<noteq> New \<Longrightarrow> self' = self"
    using fec_ok_insert [OF assms] by metis
  have "self' = (if is_complete ?w then drop_code ?w else ?w)" if "?v = New"
    using ins that unfolding fec_insert_eq [OF assms] by (simp add: Let_def)
  moreover have "slot_of self x = None" "s_kind x = Code \<Longrightarrow> \<not> is_complete self" if "?v = New"
    using that by (auto simp: insert_verdict_def split: if_splits)
  ultimately show ?thesis
    using ins ok same
    by (intro exI [of _ self']; cases "s_kind x")
      (auto simp: slot_of_def with_shred_def pinned_def drop_code_def is_complete_def)
qed

text \<open>The first code shred of a set, then its first data shred, then the same again.\<close>

theorem insert_spec_witness:
  "\<exists>self1 self2. (fec_insert sample_hash fec_default (sample_code_shred 0) :: (unit, _) outcome) = Inr (self1, New) \<and>
      f_code self1 ! 0 = Some (sample_code_shred 0) \<and> f_num_code self1 = 1 \<and>
    (fec_insert sample_hash fec_default (sample_data_shred 0) :: (unit, _) outcome) = Inr (self2, New) \<and>
      f_data self2 ! 0 = Some (sample_data_shred 0) \<and> f_num_data self2 = 1 \<and> f_num_code self2 = 0 \<and>
    (fec_insert sample_hash self2 (sample_data_shred 0) :: (unit, _) outcome) = Inr (self2, Duplicate)"
proof -
  let ?c = "sample_code_shred 0" and ?d = "sample_data_shred 0"
  have c: "shred_ok ?c" "s_fec_set_index ?c = 32" "s_kind ?c = Code" "erasure_shard_index ?c = 32"
    and d: "shred_ok ?d" "s_fec_set_index ?d = 32" "s_kind ?d = Data" "erasure_shard_index ?d = 0"
    using sample_code_at [of 0] sample_data_at [of 0]
    by (auto simp: code_at_def data_at_def) (simp add: erasure_shard_index_def sample_data_shred_def)
  have "s_proof_size ?c = 6" "s_proof_size ?d = 6" by (simp_all add: sample_code_shred_def sample_data_shred_def)
  then have roots: "shred_root sample_hash ?c \<noteq> None" "shred_root sample_hash ?d \<noteq> None"
    using c(4) d(4) by (simp_all add: shred_root_def)
  have new: "insert_verdict sample_hash fec_default ?c = New" "insert_verdict sample_hash fec_default ?d = New"
    using roots c(3,4) d(3,4) by (auto simp: insert_verdict_def fec_default_def is_complete_def slot_of_def)
  obtain self1 where one: "(fec_insert sample_hash fec_default ?c :: (unit, _) outcome) = Inr (self1, New)"
      "f_code self1 = (f_code fec_default)[0 := Some ?c]" "f_num_code self1 = f_num_code fec_default + 1"
    using insert_spec [OF fec_ok_default c(1,2) digest32_sample_hash] new(1) c(3,4) by auto
  obtain self2 where two: "(fec_insert sample_hash fec_default ?d :: (unit, _) outcome) = Inr (self2, New)" "fec_ok 32 self2"
      "f_data self2 = (f_data fec_default)[0 := Some ?d]" "f_num_data self2 = f_num_data fec_default + 1"
      "f_num_code self2 = 0 \<or> f_num_code self2 = f_num_code fec_default"
    using insert_spec [OF fec_ok_default d(1,2) digest32_sample_hash] new(2) d(3,4) by (auto split: if_splits)
  have "insert_verdict sample_hash self2 ?d = Duplicate"
    using two(3) d(3,4) by (simp add: insert_verdict_def slot_of_def fec_default_def)
  then have "(fec_insert sample_hash self2 ?d :: (unit, _) outcome) = Inr (self2, Duplicate)"
    using insert_spec [OF two(2) d(1,2) digest32_sample_hash] by auto
  with one two show ?thesis by (intro exI [of _ self1] exI [of _ self2]) (simp add: fec_default_def)
qed

text \<open>
  C18. Whatever valid shreds of one set arrive, in whatever order, the insertions never panic and the
  set ends up with shreds that all lead to one Merkle root and carry one leader signature, those of
  the set.
\<close>

theorem inserted_shreds_agree:
  assumes "\<forall>x\<in>set xs. shred_ok x \<and> s_fec_set_index x = fec" and "digest32 hashv"
  shows "\<exists>self'. insert_all hashv xs fec_default = Inr self' \<and> fec_ok fec self' \<and>
    (\<forall>s. Some s \<in> set (f_data self' @ f_code self') \<longrightarrow> f_root self' \<noteq> None \<and>
       (merkle_root hashv s :: (unit, _) outcome) = Inr (f_root self') \<and>
       (signature s :: (unit, _) outcome) = Inr (f_signature self'))"
proof -
  have "all_agree hashv fec_default" by (auto simp: all_agree_def fec_default_def)
  from insert_all_ok [OF assms fec_ok_default this] obtain self' where
    self': "insert_all hashv xs fec_default = Inr self'" "fec_ok fec self'" "all_agree hashv self'" by blast
  have "shred_ok s" if "Some s \<in> set (f_data self' @ f_code self')" for s
    using stored_ok(1) that self'(2) by (auto simp: fec_ok_def)
  with self' show ?thesis
    by (intro exI [of _ self'])
      (auto simp: all_agree_def agrees_def merkle_root_Inr [OF _ assms(2)] shred_ok_accessors(1))
qed

theorem inserted_shreds_agree_witness:
  "\<exists>self'. insert_all sample_hash [sample_data_shred 3, sample_code_shred 1] fec_default = Inr self' \<and>
    fec_ok 32 self' \<and>
    (\<forall>s. Some s \<in> set (f_data self' @ f_code self') \<longrightarrow> f_root self' \<noteq> None \<and>
       (merkle_root sample_hash s :: (unit, _) outcome) = Inr (f_root self') \<and>
       (signature s :: (unit, _) outcome) = Inr (f_signature self'))"
proof -
  have "\<forall>x\<in>set [sample_data_shred 3, sample_code_shred 1]. shred_ok x \<and> s_fec_set_index x = 32"
    using sample_data_at [of 3] sample_code_at [of 1] by (simp add: data_at_def code_at_def)
  from inserted_shreds_agree [OF this digest32_sample_hash] show ?thesis .
qed

text \<open>
  C28. \<open>FecSet::recover\<close> on a set that can recover never panics, whatever bytes the coder returns; it
  keeps the invariant and every shred it already had; on \<open>Ok\<close> the set is complete, the code shreds
  are gone and the returned indexes are exactly those that were missing, in order; on \<open>Err\<close> the set
  is still incomplete.
\<close>

theorem recover_total:
  assumes "fec_ok fec self" and "can_recover self" and "rs_in_place rs"
  shows "\<exists>self' result. (fec_recover rs self :: (unit, _) outcome) = Inr (self', result) \<and>
    fec_ok fec self' \<and>
    (\<forall>q<32. f_data self ! q \<noteq> None \<longrightarrow> f_data self' ! q = f_data self ! q) \<and>
    (case result of
       Inr indexes \<Rightarrow> is_complete self' \<and> f_num_code self' = 0 \<and>
         indexes = map (\<lambda>q. fec + word_of_nat q) (filter (\<lambda>q. f_data self ! q = None) [0..<32])
     | Inl e \<Rightarrow> \<not> is_complete self')"
proof -
  obtain self' result where "(fec_recover rs self :: (unit, _) outcome) = Inr (self', result)"
    and "recover_post fec self self' result"
    using fec_recover_post [OF assms] by blast
  then show ?thesis
    by (intro exI [of _ self'] exI [of _ result])
      (auto simp: recover_post_def missing_from_def fec_ok_def split: sum.splits)
qed

theorem recover_total_witness:
  "\<exists>self' result. (fec_recover (codeword_rs sample_codeword) (sample_set 2) :: (unit, _) outcome) = Inr (self', result) \<and>
    fec_ok 32 self' \<and>
    (\<forall>q<32. f_data (sample_set 2) ! q \<noteq> None \<longrightarrow> f_data self' ! q = f_data (sample_set 2) ! q) \<and>
    (case result of
       Inr indexes \<Rightarrow> is_complete self' \<and> f_num_code self' = 0 \<and>
         indexes = map (\<lambda>q. 32 + word_of_nat q) (filter (\<lambda>q. f_data (sample_set 2) ! q = None) [0..<32])
     | Inl e \<Rightarrow> \<not> is_complete self')"
  by (rule recover_total) (simp_all add: sample_set_ok codeword_rs_in_place)

text \<open>
  C10. Recovery gives the leader's data back: when the set holds at least 32 shreds of an encoded set
  and the coder decodes its codeword, recovery succeeds and afterwards every position holds a shred
  with the index, slot, header (flags, parent, size) and entry bytes of the leader's data shred.
\<close>

theorem recover_restores_leader_data:
  assumes "fec_ok fec self" and "can_recover self" and "rs_in_place rs" and "rs_decodes rs cw"
    and "encoded_set fec slot version n orig cw" and "holds_part slot version orig cw self"
  shows "\<exists>self' indexes. (fec_recover rs self :: (unit, _) outcome) = Inr (self', Inr indexes) \<and>
    (\<forall>q<32. \<exists>s. f_data self' ! q = Some s \<and> s_index s = s_index (orig q) \<and> s_slot s = s_slot (orig q) \<and>
       s_header s = s_header (orig q) \<and>
       (shred_data s :: (unit, _) outcome) = shred_data (orig q))"
proof -
  obtain self' ix where rec: "(fec_recover rs self :: (unit, _) outcome) = Inr (self', Inr ix)"
    and dat: "\<forall>q<32. \<exists>s. f_data self' ! q = Some s \<and> same_content s (orig q)"
    using recover_codeword_content [OF assms] by blast
  obtain self2 result where "(fec_recover rs self :: (unit, _) outcome) = Inr (self2, result)"
    and "recover_post fec self self2 result" using fec_recover_post [OF assms(1-3)] by blast
  with rec have "fec_arrays_ok fec self'" by (simp add: recover_post_def fec_ok_def)
  then have ok: "shred_ok s" if "f_data self' ! q = Some s" "q < 32" for s q
    using that all_atD [of "data_at fec" "f_data self'" q s] by (simp add: fec_arrays_ok_def data_at_def)
  have orig: "shred_ok (orig q)" if "q < 32" for q
    using assms(5) that by (simp add: encoded_set_def data_at_def)
  have "\<exists>s. f_data self' ! q = Some s \<and> s_index s = s_index (orig q) \<and> s_slot s = s_slot (orig q) \<and>
       s_header s = s_header (orig q) \<and> (shred_data s :: (unit, _) outcome) = shred_data (orig q)"
    if q: "q < 32" for q
  proof -
    obtain s where s: "f_data self' ! q = Some s" "same_content s (orig q)" using dat q by blast
    then show ?thesis
      using q by (simp add: same_content_def shred_data_payload [OF ok [OF s(1)]] shred_data_payload [OF orig])
  qed
  with rec show ?thesis by blast
qed

theorem recover_restores_leader_data_witness:
  "\<exists>self' indexes. (fec_recover (codeword_rs sample_codeword) (sample_set 2) :: (unit, _) outcome) = Inr (self', Inr indexes) \<and>
    (\<forall>q<32. \<exists>s. f_data self' ! q = Some s \<and> s_index s = s_index (sample_data_shred q) \<and>
       s_slot s = s_slot (sample_data_shred q) \<and> s_header s = s_header (sample_data_shred q) \<and>
       (shred_data s :: (unit, _) outcome) = shred_data (sample_data_shred q))"
proof -
  have "length sample_codeword = 64" by (simp add: sample_codeword_def)
  then show ?thesis
    by (intro recover_restores_leader_data [OF _ _ codeword_rs_in_place codeword_rs_decodes
          sample_encoded sample_holds]) (simp_all add: sample_set_ok)
qed

text \<open>
  C29. A recovery that fails on a rebuilt shred is not rolled back. For any set that can recover and any coder that works in place
  (as many shards back, with their lengths and their marks of presence, whatever their bytes): when
  \<open>recover\<close> returns an error other than the coder's, there is a first position that could not be rebuilt; every missing data shred
  before it is stored in the set all the same, it and the missing ones after it stay missing, the code shreds are kept, and
  from then on the set calls every data shred of an earlier position a duplicate.
\<close>

theorem failed_recovery_keeps_shreds:
  fixes rs :: "'r reconstructor"
  assumes "fec_ok fec self" and "can_recover self" and "rs_in_place rs"
    and "(fec_recover rs self :: (unit, _) outcome) = Inr (self', Inl e)" and "\<forall>r. e \<noteq> ReedSolomonError r"
  shows "\<exists>p<32. f_data self ! p = None \<and> (e = WrongHeaders (fec + word_of_nat p) \<or> (\<exists>why. e = InvalidShred why)) \<and>
    (\<forall>q<32. f_data self' ! q = None \<longleftrightarrow> f_data self ! q = None \<and> p \<le> q) \<and> f_code self' = f_code self \<and>
    (\<forall>x. shred_ok x \<and> s_fec_set_index x = fec \<and> s_kind x = Data \<and> erasure_shard_index x < p \<longrightarrow>
       (fec_insert hashv self' x :: (unit, _) outcome) = Inr (self', Duplicate))"
proof -
  have arrays: "fec_arrays_ok fec self" using assms(1) by (simp add: fec_ok_def)
  obtain t where t: "(any_shred self :: (unit, shred) outcome) = Inr t" and "Some t \<in> set (f_code self @ f_data self)"
    using can_recover_stored [OF arrays assms(2)] any_shred_Inr by blast
  then have ok: "shred_ok t" "s_fec_set_index t = fec" using stored_ok [OF arrays] by auto
  note unf = assms(4) [unfolded fec_recover_unfold [OF arrays t ok(1)]]
  obtain out where out: "rs (shard_vector self (length (shard_of t))) = Inr out"
    using unf assms(5) by (cases "rs (shard_vector self (length (shard_of t)))") auto
  obtain self2 and result :: "'r recover_error + u32 list" where loop: "(recover_loop (template_of t) 0 (take 32 out) self [] :: (unit, _) outcome) = Inr (self2, result)"
      "loop_post fec self 0 [] self2 result"
    using template_loop [OF arrays ok assms(3) out] by blast
  have fail: "self2 = self'" "result = Inl e" using unf out loop(1) by (auto split: sum.splits)
  note vec = shard_vector_nth [OF arrays] and place = rs_in_placeD [OF assms(3) out]
  have len: "length out = 64" "length (f_data self) = 32" using place(1) vec(3) [of 0] arrays by (simp_all add: fec_arrays_ok_def)
  have flags: "\<forall>i<32. snd (out ! i) \<longleftrightarrow> f_data self ! i \<noteq> None" using place(2) vec(1,3) by simp
  obtain p where p: "p < 32" "f_data self ! p = None" "e = WrongHeaders (tm_fec_set_index (template_of t) + word_of_nat p) \<or> (\<exists>why. e = InvalidShred why)"
      "\<forall>q<32. f_data self' ! q = None \<longleftrightarrow> f_data self ! q = None \<and> (q < 0 \<or> p \<le> q)"
    using recover_loop_fails [of "template_of t" 0 "take 32 out" self "[]" self' e] loop(1) fail len flags by auto
  have new: "fec_arrays_ok fec self'" "f_code self' = f_code self" using loop(2) fail by (simp_all add: loop_post_def)
  have "(fec_insert hashv self' x :: (unit, _) outcome) = Inr (self', Duplicate)"
    if "shred_ok x" "s_fec_set_index x = fec" "s_kind x = Data" "erasure_shard_index x < p" for x
  proof -
    have "f_data self' ! erasure_shard_index x \<noteq> None" using p(1,4) that(4) by auto
    then show ?thesis using that(3) by (simp add: fec_insert_def fec_get_Inr [OF new(1) that(1,2)] slot_of_def)
  qed
  moreover have "tm_fec_set_index (template_of t) = fec" using ok(2) by (simp add: template_of_def)
  ultimately show ?thesis using p new(2) by (intro exI [of _ p]) auto
qed

text \<open>The coder whose second shard is broken: the first shred is rebuilt and kept, and its original is a duplicate.\<close>

theorem failed_recovery_keeps_shreds_witness:
  "\<exists>self' e. (fec_recover (codeword_rs broken_codeword) (sample_set 2) :: (unit, _) outcome) = Inr (self', Inl e) \<and>
     f_data (sample_set 2) ! 0 = None \<and> f_data self' ! 0 \<noteq> None \<and>
     (fec_insert sample_hash self' (sample_data_shred 0) :: (unit, _) outcome) = Inr (self', Duplicate)"
proof -
  let ?r = "restored (replicate 64 0) (sample_code_shred 0) (sample_data_shred 0)"
  let ?self' = "fill (sample_set 2) 0 ?r" and ?e = "InvalidShred (InvalidVariant 0) :: unit recover_error"
  have run: "(fec_recover (codeword_rs broken_codeword) (sample_set 2) :: (unit, _) outcome) = Inr (?self', Inl ?e)"
    by (rule recover_broken)
  have d: "f_data ?self' ! 0 \<noteq> None" "f_data (sample_set 2) ! 0 = None" by (simp_all add: fill_def sample_set_def)
  have x: "shred_ok (sample_data_shred 0)" "s_fec_set_index (sample_data_shred 0) = 32" "s_kind (sample_data_shred 0) = Data"
      "erasure_shard_index (sample_data_shred 0) = 0"
    using sample_data_at [of 0] by (auto simp: data_at_def) (simp add: erasure_shard_index_def sample_data_shred_def)
  from failed_recovery_keeps_shreds [OF _ _ codeword_rs_in_place run, of 32 sample_hash] sample_set_ok [of 2] obtain p where
    p: "\<forall>q<32. f_data ?self' ! q = None \<longleftrightarrow> f_data (sample_set 2) ! q = None \<and> p \<le> q"
       "\<forall>x. shred_ok x \<and> s_fec_set_index x = 32 \<and> s_kind x = Data \<and> erasure_shard_index x < p \<longrightarrow>
         (fec_insert sample_hash ?self' x :: (unit, _) outcome) = Inr (?self', Duplicate)"
    by auto
  have "0 < p" using p(1) d by (metis not_gr_zero zero_less_numeral le_refl)
  then show ?thesis using run d p(2) x by auto
qed

end
