(* ===== verification/Bitset.thy ===== *)
theory Bitset
  imports Prelude
begin

text \<open>
  The interface of \<open>fixedbitset::FixedBitSet\<close>, the third-party bit set the slot assembly stores
  its three bitmaps in. The operations are a record that the slot definitions take as an argument;
  the locale \<open>bit_set\<close> states the documented behaviour the code relies on (\<open>contains\<close> is false
  past the end, \<open>insert\<close>, \<open>insert_range\<close> and \<open>count_ones\<close> panic past the end), in terms of
  \<open>contains\<close> and the capacity. The interpretation at the end discharges it for sets of naturals
  below a capacity.
\<close>

record 'b bitset_ops =
  bs_with_capacity :: "nat \<Rightarrow> 'b"
  bs_contains :: "'b \<Rightarrow> nat \<Rightarrow> bool"
  bs_insert :: "'b \<Rightarrow> nat \<Rightarrow> 'b option"
  bs_insert_range :: "'b \<Rightarrow> nat \<Rightarrow> nat \<Rightarrow> 'b option"
  bs_count_ones :: "'b \<Rightarrow> nat \<Rightarrow> nat \<Rightarrow> nat option"
  bs_len :: "'b \<Rightarrow> nat"

text \<open>A missing result of an operation is its panic.\<close>

definition bit_out :: "'a option \<Rightarrow> ('e, 'a) outcome" where
  "bit_out r = (case r of None \<Rightarrow> Inl (Panic BitOutOfRange) | Some x \<Rightarrow> Inr x)"

lemma bit_out_simps [simp, outcome_simps]:
  "bit_out (Some x) = Inr x"
  "bit_out None = Inl (Panic BitOutOfRange)"
  by (simp_all add: bit_out_def)

locale bit_set =
  fixes B :: "'b bitset_ops"
  assumes len_with_capacity: "bs_len B (bs_with_capacity B n) = n"
    and contains_with_capacity: "\<not> bs_contains B (bs_with_capacity B n) i"
    and contains_less: "bs_contains B b i \<Longrightarrow> i < bs_len B b"
    and insert_in: "i < bs_len B b \<Longrightarrow>
      \<exists>b'. bs_insert B b i = Some b' \<and> bs_len B b' = bs_len B b \<and>
           (\<forall>j. bs_contains B b' j \<longleftrightarrow> j = i \<or> bs_contains B b j)"
    and insert_out: "bs_len B b \<le> i \<Longrightarrow> bs_insert B b i = None"
    and insert_range_in: "i \<le> j \<Longrightarrow> j \<le> bs_len B b \<Longrightarrow>
      \<exists>b'. bs_insert_range B b i j = Some b' \<and> bs_len B b' = bs_len B b \<and>
           (\<forall>k. bs_contains B b' k \<longleftrightarrow> i \<le> k \<and> k < j \<or> bs_contains B b k)"
    and insert_range_out: "bs_len B b < j \<Longrightarrow> bs_insert_range B b i j = None"
    and count_ones_in: "i \<le> j \<Longrightarrow> j \<le> bs_len B b \<Longrightarrow>
      bs_count_ones B b i j = Some (card {k. i \<le> k \<and> k < j \<and> bs_contains B b k})"
    and count_ones_out: "bs_len B b < j \<Longrightarrow> bs_count_ones B b i j = None"
begin

lemma count_ones_full:
  assumes "i \<le> j" and "j \<le> bs_len B b"
  shows "bs_count_ones B b i j = Some (j - i) \<longleftrightarrow> (\<forall>k. i \<le> k \<and> k < j \<longrightarrow> bs_contains B b k)"
proof -
  let ?A = "{k. i \<le> k \<and> k < j \<and> bs_contains B b k}"
  have sub: "?A \<subseteq> {i..<j}" by auto
  have "card ?A = j - i \<longleftrightarrow> ?A = {i..<j}"
    using card_subset_eq [OF finite_atLeastLessThan sub] by (metis card_atLeastLessThan)
  also have "\<dots> \<longleftrightarrow> (\<forall>k. i \<le> k \<and> k < j \<longrightarrow> bs_contains B b k)"
    by (simp add: set_eq_iff) blast
  finally show ?thesis using count_ones_in [OF assms] by simp
qed

end

text \<open>The value model of a bit set: its capacity and the set of its members.\<close>

definition bits_model :: "(nat \<times> nat set) bitset_ops" where
  "bits_model = \<lparr>
     bs_with_capacity = (\<lambda>n. (n, {})),
     bs_contains = (\<lambda>(n, s) i. i < n \<and> i \<in> s),
     bs_insert = (\<lambda>(n, s) i. if i < n then Some (n, insert i s) else None),
     bs_insert_range = (\<lambda>(n, s) i j. if j \<le> n then Some (n, {i..<j} \<union> s) else None),
     bs_count_ones = (\<lambda>(n, s) i j. if j \<le> n then Some (card ({i..<j} \<inter> s)) else None),
     bs_len = fst\<rparr>"

interpretation nat_bits: bit_set bits_model
proof (unfold_locales, goal_cases)
  case (8 i j b)
  have "{i..<j} \<inter> snd b = {k. i \<le> k \<and> k < j \<and> bs_contains bits_model b k}"
    using 8 by (cases b) (auto simp: bits_model_def)
  with 8 show ?case by (cases b) (simp add: bits_model_def)
qed (auto simp: bits_model_def split: prod.splits)

end
