(* ===== verification/Stats.thy ===== *)
theory Stats
  imports Prelude
begin

text \<open>
  The shared counters (\<open>src/stats.rs\<close>). The \<open>stats!\<close> macro declares one \<open>AtomicU64\<close> per name and
  treats all of them alike, so the struct is a function from the names to 64-bit words;
  \<open>fetch_add\<close> wraps around, as addition on words does. The deshredder is the only writer of the
  counters it touches, so its updates are sequential.
\<close>

datatype counter =
    packets | invalid | wrong_version | stale | duplicates | unneeded | rejected | recovered
  | recovery_failures | batches | block_markers | decode_errors | entries_count
  | transactions_count | dropped

type_synonym stats = "counter \<Rightarrow> u64"

definition stats_default :: stats where
  "stats_default = (\<lambda>_. 0)"

definition inc :: "counter \<Rightarrow> stats \<Rightarrow> stats" where
  "inc c st = st(c := st c + 1)"

definition add :: "counter \<Rightarrow> u64 \<Rightarrow> stats \<Rightarrow> stats" where
  "add c n st = st(c := st c + n)"

definition snapshot :: "stats \<Rightarrow> counter \<Rightarrow> u64" where
  "snapshot st = (\<lambda>c. st c)"

lemma inc_apply: "inc c st d = (if d = c then st d + 1 else st d)"
  by (simp add: inc_def)

lemma add_apply: "add c n st d = (if d = c then st d + n else st d)"
  by (simp add: add_def)

end
