(* ===== verification/Slot.thy ===== *)
theory Slot
  imports Fec Bitset Stats
begin

text \<open>
  Per-slot assembly (\<open>src/slot.rs\<close>): the FEC sets of a slot, the three bitmaps over its data
  shreds, and the emission of a segment for every run of data shreds that has become complete.
  \<open>std::collections::HashMap\<close> is a map; the bit sets are the operations \<open>B\<close> of the interface in
  theory \<open>Bitset\<close>; \<open>hashv\<close> and \<open>rs\<close> are SHA-256 and the Reed-Solomon coder. Logging is left out.
\<close>

section \<open>Definitions\<close>

type_synonym 'a run = "(unit, 'a) outcome"

record segment =
  seg_start :: u32
  seg_end :: u32
  seg_bytes :: bytes
  seg_last_in_slot :: bool

record 'b slot_state =
  sl_sets :: "u32 \<rightharpoonup> fec_set"
  sl_received :: 'b
  sl_complete :: 'b
  sl_consumed :: 'b

definition slot_default :: "'b bitset_ops \<Rightarrow> 'b slot_state" where
  "slot_default B =
     (let bits = unat MAX_SHREDS_PER_SLOT in
      \<lparr>sl_sets = Map.empty, sl_received = bs_with_capacity B bits,
       sl_complete = bs_with_capacity B bits, sl_consumed = bs_with_capacity B bits\<rparr>)"

definition set_is_consumed :: "'b bitset_ops \<Rightarrow> 'b slot_state \<Rightarrow> u32 \<Rightarrow> bool run" where
  "set_is_consumed B self fec_set_index =
     (let start = unat fec_set_index in
      bind_out (bit_out (bs_count_ones B (sl_consumed self) start (start + DATA_SHREDS_PER_FEC_SET)))
        (\<lambda>n. Inr (n = DATA_SHREDS_PER_FEC_SET)))"

text \<open>The two loops of \<open>find_segment\<close>: forward to the end of the run, back to its start.\<close>

function find_end :: "'b bitset_ops \<Rightarrow> 'b slot_state \<Rightarrow> nat \<Rightarrow> nat option" where
  "find_end B self end =
     (if \<not> bs_contains B (sl_received self) end then None
      else if bs_contains B (sl_complete self) end then Some end
      else if end + 1 \<ge> unat MAX_SHREDS_PER_SLOT then None
      else find_end B self (end + 1))"
  by pat_completeness auto
termination
  by (relation "measure (\<lambda>(B, self, end). unat MAX_SHREDS_PER_SLOT - end)") auto

declare find_end.simps [simp del]

fun find_start :: "'b bitset_ops \<Rightarrow> 'b slot_state \<Rightarrow> nat \<Rightarrow> nat option" where
  "find_start B self 0 = Some 0"
| "find_start B self (Suc n) =
     (if bs_contains B (sl_complete self) n then Some (Suc n)
      else if \<not> bs_contains B (sl_received self) n then None
      else find_start B self n)"

definition find_segment :: "'b bitset_ops \<Rightarrow> 'b slot_state \<Rightarrow> u32 \<Rightarrow> (u32 \<times> u32) option" where
  "find_segment B self index =
     (case find_end B self (unat index) of
        None \<Rightarrow> None
      | Some end \<Rightarrow>
        (case find_start B self (unat index) of
           None \<Rightarrow> None
         | Some start \<Rightarrow> Some (word_of_nat start, word_of_nat end)))"

definition slot_data :: "'b slot_state \<Rightarrow> u32 \<Rightarrow> shred run" where
  "slot_data self index =
     (let fec_set_index = index - index mod word_of_nat DATA_SHREDS_PER_FEC_SET in
      case sl_sets self fec_set_index of
        None \<Rightarrow> Inl (Panic MissingKey)
      | Some fs \<Rightarrow> bind_out (fec_data fs (unat (index - fec_set_index))) unwrap_out)"

text \<open>The values of an inclusive range of \<open>u32\<close>, and of one stepped by 32.\<close>

definition range_incl :: "u32 \<Rightarrow> u32 \<Rightarrow> u32 list" where
  "range_incl a b = map word_of_nat [unat a..<Suc (unat b)]"

definition range_step :: "u32 \<Rightarrow> u32 \<Rightarrow> u32 list" where
  "range_step a b = map (\<lambda>k. word_of_nat (unat a + 32 * k)) [0..<Suc ((unat b - unat a) div 32)]"

definition free_set :: "'b bitset_ops \<Rightarrow> u32 \<Rightarrow> 'b slot_state \<Rightarrow> 'b slot_state run" where
  "free_set B fec_set_index self =
     bind_out (set_is_consumed B self fec_set_index) (\<lambda>consumed.
     Inr (if consumed then self\<lparr>sl_sets := (sl_sets self)(fec_set_index := None)\<rparr> else self))"

definition try_complete ::
    "'b bitset_ops \<Rightarrow> u32 \<Rightarrow> 'b slot_state \<times> segment list \<Rightarrow> ('b slot_state \<times> segment list) run" where
  "try_complete B index = (\<lambda>(self, out).
     if index \<ge> MAX_SHREDS_PER_SLOT \<or> bs_contains B (sl_consumed self) (unat index)
     then Inr (self, out)
     else (case find_segment B self index of
       None \<Rightarrow> Inr (self, out)
     | Some (start, end) \<Rightarrow>
       bind_out (map_out (\<lambda>i. bind_out (slot_data self i) shred_data) (range_incl start end)) (\<lambda>parts.
       bind_out (slot_data self end) (\<lambda>last.
       bind_out (bit_out (bs_insert_range B (sl_consumed self) (unat start) (unat end + 1))) (\<lambda>consumed.
       let self1 = self\<lparr>sl_consumed := consumed\<rparr>;
           out1 = out @ [\<lparr>seg_start = start, seg_end = end, seg_bytes = concat parts,
                          seg_last_in_slot = last_in_slot last\<rparr>];
           first_set = start - start mod word_of_nat DATA_SHREDS_PER_FEC_SET
       in bind_out (fold_out (free_set B) (range_step first_set end) self1) (\<lambda>self2.
          Inr (self2, out1)))))))"

text \<open>\<open>fresh[num_fresh] = i; num_fresh += 1\<close>: the array has room for one set.\<close>

definition push_fresh :: "u32 \<Rightarrow> u32 list \<Rightarrow> u32 list run" where
  "push_fresh i fresh =
     (if length fresh < DATA_SHREDS_PER_FEC_SET then Inr (fresh @ [i])
      else Inl (Panic IndexOutOfBounds))"

text \<open>The recovery step of \<open>SlotState::insert\<close>.\<close>

definition recover_step :: "'r reconstructor option \<Rightarrow> fec_set \<Rightarrow> u32 list \<Rightarrow> stats \<Rightarrow>
    (fec_set \<times> u32 list \<times> stats) run" where
  "recover_step rs fs fresh st =
     (case rs of
        None \<Rightarrow> Inr (fs, fresh, st)
      | Some rs \<Rightarrow>
        if can_recover fs then
          bind_out (fec_recover rs fs) (\<lambda>(fs', result).
          case result of
            Inr indexes \<Rightarrow>
              bind_out (fold_out push_fresh indexes fresh) (\<lambda>fresh'.
              Inr (fs', fresh', add recovered (word_of_nat (length indexes)) st))
          | Inl err \<Rightarrow> Inr (fs', fresh, inc recovery_failures st))
        else Inr (fs, fresh, st))"

definition mark_fresh :: "'b bitset_ops \<Rightarrow> u32 \<Rightarrow> fec_set \<Rightarrow> u32 \<Rightarrow> 'b slot_state \<Rightarrow> 'b slot_state run" where
  "mark_fresh B fec_set_index fs i self =
     bind_out (fec_data fs (unat (i - fec_set_index))) (\<lambda>x.
     bind_out (unwrap_out x) (\<lambda>shred.
     bind_out (bit_out (bs_insert B (sl_received self) (unat i))) (\<lambda>r.
     let self1 = self\<lparr>sl_received := r\<rparr> in
     if data_complete shred
     then bind_out (bit_out (bs_insert B (sl_complete self1) (unat i))) (\<lambda>c.
       Inr (self1\<lparr>sl_complete := c\<rparr>))
     else Inr self1)))"

definition complete_fresh ::
    "'b bitset_ops \<Rightarrow> u32 \<Rightarrow> 'b slot_state \<times> segment list \<Rightarrow> ('b slot_state \<times> segment list) run" where
  "complete_fresh B i so =
     bind_out (try_complete B i so) (\<lambda>so1.
     if bs_contains B (sl_complete (fst so1)) (unat i) then try_complete B (i + 1) so1 else Inr so1)"

definition slot_insert :: "'b bitset_ops \<Rightarrow> hasher \<Rightarrow> 'r reconstructor option \<Rightarrow> 'b slot_state \<Rightarrow>
    shred \<Rightarrow> stats \<Rightarrow> segment list \<Rightarrow> ('b slot_state \<times> stats \<times> segment list) run" where
  "slot_insert B hashv rs self shred st out =
     (let fec_set_index = s_fec_set_index shred; index = s_index shred in
      if is_data shred \<and> bs_contains B (sl_received self) (unat index)
      then Inr (self, inc duplicates st, out)
      else bind_out (if is_data shred then Inr False else set_is_consumed B self fec_set_index) (\<lambda>consumed.
      if consumed then Inr (self, inc unneeded st, out)
      else
        let fs = (case sl_sets self fec_set_index of None \<Rightarrow> fec_default | Some s \<Rightarrow> s) in
        bind_out (fec_insert hashv fs shred) (\<lambda>(fs1, verdict).
        let self1 = self\<lparr>sl_sets := (sl_sets self)(fec_set_index \<mapsto> fs1)\<rparr> in
        case verdict of
          Duplicate \<Rightarrow> Inr (self1, inc duplicates st, out)
        | Unneeded \<Rightarrow> Inr (self1, inc unneeded st, out)
        | Rejected why \<Rightarrow> Inr (self1, inc rejected st, out)
        | New \<Rightarrow>
          bind_out (if is_data shred then push_fresh index [] else Inr []) (\<lambda>fresh0.
          bind_out (recover_step rs fs1 fresh0 st) (\<lambda>(fs2, fresh, st2).
          bind_out (fold_out (mark_fresh B fec_set_index fs2) fresh
              (self1\<lparr>sl_sets := (sl_sets self)(fec_set_index \<mapsto> fs2)\<rparr>)) (\<lambda>self3.
          bind_out (fold_out (complete_fresh B) fresh (self3, out)) (\<lambda>(self4, out4).
          Inr (self4, st2, out4))))))))"

section \<open>Runs\<close>

text \<open>
  A complete run over the received and data-complete bits: it starts at 0 or behind a data-complete
  shred, ends with the first data-complete shred, and everything in it is received.
\<close>

definition run_of :: "(nat \<Rightarrow> bool) \<Rightarrow> (nat \<Rightarrow> bool) \<Rightarrow> nat \<Rightarrow> nat \<Rightarrow> bool" where
  "run_of R C a b \<longleftrightarrow> a \<le> b \<and> (\<forall>i. a \<le> i \<and> i \<le> b \<longrightarrow> R i) \<and> C b \<and> (\<forall>i. a \<le> i \<and> i < b \<longrightarrow> \<not> C i)
     \<and> (a = 0 \<or> C (a - 1))"

abbreviation recv :: "'b bitset_ops \<Rightarrow> 'b slot_state \<Rightarrow> nat \<Rightarrow> bool" where
  "recv B self \<equiv> bs_contains B (sl_received self)"

abbreviation compl :: "'b bitset_ops \<Rightarrow> 'b slot_state \<Rightarrow> nat \<Rightarrow> bool" where
  "compl B self \<equiv> bs_contains B (sl_complete self)"

abbreviation cons :: "'b bitset_ops \<Rightarrow> 'b slot_state \<Rightarrow> nat \<Rightarrow> bool" where
  "cons B self \<equiv> bs_contains B (sl_consumed self)"

abbreviation slot_run :: "'b bitset_ops \<Rightarrow> 'b slot_state \<Rightarrow> nat \<Rightarrow> nat \<Rightarrow> bool" where
  "slot_run B self \<equiv> run_of (recv B self) (compl B self)"

text \<open>The first data-complete shred at or after \<open>i\<close> is \<open>e\<close>, with everything up to it received.\<close>

definition ends_at :: "(nat \<Rightarrow> bool) \<Rightarrow> (nat \<Rightarrow> bool) \<Rightarrow> nat \<Rightarrow> nat \<Rightarrow> bool" where
  "ends_at R C i e \<longleftrightarrow> i \<le> e \<and> (\<forall>j. i \<le> j \<and> j \<le> e \<longrightarrow> R j) \<and> C e \<and> (\<forall>j. i \<le> j \<and> j < e \<longrightarrow> \<not> C j)"

lemma ends_at_unfold: "ends_at R C i e \<longleftrightarrow> R i \<and> (if C i then e = i else ends_at R C (i + 1) e)"
proof -
  have *: "i \<le> j \<longleftrightarrow> j = i \<or> i + 1 \<le> j" for j by auto
  show ?thesis unfolding ends_at_def * by auto
qed

lemma find_end_iff:
  assumes "\<forall>i. recv B self i \<longrightarrow> i < 32768"
  shows "find_end B self i = Some e \<longleftrightarrow> ends_at (recv B self) (compl B self) i e"
proof (induction "32768 - i" arbitrary: i rule: less_induct)
  case less
  have "\<not> ends_at (recv B self) (compl B self) (i + 1) e" if "i + 1 \<ge> 32768"
    using that assms by (fastforce simp: ends_at_def)
  moreover have "find_end B self (i + 1) = Some e \<longleftrightarrow> ends_at (recv B self) (compl B self) (i + 1) e" if "i + 1 < 32768"
    using that by (intro less) simp
  ultimately show ?case
    by (subst find_end.simps, subst ends_at_unfold) auto
qed

lemma find_start_iff:
  "find_start B self n = Some a \<longleftrightarrow>
    a \<le> n \<and> (\<forall>j. a \<le> j \<and> j < n \<longrightarrow> recv B self j \<and> \<not> compl B self j) \<and> (a = 0 \<or> compl B self (a - 1))"
proof (induction n)
  case (Suc n)
  show ?case
  proof (cases "compl B self n \<or> \<not> recv B self n")
    case True
    then have "a \<le> n \<Longrightarrow> \<not> (\<forall>j. a \<le> j \<and> j < Suc n \<longrightarrow> recv B self j \<and> \<not> compl B self j)" by auto
    with True show ?thesis by (auto simp: le_Suc_eq)
  next
    case False
    then have "find_start B self (Suc n) = Some a \<longleftrightarrow> find_start B self n = Some a" by simp
    also have "\<dots> \<longleftrightarrow> a \<le> Suc n \<and> (\<forall>j. a \<le> j \<and> j < Suc n \<longrightarrow> recv B self j \<and> \<not> compl B self j) \<and>
        (a = 0 \<or> compl B self (a - 1))"
      unfolding Suc using False by (auto simp: less_Suc_eq le_Suc_eq)
    finally show ?thesis .
  qed
qed auto

lemma run_unique:
  assumes "run_of R C a b" and "run_of R C a' b'" and "a \<le> i" and "i \<le> b" and "a' \<le> i" and "i \<le> b'"
  shows "a = a' \<and> b = b'"
proof -
  have "b = b'" using assms unfolding run_of_def by (metis le_trans linorder_neqE_nat)
  moreover have "\<not> a < a'" if "run_of R C a b" "run_of R C a' b" "a' \<le> b" for a a'
  proof
    assume "a < a'"
    then have "a \<le> a' - 1" "a' - 1 < b" "a' \<noteq> 0" using that(3) by auto
    then show False using that unfolding run_of_def by blast
  qed
  ultimately show ?thesis using assms unfolding run_of_def by (metis linorder_neqE_nat)
qed

lemma run_of_split:
  assumes "a \<le> i" and "i \<le> b"
  shows "run_of R C a b \<longleftrightarrow>
    ends_at R C i b \<and> (\<forall>j. a \<le> j \<and> j < i \<longrightarrow> R j \<and> \<not> C j) \<and> (a = 0 \<or> C (a - 1))"
proof
  assume "run_of R C a b"
  then show "ends_at R C i b \<and> (\<forall>j. a \<le> j \<and> j < i \<longrightarrow> R j \<and> \<not> C j) \<and> (a = 0 \<or> C (a - 1))"
    using assms by (auto simp: run_of_def ends_at_def)
next
  assume r: "ends_at R C i b \<and> (\<forall>j. a \<le> j \<and> j < i \<longrightarrow> R j \<and> \<not> C j) \<and> (a = 0 \<or> C (a - 1))"
  have "R j" if "a \<le> j" "j \<le> b" for j using r that by (cases "j < i") (auto simp: ends_at_def)
  moreover have "\<not> C j" if "a \<le> j" "j < b" for j using r that by (cases "j < i") (auto simp: ends_at_def)
  ultimately show "run_of R C a b" using r assms by (auto simp: run_of_def ends_at_def)
qed

lemma find_segment_iff:
  assumes "\<forall>i. recv B self i \<longrightarrow> i < 32768"
  shows "find_segment B self index = Some (s, e) \<longleftrightarrow>
    (\<exists>a b. s = word_of_nat a \<and> e = word_of_nat b \<and> slot_run B self a b \<and> a \<le> unat index \<and> unat index \<le> b)"
proof -
  let ?i = "unat index"
  have "slot_run B self a b \<and> a \<le> ?i \<and> ?i \<le> b \<longleftrightarrow>
      find_end B self ?i = Some b \<and> find_start B self ?i = Some a" for a b
    unfolding find_end_iff [OF assms] find_start_iff
    using run_of_split [of a ?i b "recv B self" "compl B self"] by (auto simp: ends_at_def)
  then show ?thesis by (auto simp: find_segment_def split: option.splits)
qed

section \<open>Invariant\<close>

text \<open>The data shred the FEC sets hold for index \<open>i\<close>.\<close>

definition set_key :: "nat \<Rightarrow> u32" where
  "set_key k = word_of_nat (32 * k)"

definition stored_at :: "'b slot_state \<Rightarrow> nat \<Rightarrow> shred option" where
  "stored_at self i =
     (case sl_sets self (set_key (i div 32)) of None \<Rightarrow> None | Some fs \<Rightarrow> f_data fs ! (i mod 32))"

definition full_set :: "'b bitset_ops \<Rightarrow> 'b slot_state \<Rightarrow> nat \<Rightarrow> bool" where
  "full_set B self k \<longleftrightarrow> (\<forall>j<32. cons B self (32 * k + j))"

text \<open>
  The bitmaps: fixed capacity, data-complete and consumed shreds are received, and the consumed ones
  are whole runs.
\<close>

definition bits_ok :: "'b bitset_ops \<Rightarrow> 'b slot_state \<Rightarrow> bool" where
  "bits_ok B self \<longleftrightarrow>
     bs_len B (sl_received self) = 32768 \<and> bs_len B (sl_complete self) = 32768 \<and>
     bs_len B (sl_consumed self) = 32768 \<and>
     (\<forall>i. compl B self i \<longrightarrow> recv B self i) \<and> (\<forall>i. cons B self i \<longrightarrow> recv B self i) \<and>
     (\<forall>i. \<not> compl B self i \<longrightarrow> cons B self i = cons B self (i + 1))"

text \<open>The FEC sets: aligned keys inside the slot, well-formed sets, shreds that satisfy \<open>P\<close>.\<close>

definition sets_ok :: "(shred \<Rightarrow> bool) \<Rightarrow> 'b slot_state \<Rightarrow> bool" where
  "sets_ok P self \<longleftrightarrow> (\<forall>fec fs. sl_sets self fec = Some fs \<longrightarrow>
     unat fec < 32768 \<and> unat fec mod 32 = 0 \<and> fec_ok fec fs \<and>
     (\<forall>s. Some s \<in> set (f_data fs @ f_code fs) \<longrightarrow> P s))"

text \<open>
  Bitmaps and sets agree: a fully consumed set is freed, and a received shred of any other set is
  stored, with its data-complete flag in the bitmap.
\<close>

definition link_ok :: "'b bitset_ops \<Rightarrow> 'b slot_state \<Rightarrow> bool" where
  "link_ok B self \<longleftrightarrow>
     (\<forall>k. full_set B self k \<longrightarrow> sl_sets self (set_key k) = None) \<and>
     (\<forall>i. recv B self i \<longrightarrow> full_set B self (i div 32) \<or>
        (\<exists>s. stored_at self i = Some s \<and> (compl B self i \<longleftrightarrow> data_complete s)))"

text \<open>Every received index comes from a shred with property \<open>P\<close>, and the data-complete bit is its flag.\<close>

definition prov_ok :: "'b bitset_ops \<Rightarrow> (shred \<Rightarrow> bool) \<Rightarrow> 'b slot_state \<Rightarrow> bool" where
  "prov_ok B P self \<longleftrightarrow> (\<forall>i. recv B self i \<longrightarrow> (\<exists>s. shred_ok s \<and> s_kind s = Data \<and> P s \<and>
     unat (s_index s) = i \<and> (compl B self i \<longleftrightarrow> data_complete s)))"

definition slot_ok :: "'b bitset_ops \<Rightarrow> (shred \<Rightarrow> bool) \<Rightarrow> 'b slot_state \<Rightarrow> bool" where
  "slot_ok B P self \<longleftrightarrow> bits_ok B self \<and> sets_ok P self \<and> link_ok B self \<and> prov_ok B P self"

text \<open>No complete run waits to be emitted.\<close>

definition settled :: "'b bitset_ops \<Rightarrow> 'b slot_state \<Rightarrow> bool" where
  "settled B self \<longleftrightarrow> (\<forall>a b. slot_run B self a b \<longrightarrow> cons B self a)"

lemma unat_u32: "n < 4294967296 \<Longrightarrow> unat (word_of_nat n :: u32) = n"
  by (simp add: unat_of_nat take_bit_eq_mod)

lemma unat_set_key: "k < 134217728 \<Longrightarrow> unat (set_key k) = 32 * k"
  unfolding set_key_def by (rule unat_u32) simp

lemma unat_set_key_of: "unat (set_key (unat (x::u32) div 32)) = unat x - unat x mod 32"
proof -
  have "unat x < 4294967296" using unsigned_less [of x] by simp
  then show ?thesis by (subst unat_set_key) (auto simp: minus_mod_eq_mult_div)
qed

lemma set_key_of: "unat (x::u32) mod 32 = 0 \<Longrightarrow> set_key (unat x div 32) = x"
  by (simp add: word_unat_eq_iff unat_set_key_of)

lemma base_word: "(x::u32) - x mod 32 = set_key (unat x div 32)"
proof -
  have "x mod 32 \<le> x" by (simp add: word_le_nat_alt unat_mod)
  then have "unat (x - x mod 32) = unat x - unat (x mod 32)" by (rule unat_sub)
  then show ?thesis by (simp only: word_unat_eq_iff unat_set_key_of) (simp add: unat_mod)
qed

lemma slot_ok_default:
  assumes "bit_set B"
  shows "slot_ok B P (slot_default B)" and "settled B (slot_default B)"
  using bit_set.len_with_capacity [OF assms] bit_set.contains_with_capacity [OF assms]
  by (simp_all add: slot_ok_def bits_ok_def sets_ok_def link_ok_def prov_ok_def settled_def slot_default_def
      full_set_def run_of_def)

section \<open>Looking up shreds and freeing sets\<close>

lemma stored_atE:
  assumes "sets_ok P self" and "stored_at self i = Some s" and "i < 32768"
  obtains fs where "sl_sets self (set_key (i div 32)) = Some fs" and "f_data fs ! (i mod 32) = Some s"
    and "length (f_data fs) = 32"
    and "shred_ok s" and "s_kind s = Data" and "P s" and "unat (s_index s) = i"
proof -
  obtain fs where fs: "sl_sets self (set_key (i div 32)) = Some fs" "f_data fs ! (i mod 32) = Some s"
    using assms(2) by (auto simp: stored_at_def split: option.splits)
  then have ok: "fec_ok (set_key (i div 32)) fs" "\<And>s. Some s \<in> set (f_data fs) \<Longrightarrow> P s"
    using assms(1) by (auto simp: sets_ok_def)
  then have len: "length (f_data fs) = 32" and at: "all_at (data_at (set_key (i div 32))) (f_data fs)"
    by (auto simp: fec_ok_def fec_arrays_ok_def)
  have "data_at (set_key (i div 32)) (i mod 32) s" using all_atD [OF at _ fs(2)] len by simp
  moreover have "unat (set_key (i div 32)) = 32 * (i div 32)" using assms(3) by (intro unat_set_key) simp
  moreover have "P s" using ok(2) fs(2) len by (metis mod_less_divisor nth_mem zero_less_numeral)
  ultimately show thesis using that fs len by (auto simp: data_at_def)
qed

lemma slot_data_Inr:
  assumes "sets_ok P self" and "stored_at self i = Some s" and "i < 32768"
  shows "slot_data self (word_of_nat i) = Inr s"
proof (rule stored_atE [OF assms])
  fix fs assume fs: "sl_sets self (set_key (i div 32)) = Some fs" "f_data fs ! (i mod 32) = Some s" "length (f_data fs) = 32"
  let ?x = "word_of_nat i :: u32"
  have i: "unat ?x = i" using assms(3) by (intro unat_u32) simp
  have "unat (?x - (?x - ?x mod 32)) = i mod 32" using i by (simp add: unat_mod)
  then show ?thesis
    unfolding slot_data_def Let_def of_nat_numeral base_word i
    using fs by (simp add: fec_data_def)
qed

lemma range_incl_eq:
  "b < 32768 \<Longrightarrow> a \<le> b \<Longrightarrow> range_incl (word_of_nat a) (word_of_nat b) = map word_of_nat [a..<Suc b]"
  by (simp add: range_incl_def unat_u32)

lemma range_step_eq:
  assumes "b < 32768" and "q \<le> b div 32"
  shows "range_step (set_key q) (word_of_nat b) = map set_key [q..<Suc (b div 32)]"
proof -
  have "(b - 32 * q) div 32 = b div 32 - q"
    using div_mult_self1 [of 32 "b - 32 * q" q] assms(2) by (simp add: minus_div_mult_eq_mod [symmetric] Suc_leI le_div_geq)
  moreover have "[q..<Suc (b div 32)] = map (\<lambda>k. q + k) [0..<Suc (b div 32 - q)]"
    using assms(2) map_add_upt [of q "Suc (b div 32 - q)"] by (simp add: add.commute del: upt_Suc)
  moreover have "unat (set_key q) = 32 * q" using assms by (intro unat_set_key) simp
  ultimately show ?thesis
    using assms(1) by (simp add: range_step_def unat_u32 set_key_def add_mult_distrib2 o_def del: upt_Suc of_nat_add of_nat_mult)
qed

context bit_set
begin

lemma recv_less: "bits_ok B self \<Longrightarrow> recv B self i \<Longrightarrow> i < 32768"
  using contains_less by (metis bits_ok_def)

lemma set_is_consumed_Inr:
  assumes "bits_ok B self" and "k < 1024"
  shows "set_is_consumed B self (set_key k) = Inr (full_set B self k)"
proof -
  have k: "unat (set_key k) = 32 * k" using assms(2) by (intro unat_set_key) simp
  have len: "32 * k + 32 \<le> bs_len B (sl_consumed self)" using assms by (simp add: bits_ok_def)
  have "(\<forall>i. 32 * k \<le> i \<and> i < 32 * k + 32 \<longrightarrow> cons B self i) \<longleftrightarrow> full_set B self k"
    unfolding full_set_def by (metis add_diff_inverse_nat add_less_cancel_left le_add1 not_less)
  with count_ones_full [OF _ len, of "32 * k"] count_ones_in [OF _ len, of "32 * k"] show ?thesis
    by (simp add: set_is_consumed_def k)
qed

lemma fold_free_sets:
  assumes "bits_ok B self" and "\<forall>k\<in>set ks. k < 1024"
  shows "fold_out (free_set B) (map set_key ks) self =
    Inr (self\<lparr>sl_sets := (\<lambda>x. if \<exists>k\<in>set ks. x = set_key k \<and> full_set B self k then None else sl_sets self x)\<rparr>)"
  using assms
proof (induction ks arbitrary: self)
  case Nil
  then show ?case by simp
next
  case (Cons k ks)
  let ?self = "if full_set B self k then self\<lparr>sl_sets := (sl_sets self)(set_key k := None)\<rparr> else self"
  let ?f = "\<lambda>ks self x. if \<exists>k\<in>set ks. x = set_key k \<and> full_set B self k then None else sl_sets self x"
  have step: "free_set B (set_key k) self = Inr ?self"
    using Cons.prems by (simp add: free_set_def set_is_consumed_Inr)
  have full: "full_set B ?self = full_set B self" by (auto simp: full_set_def)
  have "bits_ok B ?self" using Cons.prems(1) by (simp add: bits_ok_def)
  then have "fold_out (free_set B) (map set_key ks) ?self = Inr (?self\<lparr>sl_sets := ?f ks ?self\<rparr>)"
    using Cons.prems(2) by (intro Cons.IH) simp_all
  moreover have "?f ks ?self = ?f (k # ks) self"
    by (rule ext) (use full in \<open>auto simp: full\<close>)
  then have "?self\<lparr>sl_sets := ?f ks ?self\<rparr> = self\<lparr>sl_sets := ?f (k # ks) self\<rparr>" by simp
  ultimately show ?case by (simp only: list.map fold_out.simps step bind_out_simps)
qed

end

section \<open>Emission of one segment\<close>

abbreviation seg_range :: "segment \<Rightarrow> nat set" where
  "seg_range seg \<equiv> {unat (seg_start seg)..unat (seg_end seg)}"

text \<open>
  A segment is right for the bitmaps: its range is a complete run, and its bytes are the entry bytes
  of data shreds with exactly the indexes of the run, in order, that all satisfy \<open>P\<close>.
\<close>

definition segment_ok :: "(nat \<Rightarrow> bool) \<Rightarrow> (nat \<Rightarrow> bool) \<Rightarrow> (shred \<Rightarrow> bool) \<Rightarrow> segment \<Rightarrow> bool" where
  "segment_ok R C P seg \<longleftrightarrow>
     run_of R C (unat (seg_start seg)) (unat (seg_end seg)) \<and>
     (\<exists>ss. map (unat \<circ> s_index) ss = [unat (seg_start seg)..<Suc (unat (seg_end seg))] \<and>
        (\<forall>s\<in>set ss. shred_ok s \<and> s_kind s = Data \<and> P s \<and> (data_complete s \<longleftrightarrow> C (unat (s_index s)))) \<and>
        seg_bytes seg = concat (map payload ss) \<and> seg_last_in_slot seg = last_in_slot (last ss))"

text \<open>A list of segments takes the consumed shreds from \<open>K\<close> to \<open>K'\<close>, each one consuming new shreds only.\<close>

fun emission :: "(segment \<Rightarrow> bool) \<Rightarrow> nat set \<Rightarrow> segment list \<Rightarrow> nat set \<Rightarrow> bool" where
  "emission Q K [] K' \<longleftrightarrow> K' = K"
| "emission Q K (seg # segs) K' \<longleftrightarrow>
     Q seg \<and> seg_range seg \<inter> K = {} \<and> emission Q (K \<union> seg_range seg) segs K'"

lemma emission_append:
  "emission Q K xs K1 \<Longrightarrow> emission Q K1 ys K2 \<Longrightarrow> emission Q K (xs @ ys) K2"
  by (induction xs arbitrary: K) auto

definition cons_set :: "'b bitset_ops \<Rightarrow> 'b slot_state \<Rightarrow> nat set" where
  "cons_set B self = {j. cons B self j}"

definition same_bits :: "'b slot_state \<Rightarrow> 'b slot_state \<Rightarrow> bool" where
  "same_bits self self' \<longleftrightarrow> sl_received self' = sl_received self \<and> sl_complete self' = sl_complete self"

text \<open>Only fully consumed sets are freed, and no set is changed.\<close>

definition frees :: "'b bitset_ops \<Rightarrow> 'b slot_state \<Rightarrow> 'b slot_state \<Rightarrow> bool" where
  "frees B self self' \<longleftrightarrow> (\<forall>fec. sl_sets self' fec = sl_sets self fec \<or> full_set B self' (unat fec div 32))"

definition emits :: "'b bitset_ops \<Rightarrow> (shred \<Rightarrow> bool) \<Rightarrow> 'b slot_state \<Rightarrow> 'b slot_state \<Rightarrow> segment list \<Rightarrow> bool" where
  "emits B P self self' segs \<longleftrightarrow> slot_ok B P self' \<and> same_bits self self' \<and> frees B self self' \<and>
     emission (segment_ok (recv B self) (compl B self) P) (cons_set B self) segs (cons_set B self')"

text \<open>Every complete run that contains \<open>i\<close>, or starts behind a data-complete \<open>i\<close>, is consumed.\<close>

definition closes :: "'b bitset_ops \<Rightarrow> 'b slot_state \<Rightarrow> nat \<Rightarrow> 'b slot_state \<Rightarrow> bool" where
  "closes B self i self' \<longleftrightarrow> (\<forall>a b. slot_run B self a b \<and> (a \<le> i \<and> i \<le> b \<or> compl B self i \<and> a = i + 1)
     \<longrightarrow> cons B self' a)"

lemma emission_mono: "emission Q K segs K' \<Longrightarrow> K \<subseteq> K'"
  by (induction segs arbitrary: K) auto

lemma emits_cons: "emits B P self self' segs \<Longrightarrow> cons B self i \<Longrightarrow> cons B self' i"
  using emission_mono by (fastforce simp: emits_def cons_set_def)

lemma frees_refl: "frees B self self"
  by (simp add: frees_def)

lemma emits_trans:
  assumes "emits B P self self1 xs" and "emits B P self1 self2 ys"
  shows "emits B P self self2 (xs @ ys)"
proof -
  have "full_set B self2 k" if "full_set B self1 k" for k
    using emits_cons [OF assms(2)] that by (simp add: full_set_def)
  then have "frees B self self2" using assms unfolding emits_def frees_def by metis
  then show ?thesis using assms by (auto simp: emits_def same_bits_def intro: emission_append)
qed

lemma emits_run: "emits B P self self' segs \<Longrightarrow> recv B self' = recv B self \<and> compl B self' = compl B self"
  by (simp add: emits_def same_bits_def)

lemma run_closed:
  assumes "bits_ok B self" and "slot_run B self a b" and "a \<le> i" and "i \<le> b" and "a \<le> j" and "j \<le> b"
  shows "cons B self i \<longleftrightarrow> cons B self j"
proof -
  have "cons B self (a + d) \<longleftrightarrow> cons B self a" if "a + d \<le> b" for d
    using that
  proof (induction d)
    case (Suc d)
    then have "\<not> compl B self (a + d)" using assms(2) by (simp add: run_of_def)
    then show ?case using assms(1) Suc by (simp add: bits_ok_def)
  qed simp
  from this [of "i - a"] this [of "j - a"] assms(3-6) show ?thesis by simp
qed

lemma run_stored:
  assumes "slot_ok B P self" and "slot_run B self a b" and "a \<le> i" and "i \<le> b" and "\<not> cons B self i"
  shows "\<exists>s. stored_at self i = Some s \<and> (compl B self i \<longleftrightarrow> data_complete s)"
proof -
  have "\<not> full_set B self (i div 32)"
    using assms(5) mult_div_mod_eq [of 32 i] unfolding full_set_def by (metis mod_less_divisor zero_less_numeral)
  then show ?thesis using assms(1-4) by (auto simp: slot_ok_def link_ok_def run_of_def)
qed

lemma index_lists_eq:
  assumes "\<And>i. a \<le> i \<Longrightarrow> i \<le> b \<Longrightarrow> unat (s_index (g i)) = i"
  shows "map (unat \<circ> s_index) (map g [a..<Suc b]) = [a..<Suc b]"
  unfolding map_map by (rule map_idI) (use assms in auto)

context bit_set
begin

text \<open>The state after consuming the run from \<open>a\<close> to \<open>b\<close> with the new consumed bits \<open>c\<close>.\<close>

lemma slot_ok_consume:
  assumes ok: "slot_ok B P self" and run: "slot_run B self a b"
    and len: "bs_len B c = 32768" and c: "\<And>j. bs_contains B c j \<longleftrightarrow> a \<le> j \<and> j \<le> b \<or> cons B self j"
    and self1: "self1 = self\<lparr>sl_consumed := c\<rparr>"
    and self2: "self2 = self1\<lparr>sl_sets := (\<lambda>x. if \<exists>k\<in>set [a div 32..<Suc (b div 32)].
      x = set_key k \<and> full_set B self1 k then None else sl_sets self1 x)\<rparr>"
  shows "bits_ok B self1" and "slot_ok B P self2"
proof -
  have full: "full_set B self2 = full_set B self1" by (auto simp: self2 full_set_def)
  have cs: "cons B self1 j \<longleftrightarrow> a \<le> j \<and> j \<le> b \<or> cons B self j" for j by (simp add: self1 c)
  have edge: "a \<le> i \<and> i \<le> b \<longleftrightarrow> a \<le> i + 1 \<and> i + 1 \<le> b" if "\<not> compl B self i" for i
  proof -
    have "i \<noteq> b \<and> (a = 0 \<or> i \<noteq> a - 1)" using that run by (auto simp: run_of_def)
    then show ?thesis by arith
  qed
  have old: "bits_ok B self" using ok by (simp add: slot_ok_def)
  show bits: "bits_ok B self1"
  proof -
    have "cons B self1 i = cons B self1 (i + 1)" if "\<not> compl B self i" for i
      using edge [OF that] old that by (simp add: cs bits_ok_def)
    moreover have "recv B self i" if "cons B self1 i" for i
      using that old run by (auto simp: cs bits_ok_def run_of_def)
    ultimately show ?thesis using old len by (simp add: bits_ok_def self1)
  qed
  have "sets_ok P self2" using ok by (auto simp: sets_ok_def slot_ok_def self2 self1 split: if_splits)
  moreover have "sl_sets self2 (set_key k) = None" if "full_set B self2 k" for k
  proof (cases "full_set B self k")
    case True
    then show ?thesis using ok by (simp add: slot_ok_def link_ok_def self2 self1)
  next
    case False
    then obtain j where j: "j < 32" "\<not> cons B self (32 * k + j)" by (auto simp: full_set_def)
    then have "cons B self1 (32 * k + j)" using that unfolding full by (simp add: full_set_def)
    with j have "a \<le> 32 * k + j" "32 * k + j \<le> b" by (auto simp: cs)
    with j have "k \<in> set [a div 32..<Suc (b div 32)]" by auto
    then show ?thesis using that unfolding full by (auto simp: self2)
  qed
  moreover have "full_set B self2 (i div 32) \<or> (\<exists>s. stored_at self2 i = Some s \<and> (compl B self2 i \<longleftrightarrow> data_complete s))"
    if r: "recv B self2 i" for i
  proof (cases "full_set B self2 (i div 32)")
    case nf: False
    have "\<not> full_set B self (i div 32)" using nf unfolding full by (auto simp: full_set_def cs)
    then obtain s where s: "stored_at self i = Some s" "compl B self i \<longleftrightarrow> data_complete s"
      using ok r by (auto simp: slot_ok_def link_ok_def self2 self1)
    have i: "i < 32768" using recv_less [OF old] r by (simp add: self2 self1)
    have "sl_sets self2 (set_key (i div 32)) = sl_sets self (set_key (i div 32))"
    proof -
      have "k = i div 32" if "k \<in> set [a div 32..<Suc (b div 32)]" "set_key (i div 32) = set_key k" for k
      proof -
        have "b < 32768" using run recv_less [OF old] by (auto simp: run_of_def)
        then have "32 * (i div 32) = 32 * k"
          using i that unat_set_key [of k] unat_set_key [of "i div 32"] by auto
        then show ?thesis by simp
      qed
      then have "\<not> (\<exists>k\<in>set [a div 32..<Suc (b div 32)]. set_key (i div 32) = set_key k \<and> full_set B self1 k)"
        using nf unfolding full by metis
      then show ?thesis by (auto simp: self2 self1 simp del: upt_Suc)
    qed
    then have "stored_at self2 i = stored_at self i" by (simp add: stored_at_def)
    with s show ?thesis by (simp add: self2 self1)
  qed simp
  moreover have "prov_ok B P self2" using ok by (simp add: slot_ok_def prov_ok_def self2 self1)
  ultimately show "slot_ok B P self2"
    using bits by (auto simp: slot_ok_def link_ok_def bits_ok_def self2)
qed

text \<open>Emission of the complete run around an unconsumed index.\<close>

lemma try_complete_run:
  assumes ok: "slot_ok B P self" and run: "slot_run B self a b"
    and i: "a \<le> unat index" "unat index \<le> b" and new: "\<not> cons B self (unat index)"
  shows "\<exists>self' seg. try_complete B index (self, out) = Inr (self', out @ [seg]) \<and>
    slot_ok B P self' \<and> same_bits self self' \<and>
    segment_ok (recv B self) (compl B self) P seg \<and> unat (seg_start seg) = a \<and> unat (seg_end seg) = b \<and>
    seg_range seg \<inter> cons_set B self = {} \<and> cons_set B self' = cons_set B self \<union> seg_range seg \<and> frees B self self'"
proof -
  have bits: "bits_ok B self" and sets: "sets_ok P self" using ok by (simp_all add: slot_ok_def)
  have lt: "b < 32768" and ab: "a \<le> b" using run recv_less [OF bits] by (auto simp: run_of_def)
  have ua: "unat (word_of_nat a :: u32) = a" "unat (word_of_nat b :: u32) = b"
    using lt ab by (simp_all add: unat_u32)
  have fresh: "\<not> cons B self j" if "a \<le> j" "j \<le> b" for j
    using run_closed [OF bits run i that] new by simp
  define g where "g j = the (stored_at self j)" for j
  have g: "stored_at self j = Some (g j)" "compl B self j \<longleftrightarrow> data_complete (g j)" if "a \<le> j" "j \<le> b" for j
    using run_stored [OF ok run that fresh [OF that]] by (auto simp: g_def)
  have gs: "shred_ok (g j) \<and> s_kind (g j) = Data \<and> P (g j) \<and> unat (s_index (g j)) = j" if "a \<le> j" "j \<le> b" for j
  proof (rule stored_atE [OF sets g(1) [OF that]])
    show "j < 32768" using that lt by simp
  qed simp
  have data: "slot_data self (word_of_nat j) = Inr (g j)" if "a \<le> j" "j \<le> b" for j
    using slot_data_Inr [OF sets g(1) [OF that]] that lt by simp
  have "map_out (\<lambda>i. bind_out (slot_data self i) shred_data) (map word_of_nat [a..<Suc b]) =
      Inr (map (\<lambda>x. payload (g (unat x))) (map word_of_nat [a..<Suc b] :: u32 list))"
    by (rule map_out_Inr) (use data gs lt in \<open>auto simp: shred_data_payload unat_u32\<close>)
  also have "map (\<lambda>x. payload (g (unat x))) (map word_of_nat [a..<Suc b] :: u32 list) = map payload (map g [a..<Suc b])"
    using lt by (auto simp: unat_u32)
  finally have parts: "map_out (\<lambda>i. bind_out (slot_data self i) shred_data) (map word_of_nat [a..<Suc b]) =
      Inr (map payload (map g [a..<Suc b]))" .
  obtain c where c: "bs_insert_range B (sl_consumed self) a (b + 1) = Some c" "bs_len B c = 32768"
      "\<And>j. bs_contains B c j \<longleftrightarrow> a \<le> j \<and> j \<le> b \<or> cons B self j"
    using insert_range_in [of a "b + 1" "sl_consumed self"] bits ab lt by (auto simp: bits_ok_def less_Suc_eq_le)
  define self1 where "self1 = self\<lparr>sl_consumed := c\<rparr>"
  define self2 where "self2 = self1\<lparr>sl_sets := (\<lambda>x. if \<exists>k\<in>set [a div 32..<Suc (b div 32)].
      x = set_key k \<and> full_set B self1 k then None else sl_sets self1 x)\<rparr>"
  note after = slot_ok_consume [OF ok run c(2,3) self1_def self2_def]
  have free: "fold_out (free_set B) (range_step (word_of_nat a - word_of_nat a mod 32) (word_of_nat b)) self1 = Inr self2"
    unfolding base_word ua range_step_eq [OF lt div_le_mono [OF ab]] self2_def
    by (rule fold_free_sets [OF after(1)]) (use lt in auto)
  let ?seg = "\<lparr>seg_start = word_of_nat a, seg_end = word_of_nat b, seg_bytes = concat (map payload (map g [a..<Suc b])),
     seg_last_in_slot = last_in_slot (g b)\<rparr>"
  have find: "find_segment B self index = Some (word_of_nat a, word_of_nat b)"
    using find_segment_iff [of B self index] recv_less [OF bits] run i by blast
  have idx: "\<not> index \<ge> MAX_SHREDS_PER_SLOT" using i lt by (simp add: word_le_nat_alt)
  have "try_complete B index (self, out) = Inr (self2, out @ [?seg])"
    unfolding try_complete_def
    using new idx find data [of b] ab lt c(1) free
    by (simp add: range_incl_eq parts ua self1_def [symmetric] Let_def del: upt_Suc map_map)
  moreover have "segment_ok (recv B self) (compl B self) P ?seg"
    unfolding segment_ok_def segment.simps ua
  proof (intro conjI exI [of _ "map g [a..<Suc b]"])
    show "map (unat \<circ> s_index) (map g [a..<Suc b]) = [a..<Suc b]"
      by (rule index_lists_eq) (use gs in blast)
  qed (use run g(2) gs ab in auto)
  moreover have "frees B self self2"
    unfolding frees_def
  proof
    fix fec
    have "unat fec div 32 = k" if "fec = set_key k" "k \<le> b div 32" for k
      using that lt unat_set_key [of k] by simp
    then show "sl_sets self2 fec = sl_sets self fec \<or> full_set B self2 (unat fec div 32)"
      by (auto simp: self2_def self1_def full_set_def)
  qed
  ultimately show ?thesis
    using after(2) fresh c(3)
    by (intro exI [of _ self2] exI [of _ ?seg]) (auto simp: same_bits_def self2_def self1_def ua cons_set_def)
qed

lemma try_complete_skip:
  assumes "slot_ok B P self" and "\<not> (\<exists>a b. slot_run B self a b \<and> a \<le> unat index \<and> unat index \<le> b \<and> \<not> cons B self (unat index))"
  shows "try_complete B index (self, out) = Inr (self, out)"
proof -
  have "\<forall>i. recv B self i \<longrightarrow> i < 32768" using assms(1) recv_less by (auto simp: slot_ok_def)
  note find = find_segment_iff [OF this, of index]
  have "find_segment B self index = None" if "\<not> cons B self (unat index)"
  proof (cases "find_segment B self index")
    case (Some p)
    then show ?thesis using find assms(2) that by (cases p) blast
  qed
  then show ?thesis by (auto simp: try_complete_def)
qed

lemma try_complete_post:
  assumes "slot_ok B P self"
  shows "\<exists>self' segs. try_complete B index (self, out) = Inr (self', out @ segs) \<and> emits B P self self' segs \<and>
    (\<forall>a b. slot_run B self a b \<and> a \<le> unat index \<and> unat index \<le> b \<longrightarrow> cons B self' (unat index))"
proof (cases "\<exists>a b. slot_run B self a b \<and> a \<le> unat index \<and> unat index \<le> b \<and> \<not> cons B self (unat index)")
  case True
  then obtain a b where ab: "slot_run B self a b" "a \<le> unat index" "unat index \<le> b" "\<not> cons B self (unat index)" by blast
  from try_complete_run [OF assms ab, of out] obtain self' seg where
    post: "try_complete B index (self, out) = Inr (self', out @ [seg])" "slot_ok B P self'" "same_bits self self'"
      "segment_ok (recv B self) (compl B self) P seg" "unat (seg_start seg) = a" "unat (seg_end seg) = b"
      "seg_range seg \<inter> cons_set B self = {}" "cons_set B self' = cons_set B self \<union> seg_range seg" "frees B self self'" by blast
  have "unat index \<in> cons_set B self'" using post(5,6,8) ab(2,3) by simp
  with post show ?thesis
    by (intro exI [of _ self'] exI [of _ "[seg]"]) (auto simp: emits_def cons_set_def)
next
  case False
  from try_complete_skip [OF assms False] show ?thesis
    using False assms by (intro exI [of _ self] exI [of _ "[]"]) (auto simp: emits_def same_bits_def frees_refl)
qed

lemma complete_fresh_post:
  assumes "slot_ok B P self" and "unat i < 32768"
  shows "\<exists>self' segs. complete_fresh B i (self, out) = Inr (self', out @ segs) \<and> emits B P self self' segs \<and>
    closes B self (unat i) self'"
proof -
  obtain self1 s1 where p1: "try_complete B i (self, out) = Inr (self1, out @ s1)" "emits B P self self1 s1"
    "\<And>a b. slot_run B self a b \<Longrightarrow> a \<le> unat i \<Longrightarrow> unat i \<le> b \<Longrightarrow> cons B self1 (unat i)"
    using try_complete_post [OF assms(1), of i out] by blast
  have ok1: "slot_ok B P self1" and bits1: "bits_ok B self1" using p1(2) by (auto simp: emits_def slot_ok_def)
  have first: "cons B self1 a" if "slot_run B self a b" "a \<le> unat i" "unat i \<le> b" for a b
    using p1(3) [OF that] run_closed [OF bits1, of a b "unat i" a] that emits_run [OF p1(2)] by auto
  have Suc: "unat (i + 1) = unat i + 1" using assms(2) by (rule unat_Suc_index)
  show ?thesis
  proof (cases "compl B self (unat i)")
    case False
    then show ?thesis
      using p1(1,2) first emits_run [OF p1(2)]
      by (intro exI [of _ self1] exI [of _ s1]) (auto simp: complete_fresh_def closes_def)
  next
    case True
    obtain self2 s2 where p2: "try_complete B (i + 1) (self1, out @ s1) = Inr (self2, (out @ s1) @ s2)"
      "emits B P self1 self2 s2"
      "\<And>a b. slot_run B self1 a b \<Longrightarrow> a \<le> unat (i + 1) \<Longrightarrow> unat (i + 1) \<le> b \<Longrightarrow> cons B self2 (unat (i + 1))"
      using try_complete_post [OF ok1, of "i + 1" "out @ s1"] by blast
    have "cons B self2 a" if "slot_run B self a b" "a = unat i + 1" for a b
    proof -
      have "a \<le> b" using that(1) by (simp add: run_of_def)
      moreover have "slot_run B self1 a b" using that(1) emits_run [OF p1(2)] by simp
      ultimately show ?thesis using p2(3) that(2) Suc by simp
    qed
    then have "closes B self (unat i) self2"
      using first emits_cons [OF p2(2)] by (auto simp: closes_def)
    then show ?thesis
      using p1(1) p2(1) True emits_run [OF p1(2)] emits_trans [OF p1(2) p2(2)]
      by (intro exI [of _ self2] exI [of _ "s1 @ s2"]) (simp add: complete_fresh_def)
  qed
qed

lemma fold_complete_post:
  assumes "slot_ok B P self" and "\<forall>i\<in>set fresh. unat i < 32768"
  shows "\<exists>self' segs. fold_out (complete_fresh B) fresh (self, out) = Inr (self', out @ segs) \<and>
    emits B P self self' segs \<and> (\<forall>i\<in>set fresh. closes B self (unat i) self')"
  using assms
proof (induction fresh arbitrary: self out)
  case Nil
  then show ?case by (intro exI [of _ self] exI [of _ "[]"]) (simp add: emits_def same_bits_def frees_refl)
next
  case (Cons i fresh)
  obtain self1 s1 where p1: "complete_fresh B i (self, out) = Inr (self1, out @ s1)" "emits B P self self1 s1"
    "closes B self (unat i) self1"
    using complete_fresh_post [OF Cons.prems(1), of i out] Cons.prems(2) by auto
  have "slot_ok B P self1" using p1(2) by (simp add: emits_def)
  then obtain self2 s2 where p2: "fold_out (complete_fresh B) fresh (self1, out @ s1) = Inr (self2, (out @ s1) @ s2)"
    "emits B P self1 self2 s2" "\<forall>i\<in>set fresh. closes B self1 (unat i) self2"
    using Cons.IH [of self1 "out @ s1"] Cons.prems(2) by auto
  have "closes B self (unat i) self2" using p1(3) emits_cons [OF p2(2)] by (auto simp: closes_def)
  moreover have "closes B self (unat j) self2" if "j \<in> set fresh" for j
  proof -
    have "closes B self1 (unat j) self2 \<longleftrightarrow> closes B self (unat j) self2"
      unfolding closes_def using emits_run [OF p1(2)] by simp
    then show ?thesis using p2(3) that by blast
  qed
  ultimately show ?case
    using p1(1) p2(1) emits_trans [OF p1(2) p2(2)] by (intro exI [of _ self2] exI [of _ "s1 @ s2"]) simp
qed

end

section \<open>Marking the fresh shreds\<close>

text \<open>Index \<open>i\<close> is that of a data shred stored in the set \<open>fec\<close>.\<close>

definition in_set :: "u32 \<Rightarrow> fec_set \<Rightarrow> u32 \<Rightarrow> bool" where
  "in_set fec fs i \<longleftrightarrow> fec \<le> i \<and> unat i - unat fec < 32 \<and> unat i < 32768
     \<and> f_data fs ! (unat i - unat fec) \<noteq> None"

text \<open>The bitmaps after marking, and everything else unchanged.\<close>

definition marked :: "'b bitset_ops \<Rightarrow> u32 \<Rightarrow> fec_set \<Rightarrow> u32 list \<Rightarrow> 'b slot_state \<Rightarrow> 'b slot_state \<Rightarrow> bool" where
  "marked B fec fs fresh self self' \<longleftrightarrow>
     sl_sets self' = sl_sets self \<and> sl_consumed self' = sl_consumed self \<and>
     bs_len B (sl_received self') = bs_len B (sl_received self) \<and>
     bs_len B (sl_complete self') = bs_len B (sl_complete self) \<and>
     (\<forall>j. recv B self' j \<longleftrightarrow> recv B self j \<or> (\<exists>i\<in>set fresh. j = unat i)) \<and>
     (\<forall>j. compl B self' j \<longleftrightarrow> compl B self j \<or>
        (\<exists>i\<in>set fresh. j = unat i \<and> data_complete (the (f_data fs ! (unat i - unat fec)))))"

lemma fec_set_div:
  assumes "in_set fec fs w" and "unat fec mod 32 = 0"
  shows "unat w div 32 = unat fec div 32"
proof -
  obtain q where "unat w = unat fec + q" "q < 32"
    using assms(1) by (auto simp: in_set_def word_le_nat_alt dest: le_Suc_ex)
  then show ?thesis using assms(2) by auto
qed

lemma stored_at_in_set:
  assumes "unat fec mod 32 = 0" and "q < 32"
  shows "stored_at self (unat fec + q) = (case sl_sets self fec of None \<Rightarrow> None | Some fs \<Rightarrow> f_data fs ! q)"
proof -
  have "(unat fec + q) div 32 = unat fec div 32" "(unat fec + q) mod 32 = q" using assms by auto
  then show ?thesis by (simp only: stored_at_def set_key_of [OF assms(1)])
qed

context bit_set
begin

lemma mark_fresh_post:
  assumes "in_set fec fs i" and "length (f_data fs) = 32"
    and "bs_len B (sl_received self) = 32768" and "bs_len B (sl_complete self) = 32768"
  shows "\<exists>self'. mark_fresh B fec fs i self = Inr self' \<and> marked B fec fs [i] self self'"
proof -
  obtain s where s: "f_data fs ! (unat i - unat fec) = Some s" using assms(1) by (auto simp: in_set_def)
  have pos: "unat (i - fec) = unat i - unat fec" using assms(1) by (simp add: in_set_def unat_sub)
  obtain r where r: "bs_insert B (sl_received self) (unat i) = Some r" "bs_len B r = 32768"
      "\<And>j. bs_contains B r j \<longleftrightarrow> j = unat i \<or> recv B self j"
    using insert_in [of "unat i" "sl_received self"] assms(1,3) by (auto simp: in_set_def)
  obtain c where c: "bs_insert B (sl_complete self) (unat i) = Some c" "bs_len B c = 32768"
      "\<And>j. bs_contains B c j \<longleftrightarrow> j = unat i \<or> compl B self j"
    using insert_in [of "unat i" "sl_complete self"] assms(1,4) by (auto simp: in_set_def)
  let ?self = "if data_complete s then self\<lparr>sl_received := r, sl_complete := c\<rparr> else self\<lparr>sl_received := r\<rparr>"
  have "mark_fresh B fec fs i self = Inr ?self"
    using assms(1,2) s r(1) c(1) by (simp add: mark_fresh_def fec_data_def pos in_set_def Let_def)
  moreover have "marked B fec fs [i] self ?self"
    using s r c assms(3,4) by (auto simp: marked_def)
  ultimately show ?thesis by blast
qed

lemma marked_trans:
  assumes "marked B fec fs xs self self1" and "marked B fec fs ys self1 self2"
  shows "marked B fec fs (xs @ ys) self self2"
  using assms unfolding marked_def by auto

lemma fold_mark_post:
  assumes "\<forall>i\<in>set fresh. in_set fec fs i" and "length (f_data fs) = 32"
    and "bs_len B (sl_received self) = 32768" and "bs_len B (sl_complete self) = 32768"
  shows "\<exists>self'. fold_out (mark_fresh B fec fs) fresh self = Inr self' \<and> marked B fec fs fresh self self'"
  using assms(1,3,4)
proof (induction fresh arbitrary: self)
  case Nil
  then show ?case by (simp add: marked_def)
next
  case (Cons i fresh)
  obtain self1 where p1: "mark_fresh B fec fs i self = Inr self1" "marked B fec fs [i] self self1"
    using mark_fresh_post [of fec fs i self] Cons.prems assms(2) by auto
  have "bs_len B (sl_received self1) = 32768" "bs_len B (sl_complete self1) = 32768"
    using p1(2) Cons.prems by (simp_all add: marked_def)
  then obtain self2 where p2: "fold_out (mark_fresh B fec fs) fresh self1 = Inr self2" "marked B fec fs fresh self1 self2"
    using Cons.IH Cons.prems(1) by auto
  then show ?case using p1(1) marked_trans [OF p1(2) p2(2)] by auto
qed

text \<open>
  The old state with its set \<open>fec\<close> replaced by one that has at least the same data shreds, and the
  shreds that are new in it marked.
\<close>

text \<open>Marking fresh indexes: what was received keeps its place and its flag, and what is new is stored.\<close>

lemma marked_old:
  assumes fec: "unat fec mod 32 = 0" and ext: "\<forall>q<32. \<forall>s. stored_at self (unat fec + q) = Some s \<longrightarrow> f_data fs ! q = Some s"
    and fresh: "\<forall>i\<in>set fresh. in_set fec fs i \<and> \<not> recv B self (unat i)"
    and self1: "self1 = self\<lparr>sl_sets := (sl_sets self)(fec \<mapsto> fs)\<rparr>" and marked: "marked B fec fs fresh self1 self3"
    and i: "recv B self i" "i < 32768"
  shows "compl B self3 i \<longleftrightarrow> compl B self i" and "stored_at self i = Some s \<Longrightarrow> stored_at self3 i = Some s"
proof -
  show "compl B self3 i \<longleftrightarrow> compl B self i" using marked fresh i(1) by (auto simp: marked_def self1)
  assume old: "stored_at self i = Some s"
  show "stored_at self3 i = Some s"
  proof (cases "set_key (i div 32) = fec")
    case True
    then have "unat fec = 32 * (i div 32)" using unat_set_key [of "i div 32"] i(2) by auto
    then have "i = unat fec + i mod 32" by simp
    then have "f_data fs ! (i mod 32) = Some s" using ext old by (metis mod_less_divisor zero_less_numeral)
    with True marked show ?thesis by (simp add: stored_at_def marked_def self1)
  next
    case False
    with old marked show ?thesis by (simp add: stored_at_def marked_def self1)
  qed
qed

lemma marked_new:
  assumes bits: "bits_ok B self" and fec: "unat fec mod 32 = 0" and fresh: "\<forall>i\<in>set fresh. in_set fec fs i \<and> \<not> recv B self (unat i)"
    and self1: "self1 = self\<lparr>sl_sets := (sl_sets self)(fec \<mapsto> fs)\<rparr>" and marked: "marked B fec fs fresh self1 self3"
    and i: "recv B self3 i" "\<not> recv B self i"
  shows "\<exists>w\<in>set fresh. i = unat w" and "\<exists>s. stored_at self3 i = Some s \<and> (compl B self3 i \<longleftrightarrow> data_complete s)"
proof -
  show "\<exists>w\<in>set fresh. i = unat w" using marked i by (auto simp: marked_def self1)
  then obtain w where w: "w \<in> set fresh" "i = unat w" by blast
  have inw: "in_set fec fs w" using fresh w(1) by blast
  then obtain s where s: "f_data fs ! (unat w - unat fec) = Some s" by (auto simp: in_set_def)
  then obtain q where q: "q < 32" "i = unat fec + q" "f_data fs ! q = Some s"
    using inw w(2) by (metis in_set_def le_add_diff_inverse word_le_nat_alt)
  have "sl_sets self3 fec = Some fs" using marked by (simp add: marked_def self1)
  then have "stored_at self3 i = Some s" using q stored_at_in_set [OF fec q(1), of self3] by simp
  moreover have "\<not> compl B self i" using i(2) bits by (auto simp: bits_ok_def)
  then have "compl B self3 i \<longleftrightarrow> (\<exists>v\<in>set fresh. i = unat v \<and> data_complete (the (f_data fs ! (unat v - unat fec))))"
    using marked by (simp add: marked_def self1)
  then have "compl B self3 i \<longleftrightarrow> data_complete s" using w q by (metis add_diff_cancel_left' option.sel)
  ultimately show "\<exists>s. stored_at self3 i = Some s \<and> (compl B self3 i \<longleftrightarrow> data_complete s)" by blast
qed

lemma slot_ok_marked:
  assumes ok: "slot_ok B P self"
    and fec: "unat fec < 32768" "unat fec mod 32 = 0" "\<not> full_set B self (unat fec div 32)"
    and fs: "fec_ok fec fs" "\<forall>s. Some s \<in> set (f_data fs @ f_code fs) \<longrightarrow> P s"
    and ext: "\<forall>q<32. \<forall>s. stored_at self (unat fec + q) = Some s \<longrightarrow> f_data fs ! q = Some s"
    and fresh: "\<forall>i\<in>set fresh. in_set fec fs i \<and> \<not> recv B self (unat i)"
    and self1: "self1 = self\<lparr>sl_sets := (sl_sets self)(fec \<mapsto> fs)\<rparr>" and marked: "marked B fec fs fresh self1 self3"
  shows "slot_ok B P self3"
proof -
  have bits: "bits_ok B self" using ok by (simp add: slot_ok_def)
  note old = marked_old [OF fec(2) ext fresh self1 marked _ recv_less [OF bits]] and new = marked_new [OF bits fec(2) fresh self1 marked]
  have full: "full_set B self3 k \<longleftrightarrow> full_set B self k" for k
    using marked by (simp add: marked_def self1 full_set_def)
  have "bits_ok B self3"
    using bits marked by (simp add: bits_ok_def marked_def self1) metis
  moreover have sets3: "sets_ok P self3"
    using ok marked fec fs by (auto simp: slot_ok_def sets_ok_def marked_def self1)
  moreover have "sl_sets self3 (set_key k) = None" if "full_set B self3 k" for k
  proof -
    have k: "full_set B self k" using that full by simp
    then have "cons B self (32 * k + 0)" unfolding full_set_def by (metis zero_less_numeral)
    then have "32 * k + 0 < 32768" using recv_less [OF bits] bits by (metis bits_ok_def)
    then have "set_key k \<noteq> fec" using unat_set_key [of k] k fec(3) by auto
    then show ?thesis using k ok marked by (simp add: slot_ok_def link_ok_def marked_def self1)
  qed
  moreover have link: "full_set B self3 (i div 32) \<or> (\<exists>s. stored_at self3 i = Some s \<and> (compl B self3 i \<longleftrightarrow> data_complete s))"
    if "recv B self3 i" for i
    using new(2) [OF that] old ok full by (cases "recv B self i") (auto simp: slot_ok_def link_ok_def)
  moreover have "prov_ok B P self3"
    unfolding prov_ok_def
  proof (intro allI impI)
    fix i assume r: "recv B self3 i"
    show "\<exists>s. shred_ok s \<and> s_kind s = Data \<and> P s \<and> unat (s_index s) = i \<and> (compl B self3 i \<longleftrightarrow> data_complete s)"
    proof (cases "recv B self i")
      case True
      then show ?thesis using ok old(1) by (simp add: slot_ok_def prov_ok_def)
    next
      case False
      then obtain w where "w \<in> set fresh" "i = unat w" using new(1) [OF r] by blast
      then have "i < 32768" "\<not> full_set B self3 (i div 32)"
        using fresh fec full fec_set_div [of fec fs w] by (auto simp: in_set_def)
      then obtain s where s: "stored_at self3 i = Some s" "compl B self3 i \<longleftrightarrow> data_complete s"
        using link [OF r] by blast
      then show ?thesis
        using stored_atE [OF sets3 s(1) \<open>i < 32768\<close>] by metis
    qed
  qed
  ultimately show ?thesis by (simp add: slot_ok_def link_ok_def)
qed

lemma settled_after:
  assumes "settled B self" and "self1 = self\<lparr>sl_sets := m\<rparr>" and "marked B fec fs fresh self1 self3"
    and "emits B P self3 self4 segs" and "\<forall>i\<in>set fresh. closes B self3 (unat i) self4"
  shows "settled B self4"
  unfolding settled_def
proof (intro allI impI)
  fix a b assume "slot_run B self4 a b"
  then have run: "slot_run B self3 a b" using emits_run [OF assms(4)] by simp
  show "cons B self4 a"
  proof (cases "\<exists>i\<in>set fresh. a \<le> unat i \<and> unat i \<le> b \<or> compl B self3 (unat i) \<and> a = unat i + 1")
    case True
    with run assms(5) show ?thesis by (auto simp: closes_def)
  next
    case False
    have R: "recv B self3 j \<longleftrightarrow> recv B self j" "compl B self3 j \<longleftrightarrow> compl B self j" if "\<forall>i\<in>set fresh. j \<noteq> unat i" for j
      using assms(3) that by (auto simp: marked_def assms(2))
    have inner: "recv B self3 j = recv B self j \<and> compl B self3 j = compl B self j" if "a \<le> j" "j \<le> b" for j
      using R [of j] False that by blast
    have "compl B self (a - 1)" if "a \<noteq> 0" "compl B self3 (a - 1)"
    proof -
      have "\<forall>i\<in>set fresh. a - 1 \<noteq> unat i" using False that by (metis Suc_diff_1 Suc_eq_plus1 bot_nat_0.not_eq_extremum)
      then show ?thesis using R that by blast
    qed
    with run have "slot_run B self a b" using inner unfolding run_of_def by (metis le_refl less_imp_le)
    then have "cons B self a" using assms(1) unfolding settled_def by blast
    then have "cons B self3 a" using assms(3) by (simp add: marked_def assms(2))
    then show ?thesis by (rule emits_cons [OF assms(4)])
  qed
qed

text \<open>The set an arriving shred is inserted into.\<close>

lemma slot_set_entry:
  assumes "slot_ok B P self" and "unat fec < 32768" and "unat fec mod 32 = 0"
    and "fs = (case sl_sets self fec of None \<Rightarrow> fec_default | Some s \<Rightarrow> s)"
  shows "fec_ok fec fs" and "\<forall>s. Some s \<in> set (f_data fs @ f_code fs) \<longrightarrow> P s"
    and "\<forall>q<32. \<forall>s. stored_at self (unat fec + q) = Some s \<longrightarrow> f_data fs ! q = Some s"
    and "\<not> full_set B self (unat fec div 32) \<Longrightarrow> q < 32 \<Longrightarrow> f_data fs ! q = None \<Longrightarrow> \<not> recv B self (unat fec + q)"
proof -
  show "fec_ok fec fs"
    using assms(1,4) fec_ok_default by (auto simp: slot_ok_def sets_ok_def split: option.split)
  show "\<forall>s. Some s \<in> set (f_data fs @ f_code fs) \<longrightarrow> P s"
    using assms(1,4) by (cases "sl_sets self fec") (auto simp: slot_ok_def sets_ok_def fec_default_def)
  show ext: "\<forall>q<32. \<forall>s. stored_at self (unat fec + q) = Some s \<longrightarrow> f_data fs ! q = Some s"
    using assms(4) by (auto simp: stored_at_in_set [OF assms(3)] split: option.splits)
  assume nf: "\<not> full_set B self (unat fec div 32)" and q: "q < 32" "f_data fs ! q = None"
  have "(unat fec + q) div 32 = unat fec div 32" using assms(3) q(1) by auto
  then show "\<not> recv B self (unat fec + q)"
    using assms(1) nf ext q by (auto simp: slot_ok_def link_ok_def)
qed

end

section \<open>Insertion into a slot\<close>

lemma aligned_in_slot:
  assumes "n < 32768" and "n mod 32 = 0" and "q < (32::nat)"
  shows "n + q < 32768"
proof -
  obtain k where k: "n = 32 * k" using assms(2) by (auto elim: dvdE)
  with assms(1) have "k \<le> 1023" by simp
  with assms(3) k show ?thesis by simp
qed

lemma fold_push_fresh:
  "length fresh + length ix \<le> 32 \<Longrightarrow> fold_out push_fresh ix fresh = Inr (fresh @ ix)"
  by (induction ix arbitrary: fresh) (simp_all add: push_fresh_def)

text \<open>Recovery keeps a property of the stored shreds.\<close>

definition rs_keeps :: "(shred \<Rightarrow> bool) \<Rightarrow> 'r reconstructor \<Rightarrow> bool" where
  "rs_keeps P rs \<longleftrightarrow> (\<forall>fec fs fs' result.
     fec_ok fec fs \<and> can_recover fs \<and> (\<forall>s. Some s \<in> set (f_data fs @ f_code fs) \<longrightarrow> P s) \<and>
     (fec_recover rs fs :: (unit, _) outcome) = Inr (fs', result) \<longrightarrow>
     (\<forall>s. Some s \<in> set (f_data fs' @ f_code fs') \<longrightarrow> P s))"

definition rs_ok :: "(shred \<Rightarrow> bool) \<Rightarrow> 'r reconstructor option \<Rightarrow> bool" where
  "rs_ok P rs \<longleftrightarrow> (\<forall>r. rs = Some r \<longrightarrow> rs_in_place r \<and> rs_keeps P r)"

lemma length_missing:
  "length (f_data fs) = 32 \<Longrightarrow> length (missing_from fs 0) + count_some (f_data fs) = 32"
proof -
  assume len: "length (f_data fs) = 32"
  have "count_some (f_data fs) = length (filter (\<lambda>q. f_data fs ! q \<noteq> None) [0..<32])"
    using count_some_map [of "\<lambda>q. f_data fs ! q" "[0..<32]"] map_nth [of "f_data fs"] len by simp
  then show ?thesis
    using sum_length_filter_compl [of "\<lambda>q. f_data fs ! q = None" "[0..<32]"] by (simp add: missing_from_def)
qed

definition recover_stats :: "u32 list \<Rightarrow> stats \<Rightarrow> stats \<Rightarrow> bool" where
  "recover_stats ix st st' \<longleftrightarrow> st' = add recovered (word_of_nat (length ix)) st \<or> ix = [] \<and> st' = inc recovery_failures st"

lemma recover_step_post:
  assumes "fec_ok fec fs" and "\<forall>s. Some s \<in> set (f_data fs @ f_code fs) \<longrightarrow> P s" and "rs_ok P rs"
    and "length fresh \<le> count_some (f_data fs)"
  shows "\<exists>fs' ix st'. recover_step rs fs fresh st = Inr (fs', fresh @ ix, st') \<and> fec_ok fec fs' \<and>
    (\<forall>s. Some s \<in> set (f_data fs' @ f_code fs') \<longrightarrow> P s) \<and>
    (\<forall>q<32. f_data fs ! q \<noteq> None \<longrightarrow> f_data fs' ! q = f_data fs ! q) \<and>
    (\<forall>i\<in>set ix. \<exists>q<32. i = fec + word_of_nat q \<and> f_data fs ! q = None \<and> f_data fs' ! q \<noteq> None) \<and>
    recover_stats ix st st'"
proof (cases "rs = None \<or> \<not> can_recover fs")
  case True
  then have "recover_step rs fs fresh st = Inr (fs, fresh @ [], st)" by (auto simp: recover_step_def split: option.split)
  moreover have "recover_stats [] st st" by (simp add: recover_stats_def add_def)
  ultimately show ?thesis using assms(1,2) by (intro exI [of _ fs] exI [of _ "[]"] exI [of _ st]) auto
next
  case False
  then obtain r where r: "rs = Some r" "can_recover fs" by auto
  have place: "rs_in_place r" "rs_keeps P r" using assms(3) r(1) by (simp_all add: rs_ok_def)
  obtain fs' result where rec: "(fec_recover r fs :: (unit, _) outcome) = Inr (fs', result)"
    and post: "recover_post fec fs fs' result"
    using fec_recover_post [OF assms(1) r(2) place(1)] by blast
  have P: "\<forall>s. Some s \<in> set (f_data fs' @ f_code fs') \<longrightarrow> P s"
    using place(2) assms(1,2) r(2) rec unfolding rs_keeps_def by blast
  have lens: "length (f_data fs) = 32" using assms(1) by (simp add: fec_ok_def fec_arrays_ok_def)
  show ?thesis
  proof (cases result)
    case (Inl e)
    then show ?thesis
      using rec r post P
      by (intro exI [of _ fs'] exI [of _ "[]"] exI [of _ "inc recovery_failures st"])
        (simp add: recover_step_def recover_post_def recover_stats_def)
  next
    case (Inr ix)
    then have ix: "ix = map (\<lambda>q. fec + word_of_nat q) (missing_from fs 0)" and comp: "is_complete fs'"
      using post by (simp_all add: recover_post_def)
    have "length fresh + length ix \<le> 32" using length_missing [OF lens] assms(4) ix by simp
    moreover have "\<forall>q<32. f_data fs' ! q \<noteq> None"
      using comp is_complete_iff [of fec fs'] post by (auto simp: recover_post_def fec_ok_def)
    then have "\<forall>i\<in>set ix. \<exists>q<32. i = fec + word_of_nat q \<and> f_data fs ! q = None \<and> f_data fs' ! q \<noteq> None"
      unfolding ix missing_from_def by auto
    ultimately show ?thesis
      using rec r post P Inr
      by (intro exI [of _ fs'] exI [of _ ix] exI [of _ "add recovered (word_of_nat (length ix)) st"])
        (simp add: recover_step_def recover_post_def recover_stats_def fold_push_fresh)
  qed
qed

text \<open>The counters: either the shred is classified once and nothing is emitted, or recovery is counted.\<close>

definition slot_stats :: "segment list \<Rightarrow> stats \<Rightarrow> stats \<Rightarrow> bool" where
  "slot_stats segs st st' \<longleftrightarrow>
     segs = [] \<and> (\<exists>c\<in>{duplicates, unneeded, rejected}. st' = inc c st) \<or> (\<exists>ix. recover_stats ix st st')"

text \<open>What one insertion does to the slot and to the output.\<close>

definition slot_post :: "'b bitset_ops \<Rightarrow> (shred \<Rightarrow> bool) \<Rightarrow> 'b slot_state \<Rightarrow> stats \<Rightarrow>
    'b slot_state \<Rightarrow> stats \<Rightarrow> segment list \<Rightarrow> bool" where
  "slot_post B P self st self' st' segs \<longleftrightarrow>
     slot_ok B P self' \<and> settled B self' \<and>
     (\<forall>i. recv B self i \<longrightarrow> recv B self' i \<and> (compl B self' i \<longleftrightarrow> compl B self i)) \<and>
     emission (segment_ok (recv B self') (compl B self') P) (cons_set B self) segs (cons_set B self') \<and>
     slot_stats segs st st'"

text \<open>
  How the insertion got there: the shred was known to be useless, or its set did not take it, or it was
  accepted, recovery may have added data shreds, and exactly the fresh ones are newly received.
\<close>

definition set_entry :: "'b slot_state \<Rightarrow> u32 \<Rightarrow> fec_set" where
  "set_entry self fec = (case sl_sets self fec of None \<Rightarrow> fec_default | Some s \<Rightarrow> s)"

definition accepted :: "'b bitset_ops \<Rightarrow> 'r reconstructor option \<Rightarrow> u32 \<Rightarrow> fec_set \<Rightarrow> u32 list \<Rightarrow>
    'b slot_state \<Rightarrow> 'b slot_state \<Rightarrow> bool" where
  "accepted B rs fec fs fresh0 self self' \<longleftrightarrow> (\<exists>fs2 fresh st st2. recover_step rs fs fresh0 st = Inr (fs2, fresh, st2) \<and>
     (\<forall>i. recv B self' i \<longleftrightarrow> recv B self i \<or> (\<exists>w\<in>set fresh. i = unat w)) \<and>
     (\<forall>f. sl_sets self' f = (if f = fec then Some fs2 else sl_sets self f) \<or> full_set B self' (unat f div 32)))"

definition slot_detail :: "'b bitset_ops \<Rightarrow> hasher \<Rightarrow> 'r reconstructor option \<Rightarrow> 'b slot_state \<Rightarrow> shred \<Rightarrow> 'b slot_state \<Rightarrow> bool" where
  "slot_detail B hashv rs self x self' \<longleftrightarrow> (let fec = s_fec_set_index x; fs = set_entry self fec in
     self' = self \<and> (is_data x \<and> recv B self (unat (s_index x)) \<or> \<not> is_data x \<and> full_set B self (unat fec div 32)) \<or>
     (\<exists>fs1 v. fec_insert hashv fs x = (Inr (fs1, v) :: (unit, _) outcome) \<and>
       (if v = New then accepted B rs fec fs1 (if is_data x then [s_index x] else []) self self'
        else self' = self\<lparr>sl_sets := (sl_sets self)(fec \<mapsto> fs1)\<rparr>)))"

context bit_set
begin

text \<open>An accepted shred: recovery, marking and emission.\<close>

lemma slot_accept:
  assumes ok: "slot_ok B P self" and settled: "settled B self"
    and fec: "unat fec < 32768" "unat fec mod 32 = 0" "\<not> full_set B self (unat fec div 32)"
    and fs1: "fec_ok fec fs1" "\<forall>s. Some s \<in> set (f_data fs1 @ f_code fs1) \<longrightarrow> P s"
    and ext: "\<forall>q<32. \<forall>s. stored_at self (unat fec + q) = Some s \<longrightarrow> f_data fs1 ! q = Some s"
    and miss: "\<forall>q<32. f_data fs1 ! q = None \<longrightarrow> \<not> recv B self (unat fec + q)"
    and fresh0: "\<forall>i\<in>set fresh0. in_set fec fs1 i \<and> \<not> recv B self (unat i)"
    and count: "length fresh0 \<le> count_some (f_data fs1)" and rs: "rs_ok P rs"
  shows "\<exists>self4 st2 segs. bind_out (recover_step rs fs1 fresh0 st) (\<lambda>(fs2, fresh, st2).
      bind_out (fold_out (mark_fresh B fec fs2) fresh (self\<lparr>sl_sets := (sl_sets self)(fec \<mapsto> fs2)\<rparr>)) (\<lambda>self3.
      bind_out (fold_out (complete_fresh B) fresh (self3, out)) (\<lambda>(self4, out4). Inr (self4, st2, out4)))) =
    Inr (self4, st2, out @ segs) \<and> slot_post B P self st self4 st2 segs \<and> accepted B rs fec fs1 fresh0 self self4"
proof -
  obtain fs2 ix st2 where step: "recover_step rs fs1 fresh0 st = Inr (fs2, fresh0 @ ix, st2)"
    and fs2: "fec_ok fec fs2" "\<forall>s. Some s \<in> set (f_data fs2 @ f_code fs2) \<longrightarrow> P s"
    and keep: "\<forall>q<32. f_data fs1 ! q \<noteq> None \<longrightarrow> f_data fs2 ! q = f_data fs1 ! q"
    and ix: "\<forall>i\<in>set ix. \<exists>q<32. i = fec + word_of_nat q \<and> f_data fs1 ! q = None \<and> f_data fs2 ! q \<noteq> None"
    and st2: "recover_stats ix st st2"
    using recover_step_post [OF fs1 rs count, of st] by blast
  let ?fresh = "fresh0 @ ix" and ?self1 = "self\<lparr>sl_sets := (sl_sets self)(fec \<mapsto> fs2)\<rparr>"
  have "in_set fec fs2 i \<and> \<not> recv B self (unat i)" if "i \<in> set fresh0" for i
    using fresh0 that keep by (auto simp: in_set_def)
  moreover have "in_set fec fs2 i \<and> \<not> recv B self (unat i)" if i: "i \<in> set ix" for i
  proof -
    obtain q where q: "q < 32" "i = fec + word_of_nat q" "f_data fs1 ! q = None" "f_data fs2 ! q \<noteq> None"
      using bspec [OF ix i] by blast
    have u: "unat i = unat fec + q" unfolding q(2) by (rule aligned_plus [OF fec(2) q(1)])
    have "unat fec + q < 32768" by (rule aligned_in_slot [OF fec(1,2) q(1)])
    then show ?thesis using miss q(1,3,4) u by (simp add: in_set_def word_le_nat_alt)
  qed
  ultimately have fresh: "\<forall>i\<in>set ?fresh. in_set fec fs2 i \<and> \<not> recv B self (unat i)" by auto
  have len: "length (f_data fs2) = 32" using fs2(1) by (simp add: fec_ok_def fec_arrays_ok_def)
  have "bs_len B (sl_received ?self1) = 32768" "bs_len B (sl_complete ?self1) = 32768"
    using ok by (simp_all add: slot_ok_def bits_ok_def)
  then obtain self3 where mark: "fold_out (mark_fresh B fec fs2) ?fresh ?self1 = Inr self3"
    and marked: "marked B fec fs2 ?fresh ?self1 self3"
    using fold_mark_post [of ?fresh fec fs2 ?self1] fresh len by blast
  have ext2: "\<forall>q<32. \<forall>s. stored_at self (unat fec + q) = Some s \<longrightarrow> f_data fs2 ! q = Some s"
    using ext keep by (metis option.distinct(1))
  have ok3: "slot_ok B P self3" by (rule slot_ok_marked [OF ok fec fs2 ext2 fresh refl marked])
  have "\<forall>i\<in>set ?fresh. unat i < 32768" using fresh by (auto simp: in_set_def)
  then obtain self4 segs where complete: "fold_out (complete_fresh B) ?fresh (self3, out) = Inr (self4, out @ segs)"
    and emits: "emits B P self3 self4 segs" and closes: "\<forall>i\<in>set ?fresh. closes B self3 (unat i) self4"
    using fold_complete_post [OF ok3] by blast
  have "settled B self4" by (rule settled_after [OF settled refl marked emits closes])
  moreover have "cons_set B self3 = cons_set B self" using marked by (simp add: marked_def cons_set_def)
  moreover have "slot_stats segs st st2" using st2 by (auto simp: slot_stats_def)
  ultimately have "slot_post B P self st self4 st2 segs"
    using emits marked emits_run [OF emits] fresh by (auto simp: slot_post_def emits_def marked_def)
  moreover have "accepted B rs fec fs1 fresh0 self self4"
    unfolding accepted_def
  proof (intro exI conjI)
    show "recover_step rs fs1 fresh0 st = Inr (fs2, ?fresh, st2)" by (rule step)
    show "\<forall>i. recv B self4 i \<longleftrightarrow> recv B self i \<or> (\<exists>w\<in>set ?fresh. i = unat w)"
      using marked emits_run [OF emits] by (simp add: marked_def)
    show "\<forall>f. sl_sets self4 f = (if f = fec then Some fs2 else sl_sets self f) \<or> full_set B self4 (unat f div 32)"
      using emits marked by (auto simp: emits_def frees_def marked_def)
  qed
  ultimately show ?thesis using step mark complete by auto
qed

lemma slot_post_unchanged:
  assumes "slot_ok B P self'" and "settled B self" and "same_bits self self'" and "cons_set B self' = cons_set B self"
    and "\<exists>c\<in>{duplicates, unneeded, rejected}. st' = inc c st"
  shows "slot_post B P self st self' st' []"
proof -
  have "cons B self' = cons B self" using assms(4) by (auto simp: cons_set_def)
  then have "settled B self'" using assms(2,3) unfolding settled_def same_bits_def by simp
  then show ?thesis using assms by (simp add: slot_post_def same_bits_def slot_stats_def)
qed

lemma not_full_data:
  assumes "bits_ok B self" and "shred_ok x" and "is_data x" and "\<not> recv B self (unat (s_index x))"
  shows "\<not> full_set B self (unat (s_fec_set_index x) div 32)"
proof
  assume full: "full_set B self (unat (s_fec_set_index x) div 32)"
  let ?p = "erasure_shard_index x"
  have "data_at (s_fec_set_index x) ?p x" "?p < 32"
    using shred_position(1) [OF assms(2) refl] assms(3) by (auto simp: is_data_def)
  moreover have "32 * (unat (s_fec_set_index x) div 32) = unat (s_fec_set_index x)"
    using assms(2) mult_div_mod_eq [of 32 "unat (s_fec_set_index x)"] by (simp add: shred_ok_def)
  ultimately have "cons B self (unat (s_index x))"
    using full unfolding full_set_def by (metis data_at_def)
  then show False using assms(1,4) by (auto simp: bits_ok_def)
qed

text \<open>The state of the set after \<open>FecSet::insert\<close>, as the slot needs it.\<close>

lemma insert_into_set:
  assumes ok: "slot_ok B P self" and x: "shred_ok x" "P x" and fec: "fec = s_fec_set_index x" "unat fec < 32768"
    and nf: "\<not> full_set B self (unat fec div 32)" and hash: "digest32 hashv"
    and new: "is_data x \<Longrightarrow> \<not> recv B self (unat (s_index x))"
    and fs: "fs = (case sl_sets self fec of None \<Rightarrow> fec_default | Some s \<Rightarrow> s)"
  shows "\<exists>fs1 v. fec_insert hashv fs x = (Inr (fs1, v) :: (fec_set \<times> insert_result) run) \<and> fec_ok fec fs1 \<and>
    (\<forall>s. Some s \<in> set (f_data fs1 @ f_code fs1) \<longrightarrow> P s) \<and>
    (\<forall>q<32. \<forall>s. stored_at self (unat fec + q) = Some s \<longrightarrow> f_data fs1 ! q = Some s) \<and>
    (\<forall>q<32. f_data fs1 ! q = None \<longrightarrow> \<not> recv B self (unat fec + q)) \<and>
    (v = New \<and> is_data x \<longrightarrow> in_set fec fs1 (s_index x) \<and> 0 < count_some (f_data fs1))"
proof -
  have al: "unat fec mod 32 = 0" using x(1) fec(1) by (simp add: shred_ok_def)
  note entry = slot_set_entry [OF ok fec(2) al fs]
  let ?v = "insert_verdict hashv fs x" and ?p = "erasure_shard_index x"
  have lens: "length (f_data fs) = 32" using entry(1) by (simp add: fec_ok_def fec_arrays_ok_def)
  obtain fs1 where ins: "(fec_insert hashv fs x :: (unit, _) outcome) = Inr (fs1, ?v)" "fec_ok fec fs1"
    and same: "?v \<noteq> New \<Longrightarrow> fs1 = fs"
    and data: "?v = New \<Longrightarrow> s_kind x = Data \<Longrightarrow> f_data fs ! ?p = None \<and> f_data fs1 = (f_data fs)[?p := Some x]"
    and code: "?v = New \<Longrightarrow> s_kind x = Code \<Longrightarrow> f_data fs1 = f_data fs"
    using fec_ok_insert [OF entry(1) x(1) fec(1) [symmetric] hash] by metis
  have P1: "\<forall>s. Some s \<in> set (f_data fs1 @ f_code fs1) \<longrightarrow> P s"
    using fec_insert_stored [OF entry(1) x(1) fec(1) [symmetric] hash ins(1)] entry(2) x(2) by blast
  have grow: "f_data fs ! q \<noteq> None \<longrightarrow> f_data fs1 ! q = f_data fs ! q" for q
    using same data code by (cases "?v = New"; cases "s_kind x"; cases "q = ?p") auto
  have none: "f_data fs1 ! q = None \<longrightarrow> f_data fs ! q = None" for q
    using grow [of q] by auto
  have placed: "in_set fec fs1 (s_index x) \<and> 0 < count_some (f_data fs1)" if "?v = New \<and> is_data x"
  proof -
    have kind: "s_kind x = Data" using that by (simp add: is_data_def)
    then have p: "?p < 32" "data_at fec ?p x" using shred_position(1) [OF x(1) fec(1) [symmetric]] by auto
    have d: "f_data fs1 = (f_data fs)[?p := Some x]" using data kind that by blast
    have "unat (s_index x) = unat fec + ?p" using p(2) by (simp add: data_at_def)
    moreover have "unat fec + ?p < 32768" by (rule aligned_in_slot [OF fec(2) al p(1)])
    moreover have "f_data fs1 ! ?p = Some x" using d p(1) lens by simp
    moreover have "Some x \<in> set (f_data fs1)" using d p(1) lens by (simp add: set_update_memI)
    ultimately show ?thesis using p(1) count_some_pos by (auto simp: in_set_def word_le_nat_alt)
  qed
  have "\<forall>q<32. \<forall>s. stored_at self (unat fec + q) = Some s \<longrightarrow> f_data fs1 ! q = Some s"
    using entry(3) grow by (metis option.distinct(1))
  moreover have "\<forall>q<32. f_data fs1 ! q = None \<longrightarrow> \<not> recv B self (unat fec + q)"
    using entry(4) [OF nf] none by blast
  ultimately show ?thesis using ins P1 placed by blast
qed

text \<open>A shred that is known to be useless, and one that its set does not take.\<close>

lemma slot_insert_useless:
  assumes ok: "slot_ok B P self" "settled B self"
    and useless: "is_data x \<and> recv B self (unat (s_index x)) \<or> \<not> is_data x \<and> full_set B self (unat (s_fec_set_index x) div 32)"
    and consumed: "set_is_consumed B self (s_fec_set_index x) = Inr (full_set B self (unat (s_fec_set_index x) div 32))"
  shows "\<exists>self' st' segs. slot_insert B hashv rs self x st out = Inr (self', st', out @ segs) \<and>
    slot_post B P self st self' st' segs \<and> slot_detail B hashv rs self x self'"
proof -
  let ?c = "if is_data x then duplicates else unneeded"
  have "slot_insert B hashv rs self x st out = Inr (self, inc ?c st, out @ [])"
    using useless consumed by (auto simp: slot_insert_def)
  moreover have "slot_post B P self st self (inc ?c st) []"
    by (rule slot_post_unchanged [OF ok]) (auto simp: same_bits_def)
  moreover have "slot_detail B hashv rs self x self" using useless by (auto simp: slot_detail_def)
  ultimately show ?thesis by blast
qed

lemma slot_insert_refused:
  assumes ok: "slot_ok B P self" "settled B self" and own: "fec = s_fec_set_index x"
    and fec: "unat fec < 32768" "unat fec mod 32 = 0" "\<not> full_set B self (unat fec div 32)"
    and go: "is_data x \<Longrightarrow> \<not> recv B self (unat (s_index x))" "set_is_consumed B self fec = Inr False"
    and ins: "fec_insert hashv (set_entry self fec) x = (Inr (fs1, v) :: (fec_set \<times> insert_result) run)" "v \<noteq> New"
    and fs1: "fec_ok fec fs1" "\<forall>s. Some s \<in> set (f_data fs1 @ f_code fs1) \<longrightarrow> P s"
    and ext: "\<forall>q<32. \<forall>s. stored_at self (unat fec + q) = Some s \<longrightarrow> f_data fs1 ! q = Some s"
  shows "\<exists>self' st' segs. slot_insert B hashv rs self x st out = Inr (self', st', out @ segs) \<and>
    slot_post B P self st self' st' segs \<and> slot_detail B hashv rs self x self'"
proof -
  let ?self1 = "self\<lparr>sl_sets := (sl_sets self)(fec \<mapsto> fs1)\<rparr>"
  have guard: "\<not> (is_data x \<and> recv B self (unat (s_index x)))" using go(1) by blast
  have cons: "(if is_data x then Inr False else set_is_consumed B self fec) = Inr False" using go(2) by simp
  note unf = slot_insert_def Let_def own [symmetric] cons set_entry_def [symmetric] ins(1)
  have "marked B fec fs1 [] ?self1 ?self1" by (simp add: marked_def)
  then have "slot_ok B P ?self1"
    by (intro slot_ok_marked [OF ok(1) fec fs1 ext _ refl]) auto
  then have "slot_post B P self st ?self1 (inc c st) []" if "c \<in> {duplicates, unneeded, rejected}" for c
    by (rule slot_post_unchanged [OF _ ok(2)]) (use that in \<open>auto simp: same_bits_def cons_set_def\<close>)
  moreover obtain c where "c \<in> {duplicates, unneeded, rejected}"
    "slot_insert B hashv rs self x st out = Inr (?self1, inc c st, out @ [])"
    using ins(2) guard by (cases v) (auto simp: unf)
  moreover have "slot_detail B hashv rs self x ?self1" using ins own by (auto simp: slot_detail_def Let_def)
  ultimately show ?thesis by blast
qed

lemma slot_insert_post:
  assumes ok: "slot_ok B P self" and settled: "settled B self" and x: "shred_ok x" "P x"
    and fec: "unat (s_fec_set_index x) < 32768" and hash: "digest32 hashv" and rs: "rs_ok P rs"
  shows "\<exists>self' st' segs. slot_insert B hashv rs self x st out = Inr (self', st', out @ segs) \<and>
    slot_post B P self st self' st' segs \<and> slot_detail B hashv rs self x self'"
proof -
  let ?fec = "s_fec_set_index x" and ?fs = "set_entry self (s_fec_set_index x)"
  have al: "unat ?fec mod 32 = 0" using x(1) by (simp add: shred_ok_def)
  have consumed: "set_is_consumed B self ?fec = Inr (full_set B self (unat ?fec div 32))"
    using set_is_consumed_Inr [of self "unat ?fec div 32"] ok fec by (simp add: set_key_of [OF al] slot_ok_def)
  show ?thesis
  proof (cases "is_data x \<and> recv B self (unat (s_index x)) \<or> \<not> is_data x \<and> full_set B self (unat ?fec div 32)")
    case True
    then show ?thesis by (rule slot_insert_useless [OF ok settled _ consumed])
  next
    case False
    then have go: "is_data x \<Longrightarrow> \<not> recv B self (unat (s_index x))" "\<not> full_set B self (unat ?fec div 32)"
      using not_full_data [of self x] ok x(1) by (auto simp: slot_ok_def)
    obtain fs1 v where ins: "fec_insert hashv ?fs x = (Inr (fs1, v) :: (fec_set \<times> insert_result) run)"
      and fs1: "fec_ok ?fec fs1" "\<forall>s. Some s \<in> set (f_data fs1 @ f_code fs1) \<longrightarrow> P s"
      and ext: "\<forall>q<32. \<forall>s. stored_at self (unat ?fec + q) = Some s \<longrightarrow> f_data fs1 ! q = Some s"
      and miss: "\<forall>q<32. f_data fs1 ! q = None \<longrightarrow> \<not> recv B self (unat ?fec + q)"
      and placed: "v = New \<and> is_data x \<Longrightarrow> in_set ?fec fs1 (s_index x) \<and> 0 < count_some (f_data fs1)"
      using insert_into_set [OF ok x refl fec go(2) hash go(1) set_entry_def] by blast
    show ?thesis
    proof (cases "v = New")
      case refused: False
      have "set_is_consumed B self ?fec = Inr False" using consumed go(2) by simp
      from slot_insert_refused [OF ok settled refl fec al go(2,1) this ins refused fs1 ext] show ?thesis .
    next
      case True
      let ?fresh0 = "if is_data x then [s_index x] else []"
      have fresh0: "\<forall>i\<in>set ?fresh0. in_set ?fec fs1 i \<and> \<not> recv B self (unat i)"
        and count: "length ?fresh0 \<le> count_some (f_data fs1)"
        using placed True go(1) by (auto simp: Suc_le_eq)
      have "(if is_data x then push_fresh (s_index x) [] else Inr []) = Inr ?fresh0" by (simp add: push_fresh_def)
      moreover obtain self4 st2 segs where acc: "bind_out (recover_step rs fs1 ?fresh0 st) (\<lambda>(fs2, fresh, st2).
          bind_out (fold_out (mark_fresh B ?fec fs2) fresh (self\<lparr>sl_sets := (sl_sets self)(?fec \<mapsto> fs2)\<rparr>)) (\<lambda>self3.
          bind_out (fold_out (complete_fresh B) fresh (self3, out)) (\<lambda>(self4, out4). Inr (self4, st2, out4)))) =
        Inr (self4, st2, out @ segs)" "slot_post B P self st self4 st2 segs" "accepted B rs ?fec fs1 ?fresh0 self self4"
        using slot_accept [OF ok settled fec al go(2) fs1 ext miss fresh0 count rs, of st out] by blast
      moreover have "(if is_data x then Inr False else set_is_consumed B self ?fec) = Inr False" using go(2) consumed by simp
      ultimately have "slot_insert B hashv rs self x st out = Inr (self4, st2, out @ segs)"
        using go(1) True by (auto simp: slot_insert_def Let_def set_entry_def [symmetric] ins)
      moreover have "slot_detail B hashv rs self x self4" using True ins acc(3) by (auto simp: slot_detail_def Let_def)
      ultimately show ?thesis using acc(2) by blast
    qed
  qed
qed

end

section \<open>Sequences of shreds\<close>

definition slot_inserts :: "'b bitset_ops \<Rightarrow> hasher \<Rightarrow> 'r reconstructor option \<Rightarrow> shred list \<Rightarrow>
    'b slot_state \<times> stats \<times> segment list \<Rightarrow> ('b slot_state \<times> stats \<times> segment list) run" where
  "slot_inserts B hashv rs xs = fold_out (\<lambda>x (self, st, out). slot_insert B hashv rs self x st out) xs"

lemma emission_weaken:
  "emission Q K segs K' \<Longrightarrow> (\<And>seg. Q seg \<Longrightarrow> Q' seg) \<Longrightarrow> emission Q' K segs K'"
  by (induction segs arbitrary: K) auto

lemma segment_ok_stable:
  assumes "segment_ok R C P seg" and "\<forall>i. R i \<longrightarrow> R' i \<and> (C' i \<longleftrightarrow> C i)" and "\<forall>i. C i \<longrightarrow> R i"
  shows "segment_ok R' C' P seg"
proof -
  let ?a = "unat (seg_start seg)" and ?b = "unat (seg_end seg)"
  obtain ss where run: "run_of R C ?a ?b" and idx: "map (unat \<circ> s_index) ss = [?a..<Suc ?b]"
    and ss: "\<forall>s\<in>set ss. shred_ok s \<and> s_kind s = Data \<and> P s \<and> (data_complete s \<longleftrightarrow> C (unat (s_index s)))"
    and bytes: "seg_bytes seg = concat (map payload ss)" "seg_last_in_slot seg = last_in_slot (last ss)"
    using assms(1) by (auto simp: segment_ok_def)
  have "run_of R' C' ?a ?b" using run assms(2,3) by (auto simp: run_of_def)
  moreover have "C' (unat (s_index s)) \<longleftrightarrow> C (unat (s_index s))" if "s \<in> set ss" for s
  proof -
    have "unat (s_index s) \<in> set [?a..<Suc ?b]" unfolding idx [symmetric] using that by simp
    then have "R (unat (s_index s))" using run by (auto simp: run_of_def)
    then show ?thesis using assms(2) by blast
  qed
  ultimately show ?thesis unfolding segment_ok_def using idx ss bytes by blast
qed

text \<open>What has been emitted since the slot was created.\<close>

definition slot_history :: "'b bitset_ops \<Rightarrow> (shred \<Rightarrow> bool) \<Rightarrow> 'b slot_state \<Rightarrow> segment list \<Rightarrow> bool" where
  "slot_history B P self out \<longleftrightarrow> slot_ok B P self \<and> settled B self \<and>
     emission (segment_ok (recv B self) (compl B self) P) {} out (cons_set B self)"

lemma slot_history_step:
  assumes "slot_history B P self out" and "slot_post B P self st self' st' segs"
  shows "slot_history B P self' (out @ segs)"
proof -
  have stable: "\<forall>i. recv B self i \<longrightarrow> recv B self' i \<and> (compl B self' i \<longleftrightarrow> compl B self i)"
    using assms(2) by (simp add: slot_post_def)
  have "\<forall>i. compl B self i \<longrightarrow> recv B self i" using assms(1) by (simp add: slot_history_def slot_ok_def bits_ok_def)
  then have "emission (segment_ok (recv B self') (compl B self') P) {} out (cons_set B self)"
    using assms(1) segment_ok_stable [OF _ stable] by (auto simp: slot_history_def intro: emission_weaken)
  then show ?thesis
    using assms(2) emission_append by (fastforce simp: slot_history_def slot_post_def)
qed

lemma slot_inserts_history:
  assumes "bit_set B" and "digest32 hashv" and "rs_ok P rs"
    and "\<forall>x\<in>set xs. shred_ok x \<and> P x \<and> unat (s_fec_set_index x) < 32768" and "slot_history B P self out"
  shows "\<exists>self' st' out'. slot_inserts B hashv rs xs (self, st, out) = Inr (self', st', out') \<and> slot_history B P self' out'"
  using assms(4,5)
proof (induction xs arbitrary: self st out)
  case Nil
  then show ?case by (auto simp: slot_inserts_def)
next
  case (Cons x xs)
  have x: "shred_ok x" "P x" "unat (s_fec_set_index x) < 32768" using Cons.prems(1) by auto
  have "slot_ok B P self" "settled B self" using Cons.prems(2) by (simp_all add: slot_history_def)
  then obtain self1 st1 segs where step: "slot_insert B hashv rs self x st out = Inr (self1, st1, out @ segs)"
    and post: "slot_post B P self st self1 st1 segs"
    using bit_set.slot_insert_post [OF assms(1) _ _ x assms(2,3)] by blast
  have "\<exists>self' st' out'. slot_inserts B hashv rs xs (self1, st1, out @ segs) = Inr (self', st', out') \<and> slot_history B P self' out'"
    using Cons.IH [OF _ slot_history_step [OF Cons.prems(2) post]] Cons.prems(1) by auto
  then show ?case using step by (simp add: slot_inserts_def)
qed

lemma slot_history_default:
  assumes "bit_set B"
  shows "slot_history B P (slot_default B) []"
  using slot_ok_default [OF assms] bit_set.contains_with_capacity [OF assms]
  by (simp add: slot_history_def cons_set_def slot_default_def)

lemma emission_union: "emission Q K segs K' \<Longrightarrow> K' = K \<union> (\<Union>seg\<in>set segs. seg_range seg)"
  by (induction segs arbitrary: K) auto

lemma emission_all: "emission Q K segs K' \<Longrightarrow> \<forall>seg\<in>set segs. Q seg"
  by (induction segs arbitrary: K) auto

text \<open>The emitted ranges are disjoint, hence so are the segments themselves.\<close>

lemma emission_disjoint:
  assumes "emission Q K segs K'" and "\<And>seg. Q seg \<Longrightarrow> seg_start seg \<le> seg_end seg"
  shows "(\<forall>seg\<in>set segs. seg_range seg \<inter> K = {}) \<and>
    distinct (map (\<lambda>seg. (unat (seg_start seg), unat (seg_end seg))) segs)"
  using assms(1)
proof (induction segs arbitrary: K)
  case (Cons seg segs)
  then have IH: "\<forall>s\<in>set segs. seg_range s \<inter> (K \<union> seg_range seg) = {}"
    "distinct (map (\<lambda>seg. (unat (seg_start seg), unat (seg_end seg))) segs)" by auto
  have "unat (seg_start seg) \<le> unat (seg_end seg)"
    using Cons.prems assms(2) [of seg] by (simp add: word_le_nat_alt)
  then have "(unat (seg_start s), unat (seg_end s)) \<noteq> (unat (seg_start seg), unat (seg_end seg))" if "s \<in> set segs" for s
    using IH(1) that by fastforce
  then have "(unat (seg_start seg), unat (seg_end seg)) \<notin> set (map (\<lambda>seg. (unat (seg_start seg), unat (seg_end seg))) segs)"
    unfolding set_map image_iff by metis
  moreover have "\<forall>s\<in>set (seg # segs). seg_range s \<inter> K = {}" using Cons.prems IH(1) by auto
  ultimately show ?case using IH(2) by (simp only: list.map distinct.simps simp_thms)
qed simp

lemma slot_history_segments:
  "slot_history B P self out \<Longrightarrow> \<forall>seg\<in>set out. segment_ok (recv B self) (compl B self) P seg"
  unfolding slot_history_def by (elim conjE) (erule emission_all)

lemma slot_history_runs:
  assumes "slot_history B P self out"
  shows "set (map (\<lambda>seg. (unat (seg_start seg), unat (seg_end seg))) out) = {(a, b). slot_run B self a b}"
    and "distinct (map (\<lambda>seg. (unat (seg_start seg), unat (seg_end seg))) out)"
proof -
  have em: "emission (segment_ok (recv B self) (compl B self) P) {} out (cons_set B self)"
    and settled: "settled B self" using assms by (simp_all add: slot_history_def)
  have runs: "slot_run B self (unat (seg_start seg)) (unat (seg_end seg))" if "seg \<in> set out" for seg
    using emission_all [OF em] that by (simp add: segment_ok_def)
  show "distinct (map (\<lambda>seg. (unat (seg_start seg), unat (seg_end seg))) out)"
    using emission_disjoint [OF em] by (simp add: segment_ok_def run_of_def word_le_nat_alt)
  have "\<exists>seg\<in>set out. (unat (seg_start seg), unat (seg_end seg)) = (a, b)" if run: "slot_run B self a b" for a b
  proof -
    have "a \<in> cons_set B self" using settled run by (auto simp: settled_def cons_set_def)
    then obtain seg where seg: "seg \<in> set out" "a \<in> seg_range seg" using emission_union [OF em] by auto
    have "a \<le> b" using run by (simp add: run_of_def)
    then have "unat (seg_start seg) = a \<and> unat (seg_end seg) = b"
      using run_unique [OF runs [OF seg(1)] run, of a] seg(2) by simp
    then show ?thesis using seg(1) by blast
  qed
  then show "set (map (\<lambda>seg. (unat (seg_start seg), unat (seg_end seg))) out) = {(a, b). slot_run B self a b}"
    using runs by (auto simp: image_iff)
qed

section \<open>Shreds of a leader's block\<close>

text \<open>
  A block of \<open>K\<close> FEC sets as the leader made it: data shreds \<open>leader i\<close>, the codeword \<open>cw k\<close> of every
  set. A shred is of the block when it carries the content of the leader's data shred with its index,
  or the coded shard of its position.
\<close>

definition leader_block :: "u64 \<Rightarrow> u16 \<Rightarrow> nat \<Rightarrow> (nat \<Rightarrow> shred) \<Rightarrow> (nat \<Rightarrow> bytes list) \<Rightarrow> bool" where
  "leader_block slot version K leader cw \<longleftrightarrow> K \<le> 1024 \<and>
     (\<forall>k<K. \<exists>n. encoded_set (set_key k) slot version n (\<lambda>p. leader (32 * k + p)) (cw k))"

definition of_leader :: "u64 \<Rightarrow> u16 \<Rightarrow> nat \<Rightarrow> (nat \<Rightarrow> shred) \<Rightarrow> (nat \<Rightarrow> bytes list) \<Rightarrow> shred \<Rightarrow> bool" where
  "of_leader slot version K leader cw s \<longleftrightarrow> unat (s_fec_set_index s) < 32 * K \<and>
     (case s_kind s of
        Data \<Rightarrow> same_content s (leader (unat (s_index s)))
      | Code \<Rightarrow> s_slot s = slot \<and> s_version s = version \<and>
          shard_of s = cw (unat (s_fec_set_index s) div 32) ! erasure_shard_index s)"

text \<open>The entry batches of the block, by the data-complete flags of the leader.\<close>

definition leader_batch :: "(nat \<Rightarrow> shred) \<Rightarrow> nat \<Rightarrow> nat \<Rightarrow> bool" where
  "leader_batch leader a b \<longleftrightarrow> a \<le> b \<and> data_complete (leader b) \<and>
     (\<forall>i. a \<le> i \<and> i < b \<longrightarrow> \<not> data_complete (leader i)) \<and> (a = 0 \<or> data_complete (leader (a - 1)))"

lemma leader_recovers:
  assumes "leader_block slot version K leader cw" and "rs_in_place rs" and "\<forall>k<K. rs_decodes rs (cw k)"
    and ok: "fec_ok fec fs" "can_recover fs"
    and P: "\<forall>s. Some s \<in> set (f_data fs @ f_code fs) \<longrightarrow> of_leader slot version K leader cw s"
  shows "\<exists>fs2 ix. (fec_recover rs fs :: (unit, _) outcome) = Inr (fs2, Inr ix) \<and> f_code fs2 = replicate 32 None \<and>
    unat fec < 32 * K \<and> (\<forall>q<32. \<exists>s. f_data fs2 ! q = Some s \<and> same_content s (leader (unat fec + q)) \<and> data_at fec q (leader (unat fec + q)))"
proof -
  have arrays: "fec_arrays_ok fec fs" using ok(1) by (simp add: fec_ok_def)
  then have lens: "length (f_data fs) = 32" "length (f_code fs) = 32" by (simp_all add: fec_arrays_ok_def)
  obtain t where t: "Some t \<in> set (f_data fs @ f_code fs)" using can_recover_stored [OF arrays ok(2)] by auto
  let ?k = "unat fec div 32"
  have K: "unat fec < 32 * K" and al: "unat fec mod 32 = 0"
    using P t stored_ok [OF arrays t] by (auto simp: of_leader_def)
  then have k: "?k < K" by simp
  have key: "set_key ?k = fec" by (rule set_key_of [OF al])
  have base: "32 * ?k = unat fec" using mult_div_mod_eq [of 32 "unat fec"] al by simp
  obtain n where enc: "encoded_set fec slot version n (\<lambda>p. leader (32 * ?k + p)) (cw ?k)"
    using assms(1) k key by (auto simp: leader_block_def)
  have data: "data_at fec p s \<and> of_leader slot version K leader cw s" if "p < 32" "f_data fs ! p = Some s" for p s
    using that arrays P lens nth_mem [of p "f_data fs"] all_atD [of "data_at fec" "f_data fs" p s]
    by (auto simp: fec_arrays_ok_def)
  have code: "code_at fec p s \<and> of_leader slot version K leader cw s" if "p < 32" "f_code fs ! p = Some s" for p s
    using that arrays P lens nth_mem [of p "f_code fs"] all_atD [of "code_at fec" "f_code fs" p s]
    by (auto simp: fec_arrays_ok_def)
  have "holds_part slot version (\<lambda>p. leader (32 * ?k + p)) (cw ?k) fs"
    unfolding holds_part_def
  proof (intro conjI allI impI)
    fix p s assume "p < 32" "f_data fs ! p = Some s"
    with data [of p s] base show "same_content s (leader (32 * ?k + p))" by (auto simp: of_leader_def data_at_def)
  next
    fix p s assume "p < 32" "f_code fs ! p = Some s"
    with code [of p s]
    have "s_slot s = slot \<and> s_version s = version \<and> shard_of s = cw ?k ! (32 + p)"
      by (auto simp: of_leader_def code_at_def)
    then show "s_slot s = slot" "s_version s = version" "shard_of s = cw ?k ! (32 + p)" by blast+
  qed
  from recover_codeword_content [OF ok assms(2) _ enc this] assms(3) k obtain fs2 ix where
    "(fec_recover rs fs :: (unit, _) outcome) = Inr (fs2, Inr ix)" "f_code fs2 = replicate 32 None"
    "\<forall>q<32. \<exists>s. f_data fs2 ! q = Some s \<and> same_content s (leader (32 * ?k + q))" by blast
  moreover have "data_at fec q (leader (unat fec + q))" if "q < 32" for q using enc that base by (simp add: encoded_set_def)
  ultimately show ?thesis using K base by simp
qed

lemma rs_keeps_leader:
  assumes "leader_block slot version K leader cw" and "rs_in_place rs" and "\<forall>k<K. rs_decodes rs (cw k)"
  shows "rs_keeps (of_leader slot version K leader cw) rs"
  unfolding rs_keeps_def
proof (intro allI impI, elim conjE)
  fix fec fs fs' result s
  assume ok: "fec_ok fec fs" "can_recover fs"
    and P: "\<forall>s. Some s \<in> set (f_data fs @ f_code fs) \<longrightarrow> of_leader slot version K leader cw s"
    and rec: "(fec_recover rs fs :: (unit, _) outcome) = Inr (fs', result)"
    and s: "Some s \<in> set (f_data fs' @ f_code fs')"
  obtain fs2 ix where two: "(fec_recover rs fs :: (unit, _) outcome) = Inr (fs2, Inr ix)" "f_code fs2 = replicate 32 None"
      "unat fec < 32 * K" "\<forall>q<32. \<exists>s. f_data fs2 ! q = Some s \<and> same_content s (leader (unat fec + q)) \<and> data_at fec q (leader (unat fec + q))"
    using leader_recovers [OF assms ok P] by blast
  then have fs': "fs' = fs2" "result = Inr ix" using rec by simp_all
  obtain self2 r2 where "(fec_recover rs fs :: (unit, _) outcome) = Inr (self2, r2)" "recover_post fec fs self2 r2"
    using fec_recover_post [OF ok assms(2)] by blast
  then have ok2: "length (f_data fs') = 32" using rec by (simp add: recover_post_def fec_ok_def fec_arrays_ok_def)
  then obtain q where q: "q < 32" "f_data fs' ! q = Some s" using s two(2) fs' by (auto simp: in_set_conv_nth)
  then have "same_content s (leader (unat fec + q))" "data_at fec q (leader (unat fec + q))" using two(4) fs' by fastforce+
  then show "of_leader slot version K leader cw s"
    using two(3) by (simp add: of_leader_def same_content_def data_at_def)
qed

lemma leader_flag:
  assumes "slot_ok B (of_leader slot version K leader cw) self" and "recv B self i"
  shows "compl B self i \<longleftrightarrow> data_complete (leader i)"
  using assms by (auto simp: slot_ok_def prov_ok_def of_leader_def same_content_def data_complete_def flags_def)

lemma leader_segment:
  assumes "slot_ok B (of_leader slot version K leader cw) self"
    and "segment_ok (recv B self) (compl B self) (of_leader slot version K leader cw) seg"
  shows "leader_batch leader (unat (seg_start seg)) (unat (seg_end seg))"
    and "seg_bytes seg = concat (map (payload \<circ> leader) [unat (seg_start seg)..<Suc (unat (seg_end seg))])"
    and "seg_last_in_slot seg = last_in_slot (leader (unat (seg_end seg)))"
proof -
  let ?a = "unat (seg_start seg)" and ?b = "unat (seg_end seg)"
  have run: "slot_run B self ?a ?b" using assms(2) by (simp add: segment_ok_def)
  note flag = leader_flag [OF assms(1)]
  have "\<forall>i. compl B self i \<longrightarrow> recv B self i" using assms(1) by (simp add: slot_ok_def bits_ok_def)
  then show "leader_batch leader ?a ?b"
    using run flag unfolding leader_batch_def run_of_def by (meson less_imp_le order_refl)
  obtain ss where idx: "map (unat \<circ> s_index) ss = [?a..<Suc ?b]"
    and ss: "\<forall>s\<in>set ss. s_kind s = Data \<and> of_leader slot version K leader cw s"
    and bytes: "seg_bytes seg = concat (map payload ss)" "seg_last_in_slot seg = last_in_slot (last ss)"
    using assms(2) by (auto simp: segment_ok_def)
  have same: "same_content s (leader (unat (s_index s)))" if "s \<in> set ss" for s
    using ss that by (auto simp: of_leader_def)
  have "map payload ss = map (payload \<circ> leader) (map (unat \<circ> s_index) ss)"
    using same by (simp add: same_content_def)
  then show "seg_bytes seg = concat (map (payload \<circ> leader) [?a..<Suc ?b])"
    using bytes idx by simp
  have "ss \<noteq> []" "?a \<le> ?b" using idx run by (auto simp: run_of_def)
  moreover have "unat (s_index (last ss)) = last [?a..<Suc ?b]"
    using \<open>ss \<noteq> []\<close> unfolding idx [symmetric] by (simp add: last_map)
  ultimately have "same_content (last ss) (leader ?b)" using same [of "last ss"] by simp
  then show "seg_last_in_slot seg = last_in_slot (leader ?b)"
    using bytes(2) by (simp add: same_content_def last_in_slot_def flags_def)
qed

text \<open>A block of one set in which every shred ends a batch.\<close>

definition block_shred :: "nat \<Rightarrow> shred" where
  "block_shred p = \<lparr>
     s_bytes = data_wire (replicate 64 0) 0x96 1000 (word_of_nat p) 0 0 1 0x40 500 (1 # replicate 1114 0),
     s_kind = Data, s_resigned = False, s_proof_size = 6, s_slot = 1000, s_index = word_of_nat p,
     s_version = 0, s_fec_set_index = 0, s_capacity = 963, s_header = DataHeader 1 0x40 500\<rparr>"

definition block_codeword :: "nat \<Rightarrow> bytes list" where
  "block_codeword k = map (shard_of \<circ> block_shred) [0..<32] @ replicate 32 (replicate 987 0)"

lemma parse_block_shred: "p < 32 \<Longrightarrow> parse (s_bytes (block_shred p)) = Inr (block_shred p)"
  unfolding block_shred_def shred.simps
  by (subst parse_data_layout [where resigned = False and cap = 963 and nonce = "[]", simplified])
    (simp_all add: shred_variant_def capacity_def wire_size_def headers_size_def unat_u32)

lemma block_data_at: "p < 32 \<Longrightarrow> data_at 0 p (block_shred p)"
  using parse_shred_ok [OF parse_block_shred]
  by (simp add: data_at_def) (simp add: block_shred_def unat_u32)

lemma block_encoded: "leader_block 1000 0 1 block_shred block_codeword"
proof -
  have "length (shard_of (block_shred p)) = 987" if "p < 32" for p
    using length_shard_of(1) block_data_at [OF that] by (auto simp: data_at_def) (simp_all add: block_shred_def)
  then have "encoded_set 0 1000 0 987 block_shred (block_codeword 0)"
    using parse_block_shred block_data_at
    by (auto simp: encoded_set_def block_codeword_def nth_append) (simp_all add: block_shred_def)
  then show ?thesis by (auto simp: leader_block_def set_key_def)
qed

section \<open>Properties\<close>

text \<open>
  With recovery on and shreds of one leader's block arriving in any order and with any losses, the
  slot emits entry batches of the leader and nothing else: every segment is a batch by the leader's
  data-complete flags, its bytes are the concatenated entry bytes of the leader's data shreds of that
  range, recovered or received, and its last-in-slot mark is that of the leader's last shred.
\<close>

lemma slot_emits_leader_batches:
  assumes "bit_set B" and "digest32 hashv" and "rs_in_place r" and "\<forall>k<K. rs_decodes r (cw k)"
    and "leader_block slot version K leader cw"
    and "\<forall>x\<in>set xs. shred_ok x \<and> of_leader slot version K leader cw x"
  shows "\<exists>self' st' out. slot_inserts B hashv (Some r) xs (slot_default B, st, []) = Inr (self', st', out) \<and>
    (\<forall>seg\<in>set out. leader_batch leader (unat (seg_start seg)) (unat (seg_end seg)) \<and>
       seg_bytes seg = concat (map (payload \<circ> leader) [unat (seg_start seg)..<Suc (unat (seg_end seg))]) \<and>
       seg_last_in_slot seg = last_in_slot (leader (unat (seg_end seg))))"
proof -
  let ?P = "of_leader slot version K leader cw"
  have "rs_ok ?P (Some r)" using assms(3) rs_keeps_leader [OF assms(5,3,4)] by (simp add: rs_ok_def)
  moreover have "\<forall>x\<in>set xs. shred_ok x \<and> ?P x \<and> unat (s_fec_set_index x) < 32768"
    using assms(5,6) by (auto simp: of_leader_def leader_block_def)
  ultimately obtain self' st' out where
    run: "slot_inserts B hashv (Some r) xs (slot_default B, st, []) = Inr (self', st', out)" "slot_history B ?P self' out"
    using slot_inserts_history [OF assms(1,2) _ _ slot_history_default [OF assms(1)]] by blast
  have ok: "slot_ok B ?P self'" using run(2) by (simp add: slot_history_def)
  have "leader_batch leader (unat (seg_start seg)) (unat (seg_end seg)) \<and>
       seg_bytes seg = concat (map (payload \<circ> leader) [unat (seg_start seg)..<Suc (unat (seg_end seg))]) \<and>
       seg_last_in_slot seg = last_in_slot (leader (unat (seg_end seg)))" if "seg \<in> set out" for seg
    using leader_segment [OF ok bspec [OF slot_history_segments [OF run(2)] that]] by blast
  with run(1) show ?thesis by blast
qed

text \<open>
  Without recovery every emitted byte was received: a segment is the concatenation of the entry
  bytes of shreds among those inserted, one per index of its run.
\<close>

lemma slot_emits_received_bytes:
  assumes "bit_set B" and "digest32 hashv" and "\<forall>x\<in>set xs. shred_ok x \<and> unat (s_fec_set_index x) < 32768"
  shows "\<exists>self' st' out. slot_inserts B hashv (None :: 'r reconstructor option) xs (slot_default B, st, []) =
      Inr (self', st', out) \<and>
    (\<forall>seg\<in>set out. \<exists>ss. set ss \<subseteq> set xs \<and> seg_bytes seg = concat (map payload ss) \<and>
       map (unat \<circ> s_index) ss = [unat (seg_start seg)..<Suc (unat (seg_end seg))])"
proof -
  let ?P = "\<lambda>s. s \<in> set xs"
  have "rs_ok ?P (None :: 'r reconstructor option)" by (simp add: rs_ok_def)
  then obtain self' st' out where
    run: "slot_inserts B hashv (None :: 'r reconstructor option) xs (slot_default B, st, []) = Inr (self', st', out)"
      "slot_history B ?P self' out"
    using slot_inserts_history [OF assms(1,2) _ _ slot_history_default [OF assms(1)]] assms(3) by blast
  have "\<exists>ss. set ss \<subseteq> set xs \<and> seg_bytes seg = concat (map payload ss) \<and>
       map (unat \<circ> s_index) ss = [unat (seg_start seg)..<Suc (unat (seg_end seg))]" if "seg \<in> set out" for seg
    using bspec [OF slot_history_segments [OF run(2)] that] unfolding segment_ok_def by blast
  with run(1) show ?thesis by blast
qed

text \<open>
  C9. What a slot keeps. After any valid shreds, with or without recovery: a slot keeps at most 1024 FEC sets of 64 places; a
  set is freed as soon as all its 32 indexes have been emitted; and nothing that is still needed is dropped: a received
  data shred that no emitted segment covers is stored at its place.
\<close>

theorem slot_keeps_what_is_needed:
  assumes "bit_set B" and "digest32 hashv" and "\<forall>r. rs = Some r \<longrightarrow> rs_in_place r"
    and "\<forall>x\<in>set xs. shred_ok x \<and> unat (s_fec_set_index x) < 32768"
  shows "\<exists>self' st' out. slot_inserts B hashv rs xs (slot_default B, st, []) = Inr (self', st', out) \<and>
    card (dom (sl_sets self')) \<le> 1024 \<and>
    (\<forall>fec fs. sl_sets self' fec = Some fs \<longrightarrow> length (f_data fs) = 32 \<and> length (f_code fs) = 32 \<and>
      (\<exists>j<32. \<forall>seg\<in>set out. unat fec + j \<notin> seg_range seg)) \<and>
    (\<forall>i. bs_contains B (sl_received self') i \<and> (\<forall>seg\<in>set out. i \<notin> seg_range seg) \<longrightarrow>
      (\<exists>fs s. sl_sets self' (word_of_nat (32 * (i div 32))) = Some fs \<and> f_data fs ! (i mod 32) = Some s \<and> unat (s_index s) = i))"
proof -
  have "rs_ok (\<lambda>_. True) rs" using assms(3) by (simp add: rs_ok_def rs_keeps_def)
  then obtain self' st' out where
    run: "slot_inserts B hashv rs xs (slot_default B, st, []) = Inr (self', st', out)" and hist: "slot_history B (\<lambda>_. True) self' out"
    using slot_inserts_history [OF assms(1,2) _ _ slot_history_default [OF assms(1)]] assms(4) by blast
  have ok: "slot_ok B (\<lambda>_. True) self'" using hist by (simp add: slot_history_def)
  have cons: "cons B self' i \<longleftrightarrow> (\<exists>seg\<in>set out. i \<in> seg_range seg)" for i
    using hist emission_union by (fastforce simp: slot_history_def cons_set_def)
  have key: "unat fec = 32 * (unat fec div 32)" "fec = set_key (unat fec div 32)" "unat fec div 32 < 1024" "fec_ok fec fs"
    if fs: "sl_sets self' fec = Some fs" for fec fs
  proof -
    have fec: "unat fec < 32768" "unat fec mod 32 = 0" "fec_ok fec fs" using ok fs by (auto simp: slot_ok_def sets_ok_def)
    then show "unat fec = 32 * (unat fec div 32)" "unat fec div 32 < 1024" "fec_ok fec fs" by auto
    show "fec = set_key (unat fec div 32)" using set_key_of [OF fec(2)] by simp
  qed
  have "dom (sl_sets self') \<subseteq> set_key ` {..<1024}" using key by blast
  then have "card (dom (sl_sets self')) \<le> card (set_key ` {..<1024})"
    by (rule card_mono [rotated]) (intro finite_imageI finite_lessThan)
  also have "\<dots> \<le> 1024" using card_image_le [OF finite_lessThan, of set_key 1024] by simp
  finally have "card (dom (sl_sets self')) \<le> 1024" .
  moreover have "length (f_data fs) = 32 \<and> length (f_code fs) = 32 \<and> (\<exists>j<32. \<forall>seg\<in>set out. unat fec + j \<notin> seg_range seg)"
    if fs: "sl_sets self' fec = Some fs" for fec fs
  proof -
    have "\<not> full_set B self' (unat fec div 32)" using ok fs key(2) [OF fs] unfolding slot_ok_def link_ok_def by (metis option.distinct(1))
    then show ?thesis using key [OF fs] cons by (auto simp: full_set_def fec_ok_def fec_arrays_ok_def)
  qed
  moreover have "\<exists>fs s. sl_sets self' (word_of_nat (32 * (i div 32))) = Some fs \<and> f_data fs ! (i mod 32) = Some s \<and> unat (s_index s) = i"
    if i: "recv B self' i" "\<forall>seg\<in>set out. i \<notin> seg_range seg" for i
  proof -
    have "\<not> full_set B self' (i div 32)"
      using i(2) cons [of i] unfolding full_set_def by (metis mod_less_divisor mult_div_mod_eq zero_less_numeral)
    then obtain s where "stored_at self' i = Some s" using ok i(1) by (auto simp: slot_ok_def link_ok_def)
    then obtain fs where fs: "sl_sets self' (set_key (i div 32)) = Some fs" "f_data fs ! (i mod 32) = Some s"
      by (auto simp: stored_at_def split: option.splits)
    have "i < 32768" using ok i(1) bit_set.contains_less [OF assms(1)] by (fastforce simp: slot_ok_def bits_ok_def)
    then have "unat (set_key (i div 32)) = 32 * (i div 32)" by (intro unat_set_key) simp
    moreover have "data_at (set_key (i div 32)) (i mod 32) s"
      using key(4) [OF fs(1)] fs(2) by (auto simp: fec_ok_def fec_arrays_ok_def all_at_def split: option.splits)
    ultimately show ?thesis using fs by (auto simp: data_at_def set_key_def)
  qed
  ultimately show ?thesis using run by blast
qed

theorem slot_keeps_what_is_needed_witness:
  "\<exists>self' st' out. slot_inserts bits_model sample_hash (Some (codeword_rs (block_codeword 0)))
      [block_shred 1, block_shred 0] (slot_default bits_model, stats_default, []) = Inr (self', st', out) \<and>
    card (dom (sl_sets self')) \<le> 1024"
proof -
  have "\<forall>x\<in>set [block_shred 1, block_shred 0]. shred_ok x \<and> unat (s_fec_set_index x) < 32768"
    using block_data_at [of 0] block_data_at [of 1] by (simp add: data_at_def)
  from slot_keeps_what_is_needed [OF nat_bits.bit_set_axioms digest32_sample_hash _ this, of "Some (codeword_rs (block_codeword 0))" stats_default]
  show ?thesis using codeword_rs_in_place by blast
qed

text \<open>
  C30. A code shred whose FEC set index lies past the end of the slot passes the parser but makes
  \<open>SlotState::insert\<close> panic, on a slot in any state: the bit range of \<open>set_is_consumed\<close> is out of bounds.
\<close>

theorem code_shred_past_slot_panics:
  assumes "bit_set B" and "slot_ok B P self" and "parse packet = Inr x" and "s_kind x = Code"
    and "32768 \<le> unat (s_fec_set_index x)"
  shows "slot_insert B hashv rs self x st out = Inl (Panic BitOutOfRange)"
proof -
  have "bs_len B (sl_consumed self) = 32768" using assms(2) by (simp add: slot_ok_def bits_ok_def)
  then have "bs_count_ones B (sl_consumed self) (unat (s_fec_set_index x)) (unat (s_fec_set_index x) + 32) = None"
    using bit_set.count_ones_out [OF assms(1)] assms(5) by simp
  then show ?thesis using assms(4) by (simp add: slot_insert_def is_data_def set_is_consumed_def)
qed

theorem code_shred_past_slot_panics_witness:
  "\<exists>packet x. parse packet = Inr x \<and>
     slot_insert bits_model sample_hash (None :: unit reconstructor option) (slot_default bits_model) x stats_default [] =
       Inl (Panic BitOutOfRange)"
proof -
  let ?p = "code_wire (replicate 64 0) 0x66 1000 40 0 32768 32 32 8 (replicate 1139 0)"
  have "\<exists>x. parse ?p = Inr x \<and> s_kind x = Code \<and> s_fec_set_index x = 32768"
    by (subst parse_code_layout [where resigned = False and cap = 987 and nonce = "[]", simplified])
      (simp_all add: shred_variant_def capacity_def wire_size_def headers_size_def)
  then obtain x where x: "parse ?p = Inr x" "s_kind x = Code" "s_fec_set_index x = 32768" by blast
  have "32768 \<le> unat (s_fec_set_index x)" by (simp add: x(3))
  from code_shred_past_slot_panics [OF nat_bits.bit_set_axioms slot_ok_default(1) [OF nat_bits.bit_set_axioms] x(1,2) this]
  show ?thesis using x(1) by blast
qed

end
