(* ===== verification/Entry.thy ===== *)
theory Entry
  imports Prelude
begin

text \<open>
  Decoding of a deshredded run (\<open>src/entry.rs\<close>). The serializer is the \<open>wincode\<close> crate with the schema
  of \<open>solana_transaction\<close>: \<open>deserialize\<close> and \<open>serialize\<close> are parameters, and the transactions are values
  of an arbitrary type \<open>'tx\<close>.
\<close>

section \<open>Definitions\<close>

record 'tx entry =
  en_num_hashes :: u64
  en_hash :: bytes
  en_transactions :: "'tx list"

datatype 'tx block_data = Entries "'tx entry list" | BlockMarker

type_synonym ('w, 'tx) deserializer = "bytes \<Rightarrow> 'w + 'tx entry list"

definition entry_decode :: "('w, 'tx) deserializer \<Rightarrow> bytes \<Rightarrow> 'w + 'tx block_data" where
  "entry_decode deserialize bytes =
     (if length bytes \<ge> 8 \<and> take 8 bytes = replicate 8 0 then Inr BlockMarker
      else case deserialize bytes of Inl e \<Rightarrow> Inl e | Inr entries \<Rightarrow> Inr (Entries entries))"

text \<open>A missing result of the serializer is its write error, which \<open>expect\<close> turns into a panic.\<close>

definition entry_encode :: "('tx entry list \<Rightarrow> bytes option) \<Rightarrow> 'tx entry list \<Rightarrow> ('e, bytes) outcome" where
  "entry_encode serialize entries = unwrap_out (serialize entries)"

section \<open>The serializer's contract\<close>

text \<open>
  What is documented of the format: a serialized batch starts with its entry count as a little-endian
  \<open>u64\<close>, and reading stops behind the batch, so bytes after it do not matter.
\<close>

definition wincode_batch :: "('w, 'tx) deserializer \<Rightarrow> ('tx entry list \<Rightarrow> bytes option) \<Rightarrow> 'tx entry list \<Rightarrow> bool" where
  "wincode_batch deserialize serialize entries \<longleftrightarrow> length entries < 2 ^ 64 \<and>
     (\<exists>b. serialize entries = Some b \<and> take 8 b = le_bytes 8 (length entries) \<and>
        (\<forall>rest. deserialize (b @ rest) = Inr entries))"

lemma le_bytes_zero: "le_bytes n 0 = replicate n 0"
  by (induction n) simp_all

lemma le_bytes_zero_iff:
  assumes "v < 256 ^ n"
  shows "le_bytes n v = replicate n 0 \<longleftrightarrow> v = 0"
proof
  assume "le_bytes n v = replicate n 0"
  then have "le_val (le_bytes n v) = le_val (le_bytes n 0)" by (simp add: le_bytes_zero)
  then show "v = 0" using assms by (simp add: le_val_le_bytes)
qed (simp add: le_bytes_zero)

section \<open>Properties\<close>

text \<open>
  C31. A batch the leader encoded decodes to exactly its entries, whatever padding follows it in the
  last shred, unless it is empty: an empty batch starts with eight zero bytes and is reported as a
  block marker.
\<close>

theorem decode_encode:
  assumes "wincode_batch deserialize serialize entries"
  shows "\<exists>b. entry_encode serialize entries = (Inr b :: (unit, bytes) outcome) \<and>
    (\<forall>padding. entry_decode deserialize (b @ padding) = Inr (if entries = [] then BlockMarker else Entries entries))"
proof -
  obtain b where b: "serialize entries = Some b" "take 8 b = le_bytes 8 (length entries)" "length entries < 2 ^ 64"
      "\<forall>rest. deserialize (b @ rest) = Inr entries"
    using assms by (auto simp: wincode_batch_def)
  have "length (take 8 b) = 8" unfolding b(2) by simp
  then have len: "8 \<le> length b" by simp
  have "take 8 (b @ padding) = replicate 8 0 \<longleftrightarrow> entries = []" for padding
    using le_bytes_zero_iff [of "length entries" 8] b(2,3) len by simp
  then have "entry_decode deserialize (b @ padding) = Inr (if entries = [] then BlockMarker else Entries entries)" for padding
    using len b(4) by (simp add: entry_decode_def)
  then show ?thesis using b(1) by (auto simp: entry_encode_def)
qed

text \<open>A small format with the documented prefix: the count of entries, each entry one number.\<close>

definition tiny_serialize :: "unit entry list \<Rightarrow> bytes option" where
  "tiny_serialize es = Some (le_bytes 8 (length es) @ concat (map (\<lambda>e. le_bytes 8 (unat (en_num_hashes e))) es))"

definition tiny_deserialize :: "(unit, unit) deserializer" where
  "tiny_deserialize b = (if length b < 16 then Inl () else
     Inr [\<lparr>en_num_hashes = word_of_nat (le_val (take 8 (drop 8 b))), en_hash = [], en_transactions = []\<rparr>])"

theorem decode_encode_witness:
  "\<exists>b. entry_encode tiny_serialize [\<lparr>en_num_hashes = 3, en_hash = [], en_transactions = []\<rparr>] = (Inr b :: (unit, bytes) outcome) \<and>
    entry_decode tiny_deserialize (b @ [0, 0]) = Inr (Entries [\<lparr>en_num_hashes = 3, en_hash = [], en_transactions = []\<rparr>])"
proof -
  have "wincode_batch tiny_deserialize tiny_serialize [\<lparr>en_num_hashes = 3, en_hash = [], en_transactions = []\<rparr>]"
    by (simp add: wincode_batch_def tiny_serialize_def tiny_deserialize_def le_val_le_bytes)
  from decode_encode [OF this] show ?thesis by auto
qed

end
