(* ===== verification/Ordmap.thy ===== *)
theory Ordmap
  imports Prelude
begin

text \<open>
  \<open>std::collections::BTreeMap\<close> as the deshredder uses it: an association list with strictly
  increasing keys, its lookup, insertion, both ends and length. The locale \<open>ordered_map\<close> states what a
  client may rely on; the interpretation at the end discharges it for the association lists.
\<close>

section \<open>Definitions\<close>

type_synonym ('k, 'v) omap = "('k \<times> 'v) list"

definition om_ok :: "('k::linorder, 'v) omap \<Rightarrow> bool" where
  "om_ok m = sorted_wrt (<) (map fst m)"

fun om_put :: "'k::linorder \<Rightarrow> 'v \<Rightarrow> ('k, 'v) omap \<Rightarrow> ('k, 'v) omap" where
  "om_put k v [] = [(k, v)]"
| "om_put k v ((k', v') # m) =
     (if k < k' then (k, v) # (k', v') # m
      else if k = k' then (k, v) # m
      else (k', v') # om_put k v m)"

definition om_get :: "('k, 'v) omap \<Rightarrow> 'k \<Rightarrow> 'v option" where
  "om_get m k = map_of m k"

definition om_keys :: "('k, 'v) omap \<Rightarrow> 'k set" where
  "om_keys m = fst ` set m"

section \<open>The interface\<close>

locale ordered_map =
  fixes valid :: "'m \<Rightarrow> bool"
    and get :: "'m \<Rightarrow> 'k::linorder \<Rightarrow> 'v option"
    and put :: "'k \<Rightarrow> 'v \<Rightarrow> 'm \<Rightarrow> 'm"
    and keys :: "'m \<Rightarrow> 'k set"
    and size_of :: "'m \<Rightarrow> nat"
    and restrict :: "nat \<Rightarrow> 'm \<Rightarrow> 'm"
  assumes put_valid: "valid m \<Longrightarrow> valid (put k v m)"
    and get_put: "valid m \<Longrightarrow> get (put k v m) k' = (if k' = k then Some v else get m k')"
    and keys_get: "k \<in> keys m \<longleftrightarrow> get m k \<noteq> None"
    and size_keys: "valid m \<Longrightarrow> size_of m = card (keys m)"
    and restrict_valid: "valid m \<Longrightarrow> valid (restrict n m)"
    and restrict_get: "valid m \<Longrightarrow> get (restrict n m) k = Some v \<Longrightarrow> get m k = Some v"
    and restrict_size: "size_of (restrict n m) \<le> n"
    and restrict_low: "valid m \<Longrightarrow> k \<in> keys (restrict n m) \<Longrightarrow> k' \<in> keys m \<Longrightarrow> k' < k \<Longrightarrow> k' \<in> keys (restrict n m)"
    and restrict_all: "valid m \<Longrightarrow> size_of m \<le> n \<Longrightarrow> restrict n m = m"
begin

text \<open>A property of all entries survives an update and a restriction.\<close>

lemma all_put:
  assumes "valid m" and "\<And>k' v'. get m k' = Some v' \<Longrightarrow> Q k' v'" and "Q k v" and "get (put k v m) k' = Some v'"
  shows "Q k' v'"
  using assms(2) [of k' v'] assms(3,4) by (auto simp: get_put [OF assms(1)] split: if_splits)

end

section \<open>The association lists implement it\<close>

text \<open>\<open>while m.len() > n { m.pop_last(); }\<close>\<close>

function pop_to :: "nat \<Rightarrow> ('k, 'v) omap \<Rightarrow> ('k, 'v) omap" where
  "pop_to n m = (if length m > n then pop_to n (butlast m) else m)"
  by pat_completeness auto
termination
  by (relation "measure (\<lambda>(n, m). length m)") auto

declare pop_to.simps [simp del]

lemma pop_to_take: "pop_to n m = take n m"
proof (induction n m rule: pop_to.induct)
  case (1 n m)
  then show ?case by (subst pop_to.simps) (simp add: take_butlast)
qed

lemma om_keys_put: "om_keys (om_put k v m) = insert k (om_keys m)"
  by (induction k v m rule: om_put.induct) (auto simp: om_keys_def)

lemma om_ok_Cons: "om_ok ((k, v) # m) \<longleftrightarrow> om_ok m \<and> (\<forall>x\<in>om_keys m. k < x)"
  by (auto simp: om_ok_def om_keys_def)

lemma om_put_ok: "om_ok m \<Longrightarrow> om_ok (om_put k v m)"
proof (induction k v m rule: om_put.induct)
  case (1 k v)
  then show ?case by (simp add: om_ok_def)
next
  case (2 k v k' v' m)
  have "om_ok m" "\<forall>x\<in>om_keys m. k' < x" using 2(2) by (simp_all add: om_ok_Cons)
  with 2(1) show ?case
    by (auto simp: om_ok_Cons om_keys_put intro: less_trans) (auto simp: om_keys_def intro: less_trans)
qed

lemma om_get_put:
  "om_ok m \<Longrightarrow> om_get (om_put k v m) k' = (if k' = k then Some v else om_get m k')"
  by (induction k v m rule: om_put.induct) (auto simp: om_get_def om_ok_def)

lemma om_get_key: "k \<in> om_keys m \<longleftrightarrow> om_get m k \<noteq> None"
  by (auto simp: om_keys_def om_get_def map_of_eq_None_iff)

lemma om_ok_take: "om_ok m \<Longrightarrow> om_ok (take n m)"
  by (simp add: om_ok_def take_map [symmetric] sorted_wrt_take)

lemma om_get_in: "om_ok m \<Longrightarrow> om_get m k = Some v \<longleftrightarrow> (k, v) \<in> set m"
  by (simp add: om_get_def om_ok_def strict_sorted_iff map_of_eq_Some_iff)

lemma om_take_low:
  assumes "om_ok m" and "k \<in> om_keys (take n m)" and "k' \<in> om_keys m" and "k' < k"
  shows "k' \<in> om_keys (take n m)"
proof -
  obtain i where i: "i < length m" "i < n" "k = map fst m ! i"
    using assms(2) by (auto simp: om_keys_def in_set_conv_nth)
  obtain j where j: "j < length m" "k' = map fst m ! j"
    using assms(3) by (auto simp: om_keys_def in_set_conv_nth)
  have "j < i"
  proof (rule ccontr)
    assume "\<not> j < i"
    then have "k \<le> k'" using assms(1) i j sorted_wrt_nth_less [of "(<)" "map fst m" i j]
      by (cases "i = j") (auto simp: om_ok_def intro: less_imp_le)
    with assms(4) show False by simp
  qed
  then have "j < n" "j < length (take n m)" using i j by auto
  then have "take n m ! j \<in> set (take n m)" by (intro nth_mem)
  then show ?thesis using j \<open>j < n\<close> by (auto simp: om_keys_def intro!: image_eqI)
qed

interpretation om: ordered_map om_ok om_get om_put om_keys length "pop_to :: nat \<Rightarrow> ('k::linorder, 'v) omap \<Rightarrow> _"
proof (unfold_locales, goal_cases)
  case (1 m k v) then show ?case by (rule om_put_ok)
next
  case (2 m k v k') then show ?case by (rule om_get_put)
next
  case (3 k m) then show ?case by (rule om_get_key)
next
  case (4 m)
  then have "distinct (map fst m)" by (simp add: om_ok_def strict_sorted_iff)
  then show ?case unfolding om_keys_def by (metis distinct_card length_map set_map)
next
  case (5 m n) then show ?case by (simp add: pop_to_take om_ok_take)
next
  case (6 m n k v)
  then show ?case using om_get_in [of "take n m"] om_get_in [of m] om_ok_take [of m n]
    by (auto simp: pop_to_take dest: in_set_takeD)
next
  case (7 n m) then show ?case by (simp add: pop_to_take)
next
  case (8 m k n k')
  show ?case unfolding pop_to_take by (rule om_take_low [OF 8(1) 8(2) [unfolded pop_to_take] 8(3,4)])
next
  case (9 m n) then show ?case by (simp add: pop_to_take)
qed

end
