(* ===== verification/Deshredder.thy ===== *)
theory Deshredder
  imports Slot Entry Ordmap
begin

text \<open>
  The sans-IO core (\<open>src/deshredder.rs\<close>): one state per slot, the retention window, and the push
  operations. The callback of \<open>push_raw\<close> is a function on the shared counters and an output of any
  type. \<open>oc\<close> is the overflow-check setting of the build: on, an overflowing addition panics; off (the
  release default), it wraps. Logging is left out.
\<close>

section \<open>Definitions\<close>

record config =
  c_shred_version :: "u16 option"
  c_slot_lookback :: u64
  c_recover :: bool

definition config_default :: config where
  "config_default = \<lparr>c_shred_version = None, c_slot_lookback = 64, c_recover = True\<rparr>"

record raw_batch =
  rb_slot :: u64
  rb_start :: u32
  rb_end :: u32
  rb_last_in_slot :: bool
  rb_bytes :: bytes

record 'tx entry_batch =
  eb_slot :: u64
  eb_start :: u32
  eb_end :: u32
  eb_last_in_slot :: bool
  eb_entries :: "'tx entry list"

definition num_transactions :: "'tx entry_batch \<Rightarrow> nat" where
  "num_transactions b = sum_list (map (\<lambda>e. length (en_transactions e)) (eb_entries b))"

record 'b deshredder =
  d_config :: config
  d_slots :: "(u64, 'b slot_state) omap"
  d_highest_slot :: u64
  d_stats :: stats
  d_segments :: "segment list"

definition with_stats :: "config \<Rightarrow> stats \<Rightarrow> 'b deshredder" where
  "with_stats config st = \<lparr>d_config = config, d_slots = [], d_highest_slot = 0, d_stats = st, d_segments = []\<rparr>"

definition deshredder_new :: "config \<Rightarrow> 'b deshredder" where
  "deshredder_new config = with_stats config stats_default"

text \<open>\<open>u64\<close> arithmetic under the overflow-check setting.\<close>

definition add_u64 :: "bool \<Rightarrow> u64 \<Rightarrow> u64 \<Rightarrow> u64 run" where
  "add_u64 oc a b = (if oc \<and> 2 ^ 64 \<le> unat a + unat b then Inl (Panic ArithmeticOverflow) else Inr (a + b))"

definition mul_u64 :: "bool \<Rightarrow> u64 \<Rightarrow> u64 \<Rightarrow> u64 run" where
  "mul_u64 oc a b = (if oc \<and> 2 ^ 64 \<le> unat a * unat b then Inl (Panic ArithmeticOverflow) else Inr (a * b))"

text \<open>The loop that pops the slots that fell out of the window.\<close>

fun trim_old :: "bool \<Rightarrow> u64 \<Rightarrow> u64 \<Rightarrow> (u64, 'v) omap \<Rightarrow> (u64, 'v) omap run" where
  "trim_old oc lookback slot [] = Inr []"
| "trim_old oc lookback slot ((oldest, s) # m) =
     bind_out (add_u64 oc oldest lookback) (\<lambda>x.
     if x \<ge> slot then Inr ((oldest, s) # m) else trim_old oc lookback slot m)"

definition segment_batch :: "u64 \<Rightarrow> segment \<Rightarrow> raw_batch" where
  "segment_batch slot segment = \<lparr>rb_slot = slot, rb_start = seg_start segment, rb_end = seg_end segment,
     rb_last_in_slot = seg_last_in_slot segment, rb_bytes = seg_bytes segment\<rparr>"

text \<open>The drain loop: count the batch, hand it out.\<close>

fun hand_out :: "(raw_batch \<Rightarrow> stats \<times> 'o \<Rightarrow> stats \<times> 'o) \<Rightarrow> u64 \<Rightarrow> segment list \<Rightarrow> stats \<times> 'o \<Rightarrow> stats \<times> 'o" where
  "hand_out out slot [] so = so"
| "hand_out out slot (segment # segments) (st, o') =
     hand_out out slot segments (out (segment_batch slot segment) (inc batches st, o'))"

definition push_raw :: "bool \<Rightarrow> 'b bitset_ops \<Rightarrow> hasher \<Rightarrow> 'r reconstructor \<Rightarrow>
    (raw_batch \<Rightarrow> stats \<times> 'o \<Rightarrow> stats \<times> 'o) \<Rightarrow> bytes \<Rightarrow> 'b deshredder \<times> 'o \<Rightarrow> ('b deshredder \<times> 'o) run" where
  "push_raw oc B hashv rs out packet = (\<lambda>(self, o').
     let config = d_config self; st = inc packets (d_stats self) in
     case parse packet of
       Inl (Panic p) \<Rightarrow> Inl (Panic p)
     | Inl (Err err) \<Rightarrow> Inr (self\<lparr>d_stats := inc invalid st\<rparr>, o')
     | Inr shred \<Rightarrow>
       if (case c_shred_version config of None \<Rightarrow> False | Some v \<Rightarrow> v \<noteq> s_version shred)
       then Inr (self\<lparr>d_stats := inc wrong_version st\<rparr>, o')
       else
         let slot = s_slot shred in
         bind_out (add_u64 oc slot (c_slot_lookback config)) (\<lambda>newest.
         if newest < d_highest_slot self then Inr (self\<lparr>d_stats := inc stale st\<rparr>, o')
         else
           let entry = (case om_get (d_slots self) slot of None \<Rightarrow> slot_default B | Some s \<Rightarrow> s) in
           bind_out (slot_insert B hashv (if c_recover config then Some rs else None) entry shred st [])
             (\<lambda>(entry', st', segments).
           let slots1 = om_put slot entry' (d_slots self);
               moved = segments \<noteq> [] \<and> slot > d_highest_slot self in
           bind_out (if moved then trim_old oc (c_slot_lookback config) slot slots1 else Inr slots1) (\<lambda>slots2.
           bind_out (mul_u64 oc 4 (c_slot_lookback config)) (\<lambda>limit.
           let slots3 = pop_to (unat limit) slots2;
               (st2, o2) = hand_out out slot segments (st', o') in
           Inr (self\<lparr>d_slots := slots3, d_highest_slot := (if moved then slot else d_highest_slot self),
                     d_stats := st2, d_segments := []\<rparr>, o2))))))"

text \<open>The decoding callback of \<open>push\<close>.\<close>

definition decode_batch :: "('w, 'tx) deserializer \<Rightarrow> raw_batch \<Rightarrow>
    stats \<times> 'tx entry_batch list \<Rightarrow> stats \<times> 'tx entry_batch list" where
  "decode_batch deserialize raw = (\<lambda>(st, out).
     case entry_decode deserialize (rb_bytes raw) of
       Inr (Entries entries) \<Rightarrow>
         (add transactions_count (sum_list (map (\<lambda>e. word_of_nat (length (en_transactions e))) entries))
            (add entries_count (word_of_nat (length entries)) st),
          out @ [\<lparr>eb_slot = rb_slot raw, eb_start = rb_start raw, eb_end = rb_end raw,
                  eb_last_in_slot = rb_last_in_slot raw, eb_entries = entries\<rparr>])
     | Inr BlockMarker \<Rightarrow> (inc block_markers st, out)
     | Inl err \<Rightarrow> (inc decode_errors st, out))"

definition push :: "bool \<Rightarrow> 'b bitset_ops \<Rightarrow> hasher \<Rightarrow> 'r reconstructor \<Rightarrow> ('w, 'tx) deserializer \<Rightarrow>
    bytes \<Rightarrow> 'b deshredder \<times> 'tx entry_batch list \<Rightarrow> ('b deshredder \<times> 'tx entry_batch list) run" where
  "push oc B hashv rs deserialize packet = push_raw oc B hashv rs (decode_batch deserialize) packet"

section \<open>Invariant\<close>

text \<open>
  Every slot state is well formed, every slot lies in the window, and no slot is so close to the end
  of \<open>u64\<close> that adding the lookback overflows.
\<close>

definition desh_ok :: "'b bitset_ops \<Rightarrow> (shred \<Rightarrow> bool) \<Rightarrow> 'b deshredder \<Rightarrow> bool" where
  "desh_ok B P self \<longleftrightarrow> om_ok (d_slots self) \<and> d_segments self = [] \<and>
     (\<forall>k s. om_get (d_slots self) k = Some s \<longrightarrow> slot_ok B P s \<and> settled B s) \<and>
     (\<forall>k\<in>om_keys (d_slots self). unat k + unat (c_slot_lookback (d_config self)) < 2 ^ 64 \<and>
        unat (d_highest_slot self) \<le> unat k + unat (c_slot_lookback (d_config self)))"

text \<open>What the sender must not do: FEC set indexes past the slot, slots at the end of \<open>u64\<close>.\<close>

definition packet_ok :: "config \<Rightarrow> (shred \<Rightarrow> bool) \<Rightarrow> bytes \<Rightarrow> bool" where
  "packet_ok config P packet \<longleftrightarrow> (\<forall>x. parse packet = Inr x \<longrightarrow>
     P x \<and> unat (s_fec_set_index x) < 32768 \<and> unat (s_slot x) + unat (c_slot_lookback config) < 2 ^ 64)"

lemma desh_ok_new: "desh_ok B P (with_stats config st)"
  by (simp add: desh_ok_def with_stats_def om_ok_def om_get_def om_keys_def)

section \<open>The window\<close>

lemma add_u64_Inr: "unat a + unat b < 2 ^ 64 \<Longrightarrow> add_u64 oc a b = Inr (a + b)"
  by (simp add: add_u64_def)

lemma unat_add_u64: "unat (a::u64) + unat b < 2 ^ 64 \<Longrightarrow> unat (a + b) = unat a + unat b"
  by (simp add: unat_word_ariths)

definition window :: "u64 \<Rightarrow> u64 \<Rightarrow> (u64, 'v) omap \<Rightarrow> (u64, 'v) omap" where
  "window lookback slot m = dropWhile (\<lambda>(k, _). unat k + unat lookback < unat slot) m"

lemma trim_old_Inr:
  "\<forall>k\<in>om_keys m. unat k + unat lookback < 2 ^ 64 \<Longrightarrow> trim_old oc lookback slot m = Inr (window lookback slot m)"
proof (induction m)
  case (Cons kv m)
  obtain k v where kv: "kv = (k, v)" by (cases kv)
  have k: "unat k + unat lookback < 2 ^ 64" using Cons.prems by (simp add: kv om_keys_def)
  have "k + lookback \<ge> slot \<longleftrightarrow> \<not> unat k + unat lookback < unat slot"
    by (simp add: word_le_nat_alt unat_add_u64 [OF k] not_less)
  with Cons show ?case by (simp add: kv window_def add_u64_Inr [OF k] om_keys_def)
qed (simp add: window_def)

lemma window_suffix: "\<exists>ys. m = ys @ window lookback slot m"
  unfolding window_def by (metis takeWhile_dropWhile_id)

lemma om_ok_append: "om_ok (xs @ ys) \<Longrightarrow> om_ok ys"
  by (simp add: om_ok_def sorted_wrt_append)

lemma window_ok: "om_ok m \<Longrightarrow> om_ok (window lookback slot m)"
  using window_suffix om_ok_append by metis

lemma set_window:
  assumes "om_ok m"
  shows "set (window lookback slot m) = {kv \<in> set m. unat slot \<le> unat (fst kv) + unat lookback}"
  using assms
proof (induction m)
  case (Cons kv m)
  obtain k v where kv: "kv = (k, v)" by (cases kv)
  have later: "unat k < unat (fst x)" if "x \<in> set m" for x
    using Cons.prems that by (auto simp: kv om_ok_Cons om_keys_def word_less_nat_alt)
  show ?case
  proof (cases "unat k + unat lookback < unat slot")
    case True
    then show ?thesis using Cons by (auto simp: kv window_def om_ok_Cons)
  next
    case False
    then show ?thesis using later by (fastforce simp: kv window_def)
  qed
qed (simp add: window_def)

text \<open>The slots after one accepted packet.\<close>

definition slots_after :: "config \<Rightarrow> bool \<Rightarrow> u64 \<Rightarrow> 'v \<Rightarrow> (u64, 'v) omap \<Rightarrow> (u64, 'v) omap" where
  "slots_after config moved slot entry m =
     take (4 * unat (c_slot_lookback config))
       (if moved then window (c_slot_lookback config) slot (om_put slot entry m) else om_put slot entry m)"

lemma slots_after_sub:
  assumes "om_ok m" and "kv \<in> set (slots_after config moved slot entry m)"
  shows "kv \<in> set (om_put slot entry m)"
    and "moved \<Longrightarrow> unat slot \<le> unat (fst kv) + unat (c_slot_lookback config)"
  using assms set_window [OF om_put_ok [OF assms(1)]]
  by (auto simp: slots_after_def dest!: in_set_takeD split: if_splits)

lemma slots_after_ok: "om_ok m \<Longrightarrow> om_ok (slots_after config moved slot entry m)"
  by (simp add: slots_after_def om_ok_take window_ok om_put_ok)

section \<open>Pushing one packet\<close>

definition wrong_ver :: "config \<Rightarrow> shred \<Rightarrow> bool" where
  "wrong_ver config x = (case c_shred_version config of None \<Rightarrow> False | Some v \<Rightarrow> v \<noteq> s_version x)"

definition slot_entry :: "'b bitset_ops \<Rightarrow> 'b deshredder \<Rightarrow> u64 \<Rightarrow> 'b slot_state" where
  "slot_entry B self slot = (case om_get (d_slots self) slot of None \<Rightarrow> slot_default B | Some s \<Rightarrow> s)"

definition moves :: "'b deshredder \<Rightarrow> u64 \<Rightarrow> segment list \<Rightarrow> bool" where
  "moves self slot segs \<longleftrightarrow> segs \<noteq> [] \<and> d_highest_slot self < slot"

text \<open>The state after a packet that reached its slot.\<close>

definition pushed :: "'b deshredder \<Rightarrow> u64 \<Rightarrow> 'b slot_state \<Rightarrow> segment list \<Rightarrow> stats \<Rightarrow> 'b deshredder" where
  "pushed self slot entry segs st =
     self\<lparr>d_slots := slots_after (d_config self) (moves self slot segs) slot entry (d_slots self),
          d_highest_slot := (if moves self slot segs then slot else d_highest_slot self),
          d_stats := st, d_segments := []\<rparr>"

lemma pushed_simps [simp]:
  "d_config (pushed self slot entry segs st) = d_config self"
  "d_stats (pushed self slot entry segs st) = st"
  "d_highest_slot (pushed self slot entry segs st) =
     (if moves self slot segs then slot else d_highest_slot self)"
  "d_slots (pushed self slot entry segs st) =
     slots_after (d_config self) (moves self slot segs) slot entry (d_slots self)"
  by (simp_all add: pushed_def)

lemma push_raw_early:
  assumes "parse packet = Inl (Err e)"
  shows "push_raw oc B hashv rs out packet (self, o') = Inr (self\<lparr>d_stats := inc invalid (inc packets (d_stats self))\<rparr>, o')"
  using assms by (simp add: push_raw_def Let_def)

lemma push_raw_wrong_version:
  assumes "parse packet = Inr x" and "wrong_ver (d_config self) x"
  shows "push_raw oc B hashv rs out packet (self, o') = Inr (self\<lparr>d_stats := inc wrong_version (inc packets (d_stats self))\<rparr>, o')"
  using assms by (simp add: push_raw_def Let_def wrong_ver_def split: option.splits)

lemma push_raw_stale:
  assumes "parse packet = Inr x" and "\<not> wrong_ver (d_config self) x"
    and "unat (s_slot x) + unat (c_slot_lookback (d_config self)) < 2 ^ 64"
    and "unat (s_slot x) + unat (c_slot_lookback (d_config self)) < unat (d_highest_slot self)"
  shows "push_raw oc B hashv rs out packet (self, o') = Inr (self\<lparr>d_stats := inc stale (inc packets (d_stats self))\<rparr>, o')"
proof -
  have "s_slot x + c_slot_lookback (d_config self) < d_highest_slot self"
    using assms(4) by (simp add: word_less_nat_alt unat_add_u64 [OF assms(3)])
  then show ?thesis
    using assms(1,2) by (simp add: push_raw_def Let_def wrong_ver_def [symmetric] add_u64_Inr [OF assms(3)])
qed

lemma push_raw_slot:
  assumes x: "parse packet = Inr x" "\<not> wrong_ver (d_config self) x"
    and sum: "unat (s_slot x) + unat (c_slot_lookback (d_config self)) < 2 ^ 64"
    and young: "unat (d_highest_slot self) \<le> unat (s_slot x) + unat (c_slot_lookback (d_config self))"
    and limit: "4 * unat (c_slot_lookback (d_config self)) < 2 ^ 64"
    and keys: "\<forall>k\<in>om_keys (d_slots self). unat k + unat (c_slot_lookback (d_config self)) < 2 ^ 64"
    and ins: "slot_insert B hashv (if c_recover (d_config self) then Some rs else None)
      (slot_entry B self (s_slot x)) x (inc packets (d_stats self)) [] = Inr (entry', st', segs)"
  shows "push_raw oc B hashv rs out packet (self, o') =
    Inr (pushed self (s_slot x) entry' segs (fst (hand_out out (s_slot x) segs (st', o'))),
         snd (hand_out out (s_slot x) segs (st', o')))"
proof -
  let ?lb = "c_slot_lookback (d_config self)" and ?slot = "s_slot x"
  let ?put = "om_put ?slot entry' (d_slots self)"
  have ns: "\<not> ?slot + ?lb < d_highest_slot self"
    using young by (simp add: word_less_nat_alt unat_add_u64 [OF sum])
  have mul: "mul_u64 oc 4 ?lb = Inr (4 * ?lb)" "unat (4 * ?lb) = 4 * unat ?lb"
    using limit by (simp_all add: mul_u64_def unat_word_ariths)
  have "\<forall>k\<in>om_keys ?put. unat k + unat ?lb < 2 ^ 64" using keys sum by (simp add: om_keys_put)
  then have trim: "(if segs \<noteq> [] \<and> d_highest_slot self < ?slot then trim_old oc ?lb ?slot ?put else Inr ?put) =
      (Inr (if moves self ?slot segs then window ?lb ?slot ?put else ?put) :: (u64, 'a slot_state) omap run)"
    by (simp add: trim_old_Inr moves_def)
  obtain st2 o2 where ho: "hand_out out ?slot segs (st', o') = (st2, o2)" by fastforce
  show ?thesis
    using x ns mul ins
    by (simp add: push_raw_def Let_def wrong_ver_def [symmetric] slot_entry_def [symmetric] add_u64_Inr [OF sum]
        trim ho pop_to_take pushed_def slots_after_def)
      (simp add: moves_def)
qed

lemma slot_entry_ok:
  assumes "bit_set B" and "desh_ok B P self"
  shows "slot_ok B P (slot_entry B self slot)" and "settled B (slot_entry B self slot)"
  using assms(2) slot_ok_default [OF assms(1)]
  by (auto simp: slot_entry_def desh_ok_def split: option.split)

lemma push_raw_cases:
  assumes env: "bit_set B" "digest32 hashv" "rs_ok P (if c_recover (d_config self) then Some rs else None)"
    and ok: "desh_ok B P self" and packet: "packet_ok (d_config self) P packet"
    and limit: "4 * unat (c_slot_lookback (d_config self)) < 2 ^ 64"
  obtains (early) c where "c \<in> {invalid, wrong_version, stale}"
      and "push_raw oc B hashv rs out packet (self, o') = Inr (self\<lparr>d_stats := inc c (inc packets (d_stats self))\<rparr>, o')"
    | (slot) x entry' st' segs where "parse packet = Inr x" and "\<not> wrong_ver (d_config self) x"
      and "unat (s_slot x) + unat (c_slot_lookback (d_config self)) < 2 ^ 64"
      and "unat (d_highest_slot self) \<le> unat (s_slot x) + unat (c_slot_lookback (d_config self))"
      and "slot_post B P (slot_entry B self (s_slot x)) (inc packets (d_stats self)) entry' st' segs"
      and "slot_insert B hashv (if c_recover (d_config self) then Some rs else None)
             (slot_entry B self (s_slot x)) x (inc packets (d_stats self)) [] = Inr (entry', st', segs)"
      and "push_raw oc B hashv rs out packet (self, o') =
        Inr (pushed self (s_slot x) entry' segs (fst (hand_out out (s_slot x) segs (st', o'))),
             snd (hand_out out (s_slot x) segs (st', o')))"
proof (cases rule: parse_cases [of packet])
  case (err e)
  from that(1) [OF _ push_raw_early [OF err]] show thesis by simp
next
  case (ok x)
  let ?lb = "c_slot_lookback (d_config self)"
  have x: "shred_ok x" "P x" "unat (s_fec_set_index x) < 32768" "unat (s_slot x) + unat ?lb < 2 ^ 64"
    using parse_shred_ok [OF ok] packet ok by (auto simp: packet_ok_def)
  consider "wrong_ver (d_config self) x"
    | "\<not> wrong_ver (d_config self) x" "unat (s_slot x) + unat ?lb < unat (d_highest_slot self)"
    | (young) "\<not> wrong_ver (d_config self) x" "unat (d_highest_slot self) \<le> unat (s_slot x) + unat ?lb"
    by linarith
  then show thesis
  proof cases
    case 1
    from that(1) [OF _ push_raw_wrong_version [OF ok 1]] show thesis by simp
  next
    case 2
    from that(1) [OF _ push_raw_stale [OF ok 2(1) x(4) 2(2)]] show thesis by simp
  next
    case young
    obtain entry' st' segs where ins: "slot_insert B hashv (if c_recover (d_config self) then Some rs else None)
        (slot_entry B self (s_slot x)) x (inc packets (d_stats self)) [] = Inr (entry', st', [] @ segs)"
      and post: "slot_post B P (slot_entry B self (s_slot x)) (inc packets (d_stats self)) entry' st' segs"
      using bit_set.slot_insert_post [OF env(1) slot_entry_ok [OF env(1) assms(4)] x(1-3) env(2,3)] by blast
    have keys: "\<forall>k\<in>om_keys (d_slots self). unat k + unat ?lb < 2 ^ 64"
      using assms(4) by (simp add: desh_ok_def)
    have ins': "slot_insert B hashv (if c_recover (d_config self) then Some rs else None)
        (slot_entry B self (s_slot x)) x (inc packets (d_stats self)) [] = Inr (entry', st', segs)" using ins by simp
    show thesis
      by (rule that(2) [OF ok young(1) x(4) young(2) post ins' push_raw_slot [OF ok young(1) x(4) young(2) limit keys ins']])
  qed
qed

lemma desh_ok_pushed:
  assumes ok: "desh_ok B P self" and entry: "slot_ok B P entry'" "settled B entry'"
    and sum: "unat slot + unat (c_slot_lookback (d_config self)) < 2 ^ 64"
    and young: "unat (d_highest_slot self) \<le> unat slot + unat (c_slot_lookback (d_config self))"
  shows "desh_ok B P (pushed self slot entry' segs st)"
proof -
  let ?lb = "c_slot_lookback (d_config self)" and ?moved = "moves self slot segs"
  let ?m = "slots_after (d_config self) ?moved slot entry' (d_slots self)"
  have m: "om_ok (d_slots self)" using ok by (simp add: desh_ok_def)
  have good: "slot_ok B P s \<and> settled B s" if "om_get ?m k = Some s" for k s
  proof -
    have "(k, s) \<in> set (om_put slot entry' (d_slots self))"
      using that slots_after_sub(1) [OF m] om_get_in [OF slots_after_ok [OF m]] by metis
    then have "om_get (om_put slot entry' (d_slots self)) k = Some s" using om_get_in [OF om_put_ok [OF m]] by blast
    moreover have "slot_ok B P v \<and> settled B v" if "om_get (d_slots self) l = Some v" for l v
      using ok that by (simp add: desh_ok_def)
    ultimately show ?thesis
      using om.all_put [where Q = "\<lambda>_ v. slot_ok B P v \<and> settled B v", OF m] entry by blast
  qed
  have keys: "unat k + unat ?lb < 2 ^ 64 \<and> unat (if ?moved then slot else d_highest_slot self) \<le> unat k + unat ?lb"
    if k: "k \<in> om_keys ?m" for k
  proof -
    obtain s where s: "(k, s) \<in> set ?m" using k by (auto simp: om_keys_def)
    then have "k \<in> insert slot (om_keys (d_slots self))"
      using slots_after_sub(1) [OF m s] om_keys_put [of slot entry' "d_slots self"] by (force simp: om_keys_def)
    then have "unat k + unat ?lb < 2 ^ 64 \<and> unat (d_highest_slot self) \<le> unat k + unat ?lb"
      using ok sum young by (auto simp: desh_ok_def)
    then show ?thesis using slots_after_sub(2) [OF m s] by simp
  qed
  show ?thesis
    unfolding desh_ok_def using good keys slots_after_ok [OF m] by (simp add: pushed_def)
qed

lemma pushed_bound: "length (d_slots (pushed self slot entry' segs st)) \<le> 4 * unat (c_slot_lookback (d_config self))"
  by (simp add: slots_after_def)

section \<open>Handing out batches\<close>

text \<open>The callback that collects the raw batches.\<close>

definition collect :: "raw_batch \<Rightarrow> stats \<times> raw_batch list \<Rightarrow> stats \<times> raw_batch list" where
  "collect raw = (\<lambda>(st, bs). (st, bs @ [raw]))"

lemma hand_out_collect:
  "hand_out collect slot segs (st, bs) = (add batches (word_of_nat (length segs)) st, bs @ map (segment_batch slot) segs)"
proof (induction segs arbitrary: st bs)
  case Nil
  then show ?case by (simp add: add_def)
next
  case (Cons seg segs)
  have "add batches n (inc batches st) = add batches (n + 1) st" for n
    by (simp add: add_def inc_def algebra_simps)
  with Cons show ?case by (simp add: collect_def add.commute)
qed

text \<open>The counters a batch may change, and what they say about the decoded output.\<close>

definition batch_sums :: "stats \<Rightarrow> 'tx entry_batch list \<Rightarrow> bool" where
  "batch_sums st out \<longleftrightarrow>
     st batches = word_of_nat (length out) + st block_markers + st decode_errors \<and>
     st entries_count = word_of_nat (sum_list (map (length \<circ> eb_entries) out)) \<and>
     st transactions_count = word_of_nat (sum_list (map num_transactions out))"

abbreviation batch_counters :: "counter set" where
  "batch_counters \<equiv> {batches, block_markers, decode_errors, entries_count, transactions_count}"

lemma sum_list_words: "sum_list (map (\<lambda>x. word_of_nat (f x) :: u64) xs) = word_of_nat (sum_list (map f xs))"
  by (induction xs) simp_all

lemma decode_batch_sums:
  assumes "decode_batch deserialize raw (inc batches st, out) = (st', out')" and "batch_sums st out"
  shows "batch_sums st' out'" and "\<forall>c. c \<notin> batch_counters \<longrightarrow> st' c = st c"
  using assms
  by (auto simp: decode_batch_def batch_sums_def num_transactions_def inc_apply add_apply sum_list_words
      split: sum.splits block_data.splits)

lemma hand_out_sums:
  assumes "hand_out (decode_batch deserialize) slot segs (st, out) = (st', out')" and "batch_sums st out"
  shows "batch_sums st' out' \<and> (\<forall>c. c \<notin> batch_counters \<longrightarrow> st' c = st c)"
  using assms
proof (induction segs arbitrary: st out)
  case (Cons seg segs)
  obtain st1 out1 where step: "decode_batch deserialize (segment_batch slot seg) (inc batches st, out) = (st1, out1)"
    by fastforce
  with Cons.prems have rest: "hand_out (decode_batch deserialize) slot segs (st1, out1) = (st', out')" by simp
  from Cons.IH [OF rest] decode_batch_sums [OF step Cons.prems(2)] show ?case by simp
qed simp

section \<open>Sequences of packets\<close>

definition push_raws :: "bool \<Rightarrow> 'b bitset_ops \<Rightarrow> hasher \<Rightarrow> 'r reconstructor \<Rightarrow>
    (raw_batch \<Rightarrow> stats \<times> 'o \<Rightarrow> stats \<times> 'o) \<Rightarrow> bytes list \<Rightarrow> 'b deshredder \<times> 'o \<Rightarrow> ('b deshredder \<times> 'o) run" where
  "push_raws oc B hashv rs out ps = fold_out (push_raw oc B hashv rs out) ps"

text \<open>The limits on memory and window that hold between two packets.\<close>

definition desh_bounded :: "'b bitset_ops \<Rightarrow> config \<Rightarrow> 'b deshredder \<Rightarrow> bool" where
  "desh_bounded B config self \<longleftrightarrow> d_config self = config \<and> desh_ok B (\<lambda>_. True) self \<and>
     length (d_slots self) \<le> 4 * unat (c_slot_lookback config)"

lemma push_raw_bounded:
  assumes "bit_set B" and "digest32 hashv" and "rs_in_place rs" and "4 * unat (c_slot_lookback config) < 2 ^ 64"
    and "packet_ok config (\<lambda>_. True) packet" and "desh_bounded B config self"
  shows "\<exists>self' o2. push_raw oc B hashv rs out packet (self, o') = Inr (self', o2) \<and> desh_bounded B config self' \<and>
    unat (d_highest_slot self) \<le> unat (d_highest_slot self')"
proof -
  have cfg: "d_config self = config" and ok: "desh_ok B (\<lambda>_. True) self" using assms(6) by (simp_all add: desh_bounded_def)
  have rs: "rs_ok (\<lambda>_. True) (if c_recover (d_config self) then Some rs else None)"
    using assms(3) by (simp add: rs_ok_def rs_keeps_def)
  show ?thesis
  proof (cases rule: push_raw_cases [OF assms(1,2) rs ok assms(5) [folded cfg] assms(4) [folded cfg], of oc out o',
        case_names early slot])
    case (early c)
    then show ?thesis using assms(6) by (auto simp: desh_bounded_def desh_ok_def)
  next
    case (slot x entry' st' segs)
    have "slot_ok B (\<lambda>_. True) entry'" "settled B entry'" using slot(5) by (simp_all add: slot_post_def)
    from desh_ok_pushed [OF ok this slot(3,4)] have
      "desh_bounded B config (pushed self (s_slot x) entry' segs (fst (hand_out out (s_slot x) segs (st', o'))))"
      by (simp add: desh_bounded_def cfg pushed_bound [of self, unfolded cfg, simplified] del: pushed_simps(4)) 
        (simp add: cfg slots_after_def)
    moreover have "unat (d_highest_slot self) \<le> unat (if moves self (s_slot x) segs then s_slot x else d_highest_slot self)"
      by (simp add: moves_def word_less_nat_alt)
    ultimately show ?thesis using slot(7) by auto
  qed
qed

lemma push_raws_bounded:
  assumes "bit_set B" and "digest32 hashv" and "rs_in_place rs" and "4 * unat (c_slot_lookback config) < 2 ^ 64"
    and "\<forall>p\<in>set ps. packet_ok config (\<lambda>_. True) p" and "desh_bounded B config self"
  shows "\<exists>self' o2. push_raws oc B hashv rs out ps (self, o') = Inr (self', o2) \<and> desh_bounded B config self' \<and>
    unat (d_highest_slot self) \<le> unat (d_highest_slot self')"
  using assms(5,6)
proof (induction ps arbitrary: self o')
  case Nil
  then show ?case by (simp add: push_raws_def)
next
  case (Cons p ps)
  obtain self1 o1 where step: "push_raw oc B hashv rs out p (self, o') = Inr (self1, o1)" "desh_bounded B config self1"
    "unat (d_highest_slot self) \<le> unat (d_highest_slot self1)"
    using push_raw_bounded [OF assms(1-4) _ Cons.prems(2), of p oc out o'] Cons.prems(1) by auto
  from Cons.IH [OF _ step(2), of o1] Cons.prems(1) step show ?case
    by (auto simp: push_raws_def intro: le_trans)
qed

lemma desh_bounded_new: "desh_bounded B config (with_stats config st)"
  using desh_ok_new by (simp add: desh_bounded_def with_stats_def)

text \<open>The books: every datagram is counted, at most once as not used, and every batch has one outcome.\<close>

definition unused :: "stats \<Rightarrow> u64" where
  "unused st = st invalid + st wrong_version + st stale + st duplicates + st unneeded + st rejected"

definition accounted :: "nat \<Rightarrow> stats \<Rightarrow> 'tx entry_batch list \<Rightarrow> bool" where
  "accounted n st out \<longleftrightarrow> st packets = word_of_nat n \<and> batch_sums st out \<and> (\<exists>m\<le>n. unused st = word_of_nat m)"

lemma unused_inc: "c \<in> {invalid, wrong_version, stale, duplicates, unneeded, rejected} \<Longrightarrow> unused (inc c st) = unused st + 1"
  by (auto simp: unused_def inc_apply)

lemma accounted_same:
  assumes "accounted n st out" and "st' packets = st packets + 1" and "batch_sums st' out'"
    and "unused st' = unused st \<or> unused st' = unused st + 1"
  shows "accounted (Suc n) st' out'"
proof -
  obtain m where m: "m \<le> n" "unused st = word_of_nat m" using assms(1) by (auto simp: accounted_def)
  then have "unused st' = word_of_nat m \<or> unused st' = word_of_nat (Suc m)" using assms(4) by auto
  with m(1) have "\<exists>m\<le>Suc n. unused st' = word_of_nat m" by (meson Suc_le_mono le_SucI)
  with assms show ?thesis by (simp add: accounted_def add.commute)
qed

lemma slot_stats_sums:
  assumes "slot_stats segs (inc packets st) st'" and "batch_sums st out"
  shows "batch_sums st' out" and "st' packets = st packets + 1" and "unused st' = unused st \<or> unused st' = unused st + 1"
  using assms
  by (auto simp: slot_stats_def recover_stats_def batch_sums_def unused_def inc_apply add_apply)

lemma push_accounted:
  assumes "bit_set B" and "digest32 hashv" and "rs_in_place rs" and "4 * unat (c_slot_lookback config) < 2 ^ 64"
    and "packet_ok config (\<lambda>_. True) packet" and "desh_bounded B config self" and "accounted n (d_stats self) out"
  shows "\<exists>self' out'. push oc B hashv rs deserialize packet (self, out) = Inr (self', out') \<and>
    desh_bounded B config self' \<and> accounted (Suc n) (d_stats self') out'"
proof -
  have cfg: "d_config self = config" and ok: "desh_ok B (\<lambda>_. True) self" using assms(6) by (simp_all add: desh_bounded_def)
  have rs: "rs_ok (\<lambda>_. True) (if c_recover (d_config self) then Some rs else None)"
    using assms(3) by (simp add: rs_ok_def rs_keeps_def)
  have sums: "batch_sums (d_stats self) out" using assms(7) by (simp add: accounted_def)
  obtain self' out' where run: "push oc B hashv rs deserialize packet (self, out) = Inr (self', out')"
      "desh_bounded B config self'"
    using push_raw_bounded [OF assms(1-6), where oc = oc and out = "decode_batch deserialize" and o' = out]
    by (auto simp: push_def)
  have "accounted (Suc n) (d_stats self') out'"
  proof (cases rule: push_raw_cases [OF assms(1,2) rs ok assms(5) [folded cfg] assms(4) [folded cfg], of oc
        "decode_batch deserialize" out, case_names early slot])
    case (early c)
    with run(1) have st': "d_stats self' = inc c (inc packets (d_stats self))" "out' = out" by (auto simp: push_def)
    have "unused (inc packets (d_stats self)) = unused (d_stats self)" by (simp add: unused_def inc_apply)
    with early(1) have "unused (d_stats self') = unused (d_stats self) + 1"
      unfolding st' by (subst unused_inc) auto
    moreover have "batch_sums (d_stats self') out'" "d_stats self' packets = d_stats self packets + 1"
      using early(1) sums unfolding st' by (auto simp: batch_sums_def inc_apply)
    ultimately show ?thesis using accounted_same [OF assms(7)] by blast
  next
    case (slot x entry' st' segs)
    obtain st2 where ho: "hand_out (decode_batch deserialize) (s_slot x) segs (st', out) = (st2, out')" "d_stats self' = st2"
      using slot(7) run(1) by (cases "hand_out (decode_batch deserialize) (s_slot x) segs (st', out)") (auto simp: push_def)
    have ss: "slot_stats segs (inc packets (d_stats self)) st'" using slot(5) by (simp add: slot_post_def)
    note s = slot_stats_sums [OF ss sums]
    have st2: "batch_sums st2 out'" "\<forall>c. c \<notin> batch_counters \<longrightarrow> st2 c = st' c" using hand_out_sums [OF ho(1) s(1)] by auto
    then have "unused st2 = unused st'" by (simp add: unused_def)
    with s(2,3) st2 show ?thesis unfolding ho(2) by (intro accounted_same [OF assms(7)]) auto
  qed
  with run show ?thesis by blast
qed

lemma pushes_accounted:
  assumes "bit_set B" and "digest32 hashv" and "rs_in_place rs" and "4 * unat (c_slot_lookback config) < 2 ^ 64"
    and "\<forall>p\<in>set ps. packet_ok config (\<lambda>_. True) p" and "desh_bounded B config self" and "accounted n (d_stats self) out"
  shows "\<exists>self' out'. fold_out (push oc B hashv rs deserialize) ps (self, out) = Inr (self', out') \<and>
    accounted (n + length ps) (d_stats self') out'"
  using assms(5-7)
proof (induction ps arbitrary: self out n)
  case (Cons p ps)
  then obtain self1 out1 where step: "push oc B hashv rs deserialize p (self, out) = Inr (self1, out1)"
      "desh_bounded B config self1" "accounted (Suc n) (d_stats self1) out1"
    using push_accounted [OF assms(1-4), of p self n out oc deserialize] by auto
  from Cons.IH [OF _ step(2,3)] Cons.prems(1) step(1) show ?case by simp
qed auto

lemma decode_batch_append:
  "decode_batch deserialize raw (st, out @ new) = (let (st', new') = decode_batch deserialize raw (st, new) in (st', out @ new'))"
  by (simp add: decode_batch_def split: sum.split block_data.split)

lemma hand_out_append:
  "hand_out (decode_batch deserialize) slot segs (st, out @ new) =
    (let (st', new') = hand_out (decode_batch deserialize) slot segs (st, new) in (st', out @ new'))"
proof (induction segs arbitrary: st new)
  case (Cons seg segs)
  show ?case
    by (cases "decode_batch deserialize (segment_batch slot seg) (inc batches st, new)")
      (simp add: decode_batch_append Cons.IH)
qed simp

text \<open>The output vector is only appended to.\<close>

lemma push_append:
  "push oc B hashv rs deserialize packet (self, out) =
    bind_out (push oc B hashv rs deserialize packet (self, [])) (\<lambda>(self', new). Inr (self', out @ new))"
proof -
  note h = hand_out_append [of deserialize _ _ _ out "[]", simplified]
  show ?thesis
  proof (cases rule: parse_cases [of packet])
    case (err e)
    then show ?thesis by (simp add: push_def push_raw_def Let_def)
  next
    case (ok x)
    show ?thesis
      by (simp add: push_def push_raw_def ok Let_def h bind_out_assoc split_def if_distrib [of "\<lambda>r. bind_out r _"] cong: if_cong)
  qed
qed

section \<open>Properties\<close>

text \<open>
  C16. Whatever datagrams arrive (any bytes, any order), as long as code shreds stay inside their slot
  and slot numbers do not reach the end of \<open>u64\<close>: the deshredder never panics, with or without
  overflow checks; it never keeps more than four times the lookback of slots; the slots it keeps all
  lie in the retention window; and the highest slot never decreases.
\<close>

theorem deshredder_bounded:
  assumes "bit_set B" and "digest32 hashv" and "rs_in_place rs" and "4 * unat (c_slot_lookback config) < 2 ^ 64"
    and "\<forall>p\<in>set ps. packet_ok config (\<lambda>_. True) p" and "\<forall>p\<in>set qs. packet_ok config (\<lambda>_. True) p"
  shows "\<exists>self o1 self' o2.
    push_raws oc B hashv rs out ps (with_stats config st, o0) = Inr (self, o1) \<and>
    push_raws oc B hashv rs out qs (self, o1) = Inr (self', o2) \<and>
    length (d_slots self') \<le> 4 * unat (c_slot_lookback config) \<and>
    (\<forall>k\<in>om_keys (d_slots self'). unat (d_highest_slot self') \<le> unat k + unat (c_slot_lookback config)) \<and>
    d_highest_slot self \<le> d_highest_slot self'"
proof -
  obtain self o1 where one: "push_raws oc B hashv rs out ps (with_stats config st, o0) = Inr (self, o1)"
      "desh_bounded B config self"
    using push_raws_bounded [OF assms(1-5) desh_bounded_new [of B config st], where oc = oc and out = out and o' = o0] by blast
  obtain self' o2 where two: "push_raws oc B hashv rs out qs (self, o1) = Inr (self', o2)"
      "desh_bounded B config self'" "unat (d_highest_slot self) \<le> unat (d_highest_slot self')"
    using push_raws_bounded [OF assms(1-4,6) one(2), where oc = oc and out = out and o' = o1] by blast
  have "\<forall>k\<in>om_keys (d_slots self'). unat (d_highest_slot self') \<le> unat k + unat (c_slot_lookback config)"
    and "length (d_slots self') \<le> 4 * unat (c_slot_lookback config)"
    using two(2) by (auto simp: desh_bounded_def desh_ok_def)
  with one(1) two(1,3) show ?thesis by (auto simp: word_le_nat_alt)
qed

lemma sample_packet_ok: "packet_ok config_default (\<lambda>_. True) (s_bytes (sample_data_shred 3))"
  by (simp add: packet_ok_def parse_sample_data_shred config_default_def) (simp add: sample_data_shred_def)

theorem deshredder_bounded_witness:
  "\<exists>self o1 self' o2.
    push_raws True bits_model sample_hash (codeword_rs sample_codeword) collect
      [s_bytes (sample_data_shred 3)] (with_stats config_default stats_default, []) = Inr (self, o1) \<and>
    push_raws True bits_model sample_hash (codeword_rs sample_codeword) collect [] (self, o1) = Inr (self', o2) \<and>
    length (d_slots self') \<le> 4 * unat (c_slot_lookback config_default) \<and>
    (\<forall>k\<in>om_keys (d_slots self'). unat (d_highest_slot self') \<le> unat k + unat (c_slot_lookback config_default)) \<and>
    d_highest_slot self \<le> d_highest_slot self'"
  by (rule deshredder_bounded [OF nat_bits.bit_set_axioms digest32_sample_hash codeword_rs_in_place])
    (simp_all add: config_default_def sample_packet_ok [unfolded config_default_def])





text \<open>
  With a lookback of zero the deshredder keeps no slot at all: the state of the slot is popped after
  every packet, so no batch of more than one datagram's data is ever assembled.
\<close>

lemma zero_lookback_forgets:
  assumes "bit_set B" and "digest32 hashv" and "rs_in_place rs" and "c_slot_lookback config = 0"
    and "\<forall>p\<in>set ps. packet_ok config (\<lambda>_. True) p"
  shows "\<exists>self' o2. push_raws oc B hashv rs out ps (with_stats config st, o0) = Inr (self', o2) \<and> d_slots self' = []"
  using push_raws_bounded [OF assms(1-3) _ assms(5) desh_bounded_new [of B config st], where oc = oc and out = out and o' = o0]
  by (auto simp: assms(4) desh_bounded_def)

text \<open>
  A shred whose slot lies within the lookback of the end of \<open>u64\<close> parses, and its packet makes
  \<open>push_raw\<close> panic in a build with overflow checks; without them it is counted stale as soon as the
  window has moved past the wrapped sum, although its slot is the newest.
\<close>

lemma slot_sum_overflow:
  assumes "parse packet = Inr x" and "\<not> wrong_ver (d_config self) x"
    and "2 ^ 64 \<le> unat (s_slot x) + unat (c_slot_lookback (d_config self))"
  shows "push_raw True B hashv rs out packet (self, o') = Inl (Panic ArithmeticOverflow) \<and>
    (s_slot x + c_slot_lookback (d_config self) < d_highest_slot self \<longrightarrow>
      push_raw False B hashv rs out packet (self, o') = Inr (self\<lparr>d_stats := inc stale (inc packets (d_stats self))\<rparr>, o'))"
  using assms by (simp add: push_raw_def Let_def wrong_ver_def [symmetric] add_u64_def)

lemma slot_sum_overflow_reached:
  "\<exists>packet x. parse packet = Inr x \<and>
     push_raw True bits_model sample_hash (codeword_rs sample_codeword) collect packet
       (with_stats config_default stats_default, []) = Inl (Panic ArithmeticOverflow) \<and>
     push_raw False bits_model sample_hash (codeword_rs sample_codeword) collect packet
       ((with_stats config_default stats_default)\<lparr>d_highest_slot := 1000\<rparr>, []) =
       Inr ((with_stats config_default stats_default)
         \<lparr>d_highest_slot := 1000, d_stats := inc stale (inc packets stats_default)\<rparr>, [])"
proof -
  let ?p = "code_wire (replicate 64 0) 0x66 0xFFFFFFFFFFFFFFFF 40 0 0 32 32 8 (replicate 1139 0)"
  have "\<exists>x. parse ?p = Inr x \<and> s_slot x = 0xFFFFFFFFFFFFFFFF"
    by (subst parse_code_layout [where resigned = False and cap = 987 and nonce = "[]", simplified])
      (simp_all add: shred_variant_def capacity_def wire_size_def headers_size_def)
  then obtain x where x: "parse ?p = Inr x" "s_slot x = 0xFFFFFFFFFFFFFFFF" by blast
  let ?d = "with_stats config_default stats_default :: (nat \<times> nat set) deshredder"
  have c: "c_slot_lookback config_default = 64" "\<not> wrong_ver config_default x"
    by (simp_all add: config_default_def wrong_ver_def)
  have over: "2 ^ 64 \<le> unat (s_slot x) + unat (c_slot_lookback config_default)" by (simp add: x(2) c)
  have "push_raw True bits_model sample_hash (codeword_rs sample_codeword) collect ?p (?d, []) = Inl (Panic ArithmeticOverflow)"
    using slot_sum_overflow [OF x(1), of ?d] c over by (simp add: with_stats_def)
  moreover have "push_raw False bits_model sample_hash (codeword_rs sample_codeword) collect ?p (?d\<lparr>d_highest_slot := 1000\<rparr>, []) =
      Inr (?d\<lparr>d_highest_slot := 1000, d_stats := inc stale (inc packets stats_default)\<rparr>, [])"
    using slot_sum_overflow [OF x(1), of "?d\<lparr>d_highest_slot := 1000\<rparr>" bits_model sample_hash "codeword_rs sample_codeword" collect "[]"]
      c over by (simp add: with_stats_def x(2))
  ultimately show ?thesis using x(1) by blast
qed

end
