(* ===== verification/Raw.thy ===== *)
theory Raw
  imports Deshredder
begin

text \<open>
  The two ways to receive from the deshredder: \<open>push_raw\<close> hands out the bytes of every complete run, \<open>push\<close>
  decodes them first. This theory compares two runs over the same datagrams. They differ in the counters of the
  decoder only, because nothing in the code branches on a counter.
\<close>

section \<open>Runs that differ in the decoder's counters\<close>

abbreviation decode_counters :: "counter set" where
  "decode_counters \<equiv> {block_markers, decode_errors, entries_count, transactions_count}"

definition same_counts :: "stats \<Rightarrow> stats \<Rightarrow> bool" where
  "same_counts st st' \<longleftrightarrow> (\<forall>c. c \<notin> decode_counters \<longrightarrow> st c = st' c)"

lemma same_counts_refl [simp]: "same_counts st st"
  by (simp add: same_counts_def)

lemma same_counts_inc [intro!]: "same_counts st st' \<Longrightarrow> same_counts (inc c st) (inc c st')"
  by (simp add: same_counts_def inc_def)

lemma same_counts_add [intro!]: "same_counts st st' \<Longrightarrow> same_counts (add c n st) (add c n st')"
  by (simp add: same_counts_def add_def)

text \<open>Two computations that fail alike and whose results are related.\<close>

abbreviation alike :: "('a \<Rightarrow> 'b \<Rightarrow> bool) \<Rightarrow> ('e, 'a) outcome \<Rightarrow> ('e, 'b) outcome \<Rightarrow> bool" where
  "alike \<equiv> rel_sum (=)"

lemma alike_bind:
  assumes "alike R a b" and "\<And>x y. R x y \<Longrightarrow> alike S (f x) (g y)"
  shows "alike S (bind_out a f) (bind_out b g)"
  using assms by (cases rule: rel_sum.cases) (auto simp: bind_out_def)

lemma alike_same: "(\<And>x. alike S (f x) (g x)) \<Longrightarrow> alike S (bind_out a f) (bind_out a g)"
  by (rule alike_bind [of "(=)"]) (auto intro: rel_sum.intros simp: rel_sum_simps sum.rel_eq)

lemma alike_if: "(c \<Longrightarrow> alike R a b) \<Longrightarrow> (\<not> c \<Longrightarrow> alike R a' b') \<Longrightarrow> alike R (if c then a else a') (if c then b else b')"
  by simp

lemma recover_step_alike:
  assumes "same_counts st st'"
  shows "alike (rel_prod (=) (rel_prod (=) same_counts)) (recover_step rs fs fresh st) (recover_step rs fs fresh st')"
  using assms by (cases rs) (auto simp: recover_step_def intro!: alike_same split: sum.split)

lemma slot_insert_alike:
  assumes "same_counts st st'"
  shows "alike (rel_prod (=) (rel_prod same_counts (=))) (slot_insert B hashv rs self shred st out) (slot_insert B hashv rs self shred st' out)"
proof -
  note inc = same_counts_inc [OF assms]
  have rest: "alike (rel_prod (=) (rel_prod same_counts (=)))
      (bind_out (recover_step rs fs fresh st) (\<lambda>(fs2, fresh, st2). bind_out (m fs2 fresh) (\<lambda>s. bind_out (k fresh s) (\<lambda>(a, b). Inr (a, st2, b)))))
      (bind_out (recover_step rs fs fresh st') (\<lambda>(fs2, fresh, st2). bind_out (m fs2 fresh) (\<lambda>s. bind_out (k fresh s) (\<lambda>(a, b). Inr (a, st2, b)))))"
    for fs fresh and m :: "fec_set \<Rightarrow> u32 list \<Rightarrow> 's run" and k :: "u32 list \<Rightarrow> 's \<Rightarrow> ('x \<times> 'y) run"
    by (rule alike_bind [OF recover_step_alike [OF assms]]) (auto intro!: alike_same)
  show ?thesis
    unfolding slot_insert_def Let_def
    by (auto intro!: alike_same rest inc split: insert_result.split)
qed
section \<open>Raw and decoded output\<close>

text \<open>The entry batch of a raw batch, if its bytes decode to one.\<close>

definition batch_of :: "('w, 'tx) deserializer \<Rightarrow> raw_batch \<Rightarrow> 'tx entry_batch option" where
  "batch_of deserialize raw = (case entry_decode deserialize (rb_bytes raw) of
     Inr (Entries entries) \<Rightarrow> Some \<lparr>eb_slot = rb_slot raw, eb_start = rb_start raw, eb_end = rb_end raw,
       eb_last_in_slot = rb_last_in_slot raw, eb_entries = entries\<rparr>
   | _ \<Rightarrow> None)"

abbreviation decode_all :: "('w, 'tx) deserializer \<Rightarrow> raw_batch list \<Rightarrow> 'tx entry_batch list" where
  "decode_all deserialize \<equiv> List.map_filter (batch_of deserialize)"

definition decoded :: "('w, 'tx) deserializer \<Rightarrow> 'tx entry_batch list \<Rightarrow> stats \<times> raw_batch list \<Rightarrow>
    stats \<times> 'tx entry_batch list \<Rightarrow> bool" where
  "decoded deserialize base = (\<lambda>(st, raws) (st', out). same_counts st st' \<and> out = base @ decode_all deserialize raws)"

lemma map_filter_append: "List.map_filter f (xs @ ys) = List.map_filter f xs @ List.map_filter f ys"
  by (simp add: List.map_filter_def)

lemma decode_batch_decoded:
  assumes "decoded deserialize base (st, raws) (st', out)"
  shows "decoded deserialize base (collect raw (st, raws)) (decode_batch deserialize raw (st', out))"
  using assms
  by (auto simp: decoded_def collect_def decode_batch_def batch_of_def map_filter_append same_counts_def inc_def add_def
      split: sum.splits block_data.splits)

lemma hand_out_decoded:
  assumes "decoded deserialize base so so'"
  shows "decoded deserialize base (hand_out collect slot segs so) (hand_out (decode_batch deserialize) slot segs so')"
  using assms
proof (induction segs arbitrary: so so')
  case (Cons seg segs)
  obtain st raws st' out where so: "so = (st, raws)" "so' = (st', out)" by (metis surj_pair)
  have "decoded deserialize base (inc batches st, raws) (inc batches st', out)" using Cons.prems by (auto simp: so decoded_def)
  from Cons.IH [OF decode_batch_decoded [OF this]] show ?case by (simp add: so)
qed simp

text \<open>The two deshredders: equal but for their counters.\<close>

definition decodes :: "('w, 'tx) deserializer \<Rightarrow> 'tx entry_batch list \<Rightarrow> 'b deshredder \<times> raw_batch list \<Rightarrow>
    'b deshredder \<times> 'tx entry_batch list \<Rightarrow> bool" where
  "decodes deserialize base = (\<lambda>(self, raws) (self', out). self' = self\<lparr>d_stats := d_stats self'\<rparr> \<and>
     decoded deserialize base (d_stats self, raws) (d_stats self', out))"

lemma decodes_refl: "decodes deserialize [] (self, []) (self, [])"
  by (simp add: decodes_def decoded_def List.map_filter_def)

lemma push_decodes:
  assumes "decodes deserialize base so so'"
  shows "alike (decodes deserialize base) (push_raw oc B hashv rs collect packet so) (push oc B hashv rs deserialize packet so')"
proof -
  obtain self raws self' out where so: "so = (self, raws)" "so' = (self', out)" by (metis surj_pair)
  have self': "self' = self\<lparr>d_stats := d_stats self'\<rparr>" and rel: "decoded deserialize base (d_stats self, raws) (d_stats self', out)"
    using assms by (simp_all add: so decodes_def)
  obtain st' where st': "self' = self\<lparr>d_stats := st'\<rparr>" using self' by blast
  have same: "same_counts (d_stats self) st'" and out: "out = base @ decode_all deserialize raws"
    using rel by (simp_all add: decoded_def st')
  have counted: "decodes deserialize base (self\<lparr>d_stats := inc c (inc packets (d_stats self))\<rparr>, raws)
      (self\<lparr>d_stats := inc c (inc packets st')\<rparr>, out)" for c
    using same out by (auto simp: decodes_def decoded_def)
  show ?thesis
  proof (cases rule: parse_cases [of packet])
    case (err e)
    then show ?thesis using counted by (simp add: push_def push_raw_def Let_def so st')
  next
    case (ok x)
    have ins: "alike S (bind_out (slot_insert B hashv rso entry x (inc packets (d_stats self)) []) f)
        (bind_out (slot_insert B hashv rso entry x (inc packets st') []) g)"
      if "\<And>entry st1 st1' segs. same_counts st1 st1' \<Longrightarrow> alike S (f (entry, st1, segs)) (g (entry, st1', segs))"
      for S rso entry f g
      by (rule alike_bind [OF slot_insert_alike [OF same_counts_inc [OF same]]]) (use that in auto)
    have handed: "alike (decodes deserialize base)
        (case hand_out collect slot segs (st1, raws) of (st2, o2) \<Rightarrow> Inr (self\<lparr>d_slots := m, d_highest_slot := h, d_stats := st2, d_segments := []\<rparr>, o2))
        (case hand_out (decode_batch deserialize) slot segs (st1', out) of (st2, o2) \<Rightarrow>
          Inr (self\<lparr>d_slots := m, d_highest_slot := h, d_stats := st2, d_segments := []\<rparr>, o2))"
      if "same_counts st1 st1'" for slot segs st1 st1' m h
    proof -
      have "decoded deserialize base (st1, raws) (st1', out)" using that out by (simp add: decoded_def)
      from hand_out_decoded [OF this, of slot segs] show ?thesis
        by (auto simp: decodes_def split: prod.split)
    qed
    show ?thesis
      unfolding so st' push_def push_raw_def Let_def prod.case ok sum.case
      by (simp split del: if_split cong: if_cong, intro alike_if alike_same ins)
        (auto intro!: counted alike_same handed split del: if_split)
  qed
qed

text \<open>The same for a sequence of datagrams.\<close>

lemma pushes_decode:
  assumes "decodes deserialize base so so'"
  shows "alike (decodes deserialize base) (fold_out (push_raw oc B hashv rs collect) ps so) (fold_out (push oc B hashv rs deserialize) ps so')"
  using assms
proof (induction ps arbitrary: so so')
  case (Cons p ps)
  show ?case by (simp, rule alike_bind [OF push_decodes [OF Cons.prems] Cons.IH])
qed simp

lemma push_outcome:
  assumes "fold_out (push_raw oc B hashv rs collect) ps (with_stats config st, []) = Inr (self, raws)"
  shows "\<exists>st'. fold_out (push oc B hashv rs deserialize) ps (with_stats config st, []) =
    Inr (self\<lparr>d_stats := st'\<rparr>, decode_all deserialize raws) \<and> same_counts (d_stats self) st'"
  using pushes_decode [OF decodes_refl [where self = "with_stats config st"], where ps = ps and oc = oc and B = B and hashv = hashv and rs = rs
      and deserialize = deserialize] assms
  by (cases "fold_out (push oc B hashv rs deserialize) ps (with_stats config st, [])")
    (auto simp: decodes_def decoded_def intro!: exI [of _ "d_stats _"])

section \<open>Properties\<close>

text \<open>
  C7. \<open>push\<close> is \<open>push_raw\<close> followed by decoding, for any datagrams and any decoder: the two panic in the same cases,
  the entry batches of one are exactly the decodable raw batches of the other, decoded, in the same order, and the
  deshredders end in the same state but for the four counters of the decoder.
\<close>

theorem push_decodes_push_raw:
  "case fold_out (push_raw oc B hashv rs collect) ps (with_stats config st, []) of
     Inl f \<Rightarrow> fold_out (push oc B hashv rs deserialize) ps (with_stats config st, []) = Inl f
   | Inr (self, raws) \<Rightarrow> \<exists>st'. fold_out (push oc B hashv rs deserialize) ps (with_stats config st, []) =
       Inr (self\<lparr>d_stats := st'\<rparr>, List.map_filter (batch_of deserialize) raws) \<and>
       (\<forall>c. c \<in> {block_markers, decode_errors, entries_count, transactions_count} \<or> st' c = d_stats self c)"
proof -
  from pushes_decode [OF decodes_refl [where self = "with_stats config st"], where ps = ps and oc = oc and B = B and hashv = hashv and rs = rs and deserialize = deserialize] show ?thesis
  proof (cases rule: rel_sum.cases)
    case (2 x y)
    obtain self raws self' out where xy: "x = (self, raws)" "y = (self', out)" by (metis surj_pair)
    then show ?thesis using 2 by (auto simp: decodes_def decoded_def same_counts_def intro!: exI [of _ "d_stats self'"])
  qed auto
qed

end
