(* ===== verification/Progress.thy ===== *)
theory Progress
  imports Slot
begin

text \<open>
  Liveness of the slot assembly: what has arrived is enough. Every FEC set of a slot either has all its
  data shreds received, or is still short of being decodable and holds every shred that was inserted for
  it. So once enough shreds of a set have arrived, in any order and among any others, all its data shreds
  are received, and every batch whose sets got that far has been emitted.
\<close>

section \<open>One FEC set\<close>

text \<open>The shreds of a set carry the set's Merkle root and signature.\<close>

definition signed_by :: "hasher \<Rightarrow> (u32 \<Rightarrow> hash32) \<Rightarrow> (u32 \<Rightarrow> bytes) \<Rightarrow> shred \<Rightarrow> bool" where
  "signed_by hashv root sg x \<longleftrightarrow> shred_root hashv x = Some (root (s_fec_set_index x)) \<and>
     take 64 (s_bytes x) = sg (s_fec_set_index x)"

definition pinned_to :: "hash32 \<Rightarrow> bytes \<Rightarrow> fec_set \<Rightarrow> bool" where
  "pinned_to root sg fs \<longleftrightarrow> f_root fs = None \<or> f_root fs = Some root \<and> f_signature fs = sg"

definition same_place :: "shred \<Rightarrow> shred \<Rightarrow> bool" where
  "same_place x y \<longleftrightarrow> s_kind x = s_kind y \<and> erasure_shard_index x = erasure_shard_index y"

lemma slot_of_with_shred:
  assumes "fec_arrays_ok fec fs" and "shred_ok x" "s_fec_set_index x = fec" and "shred_ok y" "s_fec_set_index y = fec"
  shows "slot_of (with_shred fs x) y = (if same_place x y then Some x else slot_of fs y)"
  using assms(1) shred_position [OF assms(2,3)] shred_position [OF assms(4,5)]
  by (cases "s_kind x"; cases "s_kind y") (auto simp: slot_of_def with_shred_def same_place_def fec_arrays_ok_def nth_list_update)

lemma insert_tracks:
  assumes ok: "fec_ok fec fs" and x: "shred_ok x" "s_fec_set_index x = fec" and hash: "digest32 hashv"
    and sx: "signed_by hashv root sg x" and pin: "pinned_to (root fec) (sg fec) fs" and nc: "\<not> is_complete fs"
    and ins: "fec_insert hashv fs x = (Inr (fs1, v) :: (unit, _) outcome)"
  shows "v \<noteq> New \<Longrightarrow> fs1 = fs \<and> slot_of fs x \<noteq> None"
    and "v = New \<Longrightarrow> pinned_to (root fec) (sg fec) fs1 \<and>
      (\<forall>q<32. f_data fs1 ! q \<noteq> None \<longrightarrow> f_data fs ! q \<noteq> None \<or> s_kind x = Data \<and> q = erasure_shard_index x) \<and>
      (\<not> is_complete fs1 \<longrightarrow> slot_of fs1 x \<noteq> None \<and>
        (\<forall>y. shred_ok y \<and> s_fec_set_index y = fec \<and> slot_of fs y \<noteq> None \<longrightarrow> slot_of fs1 y \<noteq> None))"
proof -
  have v: "v = insert_verdict hashv fs x" and fs1: "fs1 = (if v = New then
      (if is_complete (with_shred (pinned hashv fs x) x) then drop_code (with_shred (pinned hashv fs x) x)
       else with_shred (pinned hashv fs x) x) else fs)"
    using ins unfolding fec_insert_eq [OF ok x hash] by (auto simp: Let_def split: if_splits)
  have verdict: "v = (if slot_of fs x \<noteq> None then Duplicate else New)"
    using sx pin nc x(2) unfolding v insert_verdict_def by (auto simp: signed_by_def pinned_to_def)
  show "v \<noteq> New \<Longrightarrow> fs1 = fs \<and> slot_of fs x \<noteq> None" using fs1 verdict by (auto split: if_splits)
  assume new: "v = New"
  let ?p = "pinned hashv fs x"
  have sig: "length (take 64 (s_bytes x)) = 64"
    using shred_ok_layout(3) [OF x(1)] wire_size_cases [of "s_kind x"] by auto
  then have arrays: "fec_arrays_ok fec ?p" using ok by (simp add: fec_ok_def fec_arrays_ok_def pinned_def)
  have same: "slot_of ?p y = slot_of fs y" for y by (cases "s_kind y") (simp_all add: slot_of_def pinned_def)
  have "f_root fs1 = Some (root fec) \<and> f_signature fs1 = sg fec"
    using sx x(2) new unfolding fs1 by (cases "s_kind x") (simp_all add: signed_by_def with_shred_def pinned_def drop_code_def)
  moreover have "f_data fs ! q \<noteq> None \<or> s_kind x = Data \<and> q = erasure_shard_index x" if "q < 32" "f_data fs1 ! q \<noteq> None" for q
    using that new arrays unfolding fs1
    by (cases "s_kind x") (auto simp: with_shred_def pinned_def drop_code_def nth_list_update split: if_splits)
  moreover have "slot_of fs1 x \<noteq> None \<and>
      (\<forall>y. shred_ok y \<and> s_fec_set_index y = fec \<and> slot_of fs y \<noteq> None \<longrightarrow> slot_of fs1 y \<noteq> None)" if "\<not> is_complete fs1"
  proof -
    have "fs1 = with_shred ?p x" using that new fs1 by (auto simp: drop_code_def is_complete_def split: if_splits)
    then show ?thesis using slot_of_with_shred [OF arrays x] x same by (auto simp: same_place_def)
  qed
  ultimately show "pinned_to (root fec) (sg fec) fs1 \<and>
      (\<forall>q<32. f_data fs1 ! q \<noteq> None \<longrightarrow> f_data fs ! q \<noteq> None \<or> s_kind x = Data \<and> q = erasure_shard_index x) \<and>
      (\<not> is_complete fs1 \<longrightarrow> slot_of fs1 x \<noteq> None \<and>
        (\<forall>y. shred_ok y \<and> s_fec_set_index y = fec \<and> slot_of fs y \<noteq> None \<longrightarrow> slot_of fs1 y \<noteq> None))"
    by (auto simp: pinned_to_def)
qed

text \<open>A set that is neither complete nor decodable has fewer than 32 places taken.\<close>

lemma few_places:
  assumes "fec_arrays_ok fec fs" and "\<not> is_complete fs" and "\<not> can_recover fs"
    and "\<forall>x\<in>H. shred_ok x \<and> s_fec_set_index x = fec \<and> slot_of fs x \<noteq> None"
  shows "card (erasure_shard_index ` H) < 32"
proof -
  have lens: "length (f_data fs) = 32" "length (f_code fs) = 32" using assms(1) by (simp_all add: fec_arrays_ok_def)
  let ?D = "{i. i < 32 \<and> f_data fs ! i \<noteq> None}" and ?C = "{i. i < 32 \<and> f_code fs ! i \<noteq> None}"
  have "erasure_shard_index x \<in> ?D \<union> (\<lambda>i. 32 + i) ` ?C" if "x \<in> H" for x
  proof -
    have x: "shred_ok x" "s_fec_set_index x = fec" "slot_of fs x \<noteq> None" using assms(4) that by auto
    show ?thesis
    proof (cases "s_kind x")
      case Data
      then show ?thesis using x(3) shred_position(1) [OF x(1,2)] by (simp add: slot_of_def)
    next
      case Code
      then have "erasure_shard_index x - 32 \<in> ?C" "erasure_shard_index x = 32 + (erasure_shard_index x - 32)"
        using x(3) shred_position(2) [OF x(1,2)] by (simp_all add: slot_of_def)
      then show ?thesis by blast
    qed
  qed
  then have "card (erasure_shard_index ` H) \<le> card (?D \<union> (\<lambda>i. 32 + i) ` ?C)" by (intro card_mono) auto
  also have "\<dots> \<le> card ?D + card ((\<lambda>i. 32 + i) ` ?C)" by (rule card_Un_le)
  also have "card ((\<lambda>i. 32 + i) ` ?C) \<le> card ?C" by (rule card_image_le) simp
  also have "card ?D + card ?C = f_num_data fs + f_num_code fs"
    using assms(1) count_some_card [of "f_data fs"] count_some_card [of "f_code fs"] lens by (simp add: fec_arrays_ok_def)
  also have "\<dots> < 32"
  proof (rule ccontr)
    assume "\<not> f_num_data fs + f_num_code fs < 32"
    moreover from this have "f_num_code fs \<noteq> 0"
      using assms(1,2) count_some_le [of "f_data fs"] lens by (auto simp: is_complete_def fec_arrays_ok_def)
    ultimately show False using assms(2,3) by (simp add: can_recover_def)
  qed
  finally show ?thesis by simp
qed

section \<open>The invariant of a slot\<close>

definition all_received :: "'b bitset_ops \<Rightarrow> 'b slot_state \<Rightarrow> u32 \<Rightarrow> bool" where
  "all_received B self fec \<longleftrightarrow> (\<forall>q<32. recv B self (unat fec + q))"

text \<open>
  The set \<open>fec\<close> is still short: it is neither complete nor (with recovery on) decodable, it stores
  only received data shreds, and it stores every shred of \<open>H\<close> that belongs to it.
\<close>

definition set_short :: "'r reconstructor option \<Rightarrow> (nat \<Rightarrow> bool) \<Rightarrow> hash32 \<Rightarrow> bytes \<Rightarrow> shred set \<Rightarrow> u32 \<Rightarrow> fec_set \<Rightarrow> bool" where
  "set_short rs R root sg H fec fs \<longleftrightarrow> \<not> is_complete fs \<and> (rs \<noteq> None \<longrightarrow> \<not> can_recover fs) \<and>
     pinned_to root sg fs \<and> (\<forall>q<32. f_data fs ! q \<noteq> None \<longrightarrow> R (unat fec + q)) \<and>
     (\<forall>x\<in>H. s_fec_set_index x = fec \<longrightarrow> slot_of fs x \<noteq> None)"

definition progressing :: "'b bitset_ops \<Rightarrow> 'r reconstructor option \<Rightarrow> (u32 \<Rightarrow> hash32) \<Rightarrow> (u32 \<Rightarrow> bytes) \<Rightarrow>
    shred set \<Rightarrow> 'b slot_state \<Rightarrow> bool" where
  "progressing B rs root sg H self \<longleftrightarrow> (\<forall>fec. unat fec < 32768 \<and> unat fec mod 32 = 0 \<longrightarrow>
     all_received B self fec \<or> set_short rs (recv B self) (root fec) (sg fec) H fec (set_entry self fec))"

text \<open>The recovery of a decodable set of shreds with property \<open>P\<close> succeeds.\<close>

definition rs_recovers :: "(shred \<Rightarrow> bool) \<Rightarrow> 'r reconstructor option \<Rightarrow> bool" where
  "rs_recovers P rs \<longleftrightarrow> (\<forall>r fec fs. rs = Some r \<and> fec_ok fec fs \<and> can_recover fs \<and>
     (\<forall>s. Some s \<in> set (f_data fs @ f_code fs) \<longrightarrow> P s) \<longrightarrow>
     (\<exists>fs2 ix. (fec_recover r fs :: (unit, _) outcome) = Inr (fs2, Inr ix)))"

lemma progressing_default:
  assumes "bit_set B"
  shows "progressing B rs root sg {} (slot_default B)"
  by (simp add: progressing_def set_short_def set_entry_def slot_default_def fec_default_def is_complete_def can_recover_def
      pinned_to_def)

lemma full_all_received:
  assumes "bits_ok B self" and "full_set B self (unat fec div 32)" and "unat fec mod 32 = 0"
  shows "all_received B self fec"
proof -
  have "32 * (unat fec div 32) = unat fec" using mult_div_mod_eq [of 32 "unat fec"] assms(3) by simp
  then show ?thesis using assms(1,2) by (simp add: all_received_def full_set_def bits_ok_def)
qed

lemma all_received_mono:
  assumes "all_received B self fec" and "\<And>i. recv B self i \<Longrightarrow> recv B self' i"
  shows "all_received B self' fec"
  using assms by (auto simp: all_received_def)

text \<open>The recovery step: it fills a decodable set, and leaves any other alone.\<close>

lemma recover_step_fresh:
  assumes "fec_ok fec fs" and "\<forall>s. Some s \<in> set (f_data fs @ f_code fs) \<longrightarrow> P s" and "rs_ok P rs" and "rs_recovers P rs"
    and step: "recover_step rs fs fresh0 st = Inr (fs2, fresh, st2)" and count: "length fresh0 \<le> count_some (f_data fs)"
  shows "set fresh0 \<subseteq> set fresh"
    and "rs \<noteq> None \<and> can_recover fs \<Longrightarrow> q < 32 \<Longrightarrow> f_data fs ! q = None \<Longrightarrow> fec + word_of_nat q \<in> set fresh"
    and "\<not> (rs \<noteq> None \<and> can_recover fs) \<Longrightarrow> fs2 = fs"
proof -
  obtain ix where fresh: "fresh = fresh0 @ ix" using recover_step_post [OF assms(1-3) count, of st] step by auto
  then show "set fresh0 \<subseteq> set fresh" by simp
  show "\<not> (rs \<noteq> None \<and> can_recover fs) \<Longrightarrow> fs2 = fs" using step by (cases rs) (auto simp: recover_step_def)
  assume "rs \<noteq> None \<and> can_recover fs" and q: "q < 32" "f_data fs ! q = None"
  then obtain r where r: "rs = Some r" and can: "can_recover fs" by auto
  have "rs_in_place r" using assms(3) r by (simp add: rs_ok_def)
  from fec_recover_post [OF assms(1) can this] obtain fs' result where
    rec: "(fec_recover r fs :: (unit, _) outcome) = Inr (fs', result)" and post: "recover_post fec fs fs' result" by blast
  obtain jx where "result = Inr jx" using assms(1,2,4) r can rec unfolding rs_recovers_def by fastforce
  then have "jx = map (\<lambda>q. fec + word_of_nat q) (missing_from fs 0)" using post by (simp add: recover_post_def)
  moreover have "length fresh0 + length jx \<le> 32"
    using length_missing [of fs] assms(1) count calculation by (simp add: fec_ok_def fec_arrays_ok_def)
  then have "fresh = fresh0 @ jx" using step r can rec \<open>result = Inr jx\<close> by (simp add: recover_step_def fold_push_fresh)
  moreover have "q \<in> set (missing_from fs 0)" using q by (simp add: missing_from_def)
  ultimately show "fec + word_of_nat q \<in> set fresh" by simp
qed

text \<open>The set after an accepted shred.\<close>

lemma inserted_set:
  assumes "fec_ok fec fs" and "\<forall>s. Some s \<in> set (f_data fs @ f_code fs) \<longrightarrow> P s" and "shred_ok x" and "P x"
    and "fec = s_fec_set_index x" and "digest32 hashv" and ins: "fec_insert hashv fs x = (Inr (fs1, New) :: (unit, _) outcome)"
  shows "fec_ok fec fs1 \<and> (\<forall>s. Some s \<in> set (f_data fs1 @ f_code fs1) \<longrightarrow> P s) \<and>
    length (if is_data x then [s_index x] else []) \<le> count_some (f_data fs1)"
proof -
  note own = assms(5) [symmetric]
  obtain fs1' where "(fec_insert hashv fs x :: (unit, _) outcome) = Inr (fs1', insert_verdict hashv fs x)" "fec_ok fec fs1'"
    "insert_verdict hashv fs x = New \<Longrightarrow> s_kind x = Data \<Longrightarrow> f_data fs1' = (f_data fs)[erasure_shard_index x := Some x]"
    using fec_ok_insert [OF assms(1,3) own assms(6)] by metis
  then have fs1: "fec_ok fec fs1" "s_kind x = Data \<Longrightarrow> f_data fs1 = (f_data fs)[erasure_shard_index x := Some x]"
    using ins by simp_all
  have "0 < count_some (f_data fs1)" if "is_data x"
  proof -
    have "Some x \<in> set ((f_data fs)[erasure_shard_index x := Some x])"
      using that shred_position(1) [OF assms(3) own] assms(1)
      by (intro set_update_memI) (simp add: is_data_def fec_ok_def fec_arrays_ok_def)
    then show ?thesis using that fs1(2) by (auto simp: is_data_def count_some_pos)
  qed
  then show ?thesis
    using fs1(1) fec_insert_stored [OF assms(1,3) own assms(6) ins] assms(2,4) by (auto simp: Suc_le_eq)
qed

text \<open>One insertion keeps the other sets where they are, and brings the set of the shred along.\<close>

lemma progressing_other:
  assumes prog: "progressing B rs root sg H self" and fec: "unat fec < 32768" "unat fec mod 32 = 0"
    and bits: "bits_ok B self'" and mono: "\<And>i. recv B self i \<Longrightarrow> recv B self' i"
    and same: "sl_sets self' fec = sl_sets self fec \<or> full_set B self' (unat fec div 32)" and other: "s_fec_set_index x \<noteq> fec"
  shows "all_received B self' fec \<or> set_short rs (recv B self') (root fec) (sg fec) (insert x H) fec (set_entry self' fec)"
proof (cases "all_received B self fec \<or> full_set B self' (unat fec div 32)")
  case True
  then show ?thesis using all_received_mono [OF _ mono] full_all_received [OF bits _ fec(2)] by blast
next
  case False
  then have "set_short rs (recv B self) (root fec) (sg fec) H fec (set_entry self fec)" "set_entry self' fec = set_entry self fec"
    using prog fec same by (auto simp: progressing_def set_entry_def)
  then show ?thesis using mono other by (auto simp: set_short_def)
qed

context bit_set
begin

lemma data_received:
  assumes "shred_ok x" and "s_fec_set_index x = fec" and "is_data x" and "recv B self (unat (s_index x))"
    and "slot_ok B P self" and "unat fec < 32768"
  shows "full_set B self (unat fec div 32) \<or> slot_of (set_entry self fec) x \<noteq> None"
proof -
  let ?q = "erasure_shard_index x"
  have kind: "s_kind x = Data" using assms(3) by (simp add: is_data_def)
  have q: "?q < 32" "unat (s_index x) = unat fec + ?q"
    using shred_position(1) [OF assms(1,2) kind] by (auto simp: data_at_def)
  have al: "unat fec mod 32 = 0" using assms(1,2) by (auto simp: shred_ok_def)
  then show ?thesis
    using slot_set_entry(4) [OF assms(5,6) al refl _ q(1)] assms(4) kind q(2) by (auto simp: slot_of_def set_entry_def)
qed

lemma progressing_own:
  assumes ok: "slot_ok B P self" and x: "shred_ok x" "P x" "signed_by hashv root sg x"
    and fec: "fec = s_fec_set_index x" "unat fec < 32768" and hash: "digest32 hashv"
    and rs: "rs_ok P rs" "rs_recovers P rs" and H: "\<forall>y\<in>H. shred_ok y"
    and short: "set_short rs (recv B self) (root fec) (sg fec) H fec (set_entry self fec)"
    and ins: "fec_insert hashv (set_entry self fec) x = (Inr (fs1, New) :: (unit, _) outcome)"
    and acc: "accepted B rs fec fs1 (if is_data x then [s_index x] else []) self self'" and bits: "bits_ok B self'"
  shows "all_received B self' fec \<or> set_short rs (recv B self') (root fec) (sg fec) (insert x H) fec (set_entry self' fec)"
proof -
  let ?fs = "set_entry self fec" and ?fresh0 = "if is_data x then [s_index x] else []"
  have al: "unat fec mod 32 = 0" using x(1) fec(1) by (simp add: shred_ok_def)
  note entry = slot_set_entry [OF ok fec(2) al, unfolded set_entry_def [symmetric], OF refl]
  have nc: "\<not> is_complete ?fs" and pin: "pinned_to (root fec) (sg fec) ?fs"
    and got: "\<And>q. q < 32 \<Longrightarrow> f_data ?fs ! q \<noteq> None \<Longrightarrow> recv B self (unat fec + q)"
    and held: "\<forall>y\<in>H. s_fec_set_index y = fec \<longrightarrow> slot_of ?fs y \<noteq> None"
    using short by (simp_all add: set_short_def)
  have new: "pinned_to (root fec) (sg fec) fs1 \<and>
      (\<forall>q<32. f_data fs1 ! q \<noteq> None \<longrightarrow> f_data ?fs ! q \<noteq> None \<or> s_kind x = Data \<and> q = erasure_shard_index x) \<and>
      (\<not> is_complete fs1 \<longrightarrow> slot_of fs1 x \<noteq> None \<and>
        (\<forall>y. shred_ok y \<and> s_fec_set_index y = fec \<and> slot_of ?fs y \<noteq> None \<longrightarrow> slot_of fs1 y \<noteq> None))"
    using insert_tracks(2) [OF entry(1) x(1) fec(1) [symmetric] hash x(3) pin nc ins] by blast
  have fs1: "fec_ok fec fs1" "\<forall>s. Some s \<in> set (f_data fs1 @ f_code fs1) \<longrightarrow> P s"
    and count: "length ?fresh0 \<le> count_some (f_data fs1)"
    using inserted_set [OF entry(1,2) x(1,2) fec(1) hash ins] by blast+
  obtain fs2 fresh st st2 where step: "recover_step rs fs1 ?fresh0 st = Inr (fs2, fresh, st2)"
    and received: "\<forall>i. recv B self' i \<longleftrightarrow> recv B self i \<or> (\<exists>w\<in>set fresh. i = unat w)"
    and sets: "\<forall>f. sl_sets self' f = (if f = fec then Some fs2 else sl_sets self f) \<or> full_set B self' (unat f div 32)"
    using acc unfolding accepted_def by (elim exE conjE) (rule that)
  note recv' = spec [OF received]
  have sets': "sl_sets self' fec = Some fs2 \<or> full_set B self' (unat fec div 32)" using spec [OF sets, of fec] by simp
  note fresh = recover_step_fresh [OF fs1 rs step count]
  have present: "recv B self' (unat fec + q)" if "q < 32" "f_data fs1 ! q \<noteq> None" for q
  proof (cases "f_data ?fs ! q \<noteq> None")
    case True
    then show ?thesis using got [OF that(1)] recv' by blast
  next
    case False
    then have "s_kind x = Data" "q = erasure_shard_index x" using new that by blast+
    then have at: "is_data x" "unat (s_index x) = unat fec + q"
      using shred_position(1) [OF x(1) fec(1) [symmetric]] by (auto simp: data_at_def is_data_def)
    then have "s_index x \<in> set fresh" using fresh(1) by simp
    then show ?thesis unfolding recv' at(2) [symmetric] by blast
  qed
  consider (full) "is_complete fs1 \<or> full_set B self' (unat fec div 32)" | (recover) "rs \<noteq> None \<and> can_recover fs1"
    | (wait) "\<not> is_complete fs1" "\<not> (rs \<noteq> None \<and> can_recover fs1)" "\<not> full_set B self' (unat fec div 32)" by blast
  then show ?thesis
  proof cases
    case full
    then show ?thesis
      using present is_complete_iff [of fec fs1] fs1(1) full_all_received [OF bits _ al] by (auto simp: fec_ok_def all_received_def)
  next
    case recover
    have "recv B self' (unat fec + q)" if "q < 32" for q
    proof (cases "f_data fs1 ! q = None")
      case True
      show ?thesis unfolding recv' aligned_plus [OF al that, symmetric] using fresh(2) [OF recover that True] by blast
    qed (rule present [OF that])
    then show ?thesis by (simp add: all_received_def)
  next
    case wait
    then have "set_entry self' fec = fs1" using sets' fresh(3) by (simp add: set_entry_def)
    moreover have "slot_of fs1 y \<noteq> None" if "y \<in> insert x H" "s_fec_set_index y = fec" for y
      using that new held H wait(1) by auto
    ultimately show ?thesis using new present wait(1,2) by (simp add: set_short_def del: not_None_eq) blast
  qed
qed

lemma slot_insert_progress:
  assumes ok: "slot_ok B P self" and x: "shred_ok x" "P x" "signed_by hashv root sg x" "unat (s_fec_set_index x) < 32768"
    and hash: "digest32 hashv" and rs: "rs_ok P rs" "rs_recovers P rs" and H: "\<forall>y\<in>H. shred_ok y"
    and prog: "progressing B rs root sg H self" and post: "slot_post B P self st self' st' segs"
    and detail: "slot_detail B hashv rs self x self'"
  shows "progressing B rs root sg (insert x H) self'"
  unfolding progressing_def
proof (intro allI impI, elim conjE)
  fix fec :: u32 assume fec: "unat fec < 32768" "unat fec mod 32 = 0"
  let ?goal = "all_received B self' fec \<or>
    set_short rs (recv B self') (root fec) (sg fec) (insert x H) fec (set_entry self' fec)"
  have bits: "bits_ok B self" "bits_ok B self'" using ok post by (simp_all add: slot_ok_def slot_post_def)
  have mono: "recv B self i \<Longrightarrow> recv B self' i" for i using post by (simp add: slot_post_def)
  let ?own = "s_fec_set_index x"
  from detail consider (skip) "self' = self" "is_data x \<and> recv B self (unat (s_index x)) \<or> \<not> is_data x \<and> full_set B self (unat ?own div 32)"
    | (kept) fs1 v where "fec_insert hashv (set_entry self ?own) x = (Inr (fs1, v) :: (unit, _) outcome)" "v \<noteq> New"
        "self' = self\<lparr>sl_sets := (sl_sets self)(?own \<mapsto> fs1)\<rparr>"
    | (new) fs1 where "fec_insert hashv (set_entry self ?own) x = (Inr (fs1, New) :: (unit, _) outcome)"
        "accepted B rs ?own fs1 (if is_data x then [s_index x] else []) self self'"
    unfolding slot_detail_def Let_def by (auto split: if_splits)
  note how = this
  show ?goal
  proof (cases "?own = fec")
    case False
    have "sl_sets self' fec = sl_sets self fec \<or> full_set B self' (unat fec div 32)"
      using how
    proof cases
      case new
      then have "sl_sets self' fec = (if fec = ?own then sl_sets self' fec else sl_sets self fec) \<or> full_set B self' (unat fec div 32)"
        unfolding accepted_def by (elim exE conjE) (metis (full_types))
      with False show ?thesis by simp
    qed (use False in auto)
    with mono show ?thesis by (intro progressing_other [OF prog fec bits(2) _ _ False])
  next
    case own: True
    show ?thesis
    proof (cases "all_received B self fec \<or> full_set B self (unat fec div 32)")
      case True
      then show ?thesis using all_received_mono [OF _ mono] full_all_received [OF bits(1) _ fec(2)] by blast
    next
      case False
      then have short: "set_short rs (recv B self) (root fec) (sg fec) H fec (set_entry self fec)"
        using prog fec by (auto simp: progressing_def)
      from how show ?thesis
      proof cases
        case skip
        then have "slot_of (set_entry self fec) x \<noteq> None"
          using data_received [OF x(1) own _ _ ok fec(1)] False own by blast
        then show ?thesis using short skip(1) by (auto simp: set_short_def)
      next
        case kept
        have "fec_ok fec (set_entry self fec)"
          by (rule slot_set_entry(1) [OF ok fec set_entry_def])
        with kept own short have "fs1 = set_entry self fec \<and> slot_of (set_entry self fec) x \<noteq> None"
          using insert_tracks(1) [OF _ x(1) own hash x(3), of "set_entry self fec" fs1 v] by (simp add: set_short_def)
        then show ?thesis using short kept(3) own by (auto simp: set_short_def set_entry_def)
      next
        case new
        then show ?thesis
          using progressing_own [OF ok x(1-3) own [symmetric] fec(1) hash rs H short, of fs1 self'] own bits(2) by simp
      qed
    qed
  qed
qed

end

section \<open>Sequences of shreds\<close>

lemma slot_inserts_progress:
  assumes "bit_set B" and "digest32 hashv" and "rs_ok P rs" and "rs_recovers P rs"
    and "\<forall>x\<in>set xs. shred_ok x \<and> P x \<and> signed_by hashv root sg x \<and> unat (s_fec_set_index x) < 32768"
    and "slot_history B P self out" and "progressing B rs root sg H self" and "\<forall>y\<in>H. shred_ok y"
  shows "\<exists>self' st' out'. slot_inserts B hashv rs xs (self, st, out) = Inr (self', st', out') \<and>
    slot_history B P self' out' \<and> progressing B rs root sg (H \<union> set xs) self'"
  using assms(5-8)
proof (induction xs arbitrary: self st out H)
  case Nil
  then show ?case by (auto simp: slot_inserts_def)
next
  case (Cons x xs)
  have x: "shred_ok x" "P x" "signed_by hashv root sg x" "unat (s_fec_set_index x) < 32768" using Cons.prems(1) by auto
  have ok: "slot_ok B P self" "settled B self" using Cons.prems(2) by (simp_all add: slot_history_def)
  obtain self1 st1 segs where step: "slot_insert B hashv rs self x st out = Inr (self1, st1, out @ segs)"
    and post: "slot_post B P self st self1 st1 segs" and detail: "slot_detail B hashv rs self x self1"
    using bit_set.slot_insert_post [OF assms(1) ok x(1,2,4) assms(2,3)] by blast
  have "progressing B rs root sg (insert x H) self1"
    by (rule bit_set.slot_insert_progress [OF assms(1) ok(1) x assms(2-4) Cons.prems(4,3) post detail])
  moreover have "\<forall>y\<in>insert x H. shred_ok y" using Cons.prems(4) x(1) by simp
  ultimately have "\<exists>self' st' out'. slot_inserts B hashv rs xs (self1, st1, out @ segs) = Inr (self', st', out') \<and>
      slot_history B P self' out' \<and> progressing B rs root sg (insert x H \<union> set xs) self'"
    using Cons.IH [OF _ slot_history_step [OF Cons.prems(2) post], of "insert x H" st1] Cons.prems(1) by simp
  then show ?case using step by (simp add: slot_inserts_def)
qed

text \<open>32 places of a set, in whatever mix of data and code, are enough for all of its data shreds.\<close>

lemma enough_places:
  assumes prog: "progressing B (Some r) root sg H self" and ok: "slot_ok B P self" and H: "\<forall>x\<in>H. shred_ok x"
    and fec: "unat fec < 32768" "unat fec mod 32 = 0"
    and places: "32 \<le> card (erasure_shard_index ` {x\<in>H. s_fec_set_index x = fec})" and B: "bit_set B"
  shows "all_received B self fec"
proof (rule ccontr)
  assume "\<not> all_received B self fec"
  then have short: "set_short (Some r) (recv B self) (root fec) (sg fec) H fec (set_entry self fec)"
    using prog fec by (auto simp: progressing_def)
  have "fec_arrays_ok fec (set_entry self fec)"
    using bit_set.slot_set_entry(1) [OF B ok fec set_entry_def] by (simp add: fec_ok_def)
  from few_places [OF this, of "{x\<in>H. s_fec_set_index x = fec}"] show False
    using short H places by (auto simp: set_short_def)
qed

lemma rs_recovers_leader:
  assumes "leader_block slot version K leader cw" and "rs_in_place r" and "\<forall>k<K. rs_decodes r (cw k)"
  shows "rs_recovers (of_leader slot version K leader cw) (Some r)"
  unfolding rs_recovers_def using leader_recovers [OF assms] by blast

lemma leader_run:
  assumes "slot_ok B (of_leader slot version K leader cw) self" and "leader_batch leader a b"
    and recv: "\<And>i. a \<le> i + 1 \<Longrightarrow> i \<le> b \<Longrightarrow> recv B self i"
  shows "slot_run B self a b"
proof -
  have flag: "compl B self i \<longleftrightarrow> data_complete (leader i)" if "a \<le> i + 1" "i \<le> b" for i
    using leader_flag [OF assms(1) recv [OF that]] .
  have "compl B self (a - 1)" if "a \<noteq> 0"
    using flag [of "a - 1"] assms(2) that by (auto simp: leader_batch_def)
  then show ?thesis using flag recv assms(2) by (auto simp: leader_batch_def run_of_def)
qed

text \<open>
  The sets a batch needs, those of its shreds and of the shred before it (whose flag marks where the
  batch starts), have 32 of their 64 places among the shreds of \<open>H\<close>.
\<close>

definition enough :: "shred set \<Rightarrow> nat \<Rightarrow> nat \<Rightarrow> bool" where
  "enough H a b \<longleftrightarrow> (\<forall>k. (a - 1) div 32 \<le> k \<and> k \<le> b div 32 \<longrightarrow>
     32 \<le> card (erasure_shard_index ` {x\<in>H. unat (s_fec_set_index x) = 32 * k}))"

lemma enough_run:
  assumes "bit_set B" and ok: "slot_ok B (of_leader slot version K leader cw) self" and "\<forall>x\<in>H. shred_ok x"
    and prog: "progressing B (Some r) root sg H self"
    and "leader_batch leader a b" and "b < 32768" and "enough H a b"
  shows "slot_run B self a b"
proof (rule leader_run [OF ok assms(5)])
  fix i assume i: "a \<le> i + 1" "i \<le> b"
  let ?k = "i div 32"
  have "(a - 1) div 32 \<le> ?k" "?k \<le> b div 32" using i by (auto intro: div_le_mono)
  then have card: "32 \<le> card (erasure_shard_index ` {x\<in>H. unat (s_fec_set_index x) = 32 * ?k})"
    using assms(7) by (simp add: enough_def)
  have k: "?k < 1024" using i(2) assms(6) by auto
  then have key: "unat (set_key ?k) = 32 * ?k" by (simp add: unat_set_key)
  then have "{x\<in>H. s_fec_set_index x = set_key ?k} = {x\<in>H. unat (s_fec_set_index x) = 32 * ?k}"
    by (auto simp: word_unat_eq_iff)
  then have "all_received B self (set_key ?k)"
    using enough_places [OF prog ok assms(3) _ _ _ assms(1), of "set_key ?k"] card key k by simp
  from this [unfolded all_received_def key, rule_format, of "i mod 32"] show "recv B self i" by simp
qed

text \<open>A code shred of the block of one set, and a hash that gives every shred one root.\<close>

definition block_code_shred :: "nat \<Rightarrow> shred" where
  "block_code_shred p = \<lparr>
     s_bytes = code_wire (replicate 64 0) 0x66 1000 (word_of_nat p) 0 0 32 32 (word_of_nat p) (replicate 1139 0),
     s_kind = Code, s_resigned = False, s_proof_size = 6, s_slot = 1000, s_index = word_of_nat p,
     s_version = 0, s_fec_set_index = 0, s_capacity = 987, s_header = CodeHeader (word_of_nat p)\<rparr>"

definition constant_hash :: hasher where
  "constant_hash xs = replicate 32 0"

lemma block_words:
  "p < 32 \<Longrightarrow> unat (word_of_nat p :: u16) = p" "p < 32 \<Longrightarrow> unat (word_of_nat p :: u32) = p"
  by (simp_all add: unat_of_nat take_bit_eq_mod)

lemma parse_block_code_shred: "p < 32 \<Longrightarrow> parse (s_bytes (block_code_shred p)) = Inr (block_code_shred p)"
proof -
  assume p: "p < 32"
  show ?thesis
    unfolding block_code_shred_def shred.simps
    by (subst parse_code_layout [where resigned = False and cap = 987 and nonce = "[]", simplified])
      (simp_all add: shred_variant_def capacity_def wire_size_def headers_size_def block_words [OF p] p less_trans [OF p])
qed

lemma block_code_at: "p < 32 \<Longrightarrow> code_at 0 p (block_code_shred p)"
  using parse_shred_ok [OF parse_block_code_shred]
  by (simp add: code_at_def) (simp add: block_code_shred_def erasure_shard_index_def block_words)

lemma shred_root_constant:
  assumes "erasure_shard_index x < 64" and "s_proof_size x = 6"
  shows "shred_root constant_hash x = Some (replicate 32 0)"
proof -
  have "proof_root constant_hash i (replicate 32 0) ps = replicate 32 0" for i ps
    by (induction ps arbitrary: i) (simp_all add: constant_hash_def node_hash_def)
  moreover have "leaf constant_hash b = replicate 32 0" for b by (simp add: leaf_def constant_hash_def)
  ultimately show ?thesis using assms by (simp add: shred_root_def)
qed

lemma block_signed:
  "p < 32 \<Longrightarrow> signed_by constant_hash (\<lambda>_. replicate 32 0) (\<lambda>_. replicate 64 0) (block_shred p)"
  "p < 32 \<Longrightarrow> signed_by constant_hash (\<lambda>_. replicate 32 0) (\<lambda>_. replicate 64 0) (block_code_shred p)"
proof -
  assume p: "p < 32"
  then have "erasure_shard_index (block_shred p) < 64" "erasure_shard_index (block_code_shred p) < 64"
    using shred_ok_shard_index(1) block_data_at [OF p] block_code_at [OF p] by (auto simp: data_at_def code_at_def)
  then show "signed_by constant_hash (\<lambda>_. replicate 32 0) (\<lambda>_. replicate 64 0) (block_shred p)"
    "signed_by constant_hash (\<lambda>_. replicate 32 0) (\<lambda>_. replicate 64 0) (block_code_shred p)"
    using shred_root_constant
    by (simp_all add: signed_by_def block_shred_def block_code_shred_def data_wire_def code_wire_def common_wire_def)
qed

text \<open>24 data and 8 code shreds of it, enough for each of its batches.\<close>

definition block_arrivals :: "shred list" where
  "block_arrivals = map block_code_shred [0..<8] @ map block_shred [8..<32]"

lemma set_block_arrivals: "set block_arrivals = block_code_shred ` {0..<8} \<union> block_shred ` {8..<32}"
  by (simp only: block_arrivals_def set_append set_map set_upt)

lemma block_arrivals_ok:
  "\<forall>x\<in>set block_arrivals. shred_ok x \<and> of_leader 1000 0 1 block_shred block_codeword x \<and>
     signed_by constant_hash (\<lambda>_. replicate 32 0) (\<lambda>_. replicate 64 0) x"
  "enough (set block_arrivals) 3 3"
proof -
  have data: "shred_ok (block_shred p) \<and> of_leader 1000 0 1 block_shred block_codeword (block_shred p) \<and>
      erasure_shard_index (block_shred p) = p" if "p < 32" for p
    using block_data_at [OF that] that shred_position(1) [of "block_shred p" 0]
    by (auto simp: of_leader_def data_at_def same_content_def)
  have shard: "shard_of (block_code_shred p) = replicate 987 0" for p
    by (simp add: shard_of_def block_code_shred_def code_wire_def common_wire_def sub_list_def)
  have code: "shred_ok (block_code_shred p) \<and> of_leader 1000 0 1 block_shred block_codeword (block_code_shred p) \<and>
      erasure_shard_index (block_code_shred p) = 32 + p" if "p < 32" for p
    using block_code_at [OF that] that shard
    by (simp add: of_leader_def code_at_def block_codeword_def nth_append) (simp add: block_code_shred_def)
  show "\<forall>x\<in>set block_arrivals. shred_ok x \<and> of_leader 1000 0 1 block_shred block_codeword x \<and>
      signed_by constant_hash (\<lambda>_. replicate 32 0) (\<lambda>_. replicate 64 0) x"
    unfolding set_block_arrivals using data code block_signed by auto
  have "s_fec_set_index x = 0" if "x \<in> set block_arrivals" for x
    using that unfolding set_block_arrivals by (auto simp: block_shred_def block_code_shred_def)
  then have "{x \<in> set block_arrivals. unat (s_fec_set_index x) = 0} = set block_arrivals" by auto
  moreover have "erasure_shard_index ` set block_arrivals = (\<lambda>p. 32 + p) ` {0..<8} \<union> (\<lambda>p. p) ` {8..<32}"
    unfolding set_block_arrivals image_Un image_image using data code
    by (intro arg_cong2 [where f = "(\<union>)"] image_cong) auto
  moreover have "card ((\<lambda>p. 32 + p) ` {0..<8} \<union> (\<lambda>p. p) ` {8..<32::nat}) = 32" by (simp add: card_Un_disjoint)
  ultimately show "enough (set block_arrivals) 3 3" by (simp add: enough_def)
qed

lemma digest32_constant_hash: "digest32 constant_hash"
  by (simp add: digest32_def constant_hash_def)

lemma block_batch: "leader_batch block_shred 3 3"
  by (simp add: leader_batch_def data_complete_def flags_def block_shred_def)

lemma block_decodes: "\<forall>k<1. rs_decodes (codeword_rs (block_codeword 0)) (block_codeword k)"
  by (simp add: codeword_rs_decodes block_codeword_def)

section \<open>Every batch\<close>

text \<open>
  What has arrived is enough: when shreds of one leader's block are inserted, in any order and among
  any others of the block, and of every FEC set a batch needs at least 32 of the 64 places arrived, data
  or code, then the batch has been emitted, with the leader's bytes.
\<close>

lemma slot_emits_every_batch:
  assumes "bit_set B" and "digest32 hashv" and "rs_in_place r" and "\<forall>k<K. rs_decodes r (cw k)"
    and "leader_block slot version K leader cw"
    and "\<forall>x\<in>set xs. shred_ok x \<and> of_leader slot version K leader cw x \<and> signed_by hashv root sg x"
    and "leader_batch leader a b" and "b < 32768"
    and "enough (set xs) a b"
  shows "\<exists>self' st' out. slot_inserts B hashv (Some r) xs (slot_default B, st, []) = Inr (self', st', out) \<and>
    (\<exists>seg\<in>set out. unat (seg_start seg) = a \<and> unat (seg_end seg) = b \<and>
       seg_bytes seg = concat (map (payload \<circ> leader) [a..<Suc b]))"
proof -
  let ?P = "of_leader slot version K leader cw"
  have rs: "rs_ok ?P (Some r)" "rs_recovers ?P (Some r)"
    using assms(3) rs_keeps_leader [OF assms(5,3,4)] rs_recovers_leader [OF assms(5,3,4)] by (simp_all add: rs_ok_def)
  have xs: "\<forall>x\<in>set xs. shred_ok x \<and> ?P x \<and> signed_by hashv root sg x \<and> unat (s_fec_set_index x) < 32768"
    using assms(5,6) by (auto simp: of_leader_def leader_block_def)
  obtain self' st' out where
    run: "slot_inserts B hashv (Some r) xs (slot_default B, st, []) = Inr (self', st', out)"
      "slot_history B ?P self' out" "progressing B (Some r) root sg (set xs) self'"
    using slot_inserts_progress [OF assms(1,2) rs xs slot_history_default [OF assms(1)] progressing_default [OF assms(1)], of st]
    by auto
  have ok: "slot_ok B ?P self'" using run(2) by (simp add: slot_history_def)
  have "slot_run B self' a b" using enough_run [OF assms(1) ok _ run(3) assms(7-9)] xs by blast
  then have "(a, b) \<in> set (map (\<lambda>seg. (unat (seg_start seg), unat (seg_end seg))) out)"
    unfolding slot_history_runs(1) [OF run(2)] by simp
  then obtain seg where seg: "seg \<in> set out" "unat (seg_start seg) = a" "unat (seg_end seg) = b" by auto
  then have "seg_bytes seg = concat (map (payload \<circ> leader) [a..<Suc b])"
    using leader_segment(2) [OF ok bspec [OF slot_history_segments [OF run(2)] seg(1)]] by simp
  with run(1) seg show ?thesis by blast
qed

end
