(* ===== verification/Delivery.thy ===== *)
theory Delivery
  imports Raw Progress
begin

text \<open>
  One slot's block on its way through the deshredder, among other traffic in its neighbourhood: the slot's state
  is not disturbed by datagrams of neighbouring slots, foreign clusters or garbage, so what the slot
  assembly guarantees for its shreds holds for the raw batches the deshredder hands out.
\<close>

section \<open>Traffic around a slot\<close>

definition near :: "config \<Rightarrow> u64 \<Rightarrow> u64 \<Rightarrow> bool" where
  "near config slot s \<longleftrightarrow> unat s \<le> unat slot + unat (c_slot_lookback config) \<and>
     unat slot \<le> unat s + unat (c_slot_lookback config)"

text \<open>
  The scope of the theorems about a block: datagrams that are dropped before they reach a slot, or belong to a slot within the lookback and to
  an FEC set that begins inside the slot. Beyond it, a batch of a slot further ahead moves the retention window past the block
  (\<open>window_moves_on_completion\<close>), and a code shred past its slot panics (\<open>code_shred_past_slot_panics\<close>).
\<close>

definition nearby_traffic :: "config \<Rightarrow> u64 \<Rightarrow> bytes \<Rightarrow> bool" where
  "nearby_traffic config slot p \<longleftrightarrow> (\<forall>x. parse p = Inr x \<and> \<not> wrong_ver config x \<longrightarrow>
     near config slot (s_slot x) \<and> unat (s_fec_set_index x) < 32768)"

text \<open>The shreds of the slot among the datagrams.\<close>

definition arrived :: "config \<Rightarrow> u64 \<Rightarrow> bytes list \<Rightarrow> shred set" where
  "arrived config slot ps = {x. \<exists>p\<in>set ps. parse p = Inr x \<and> \<not> wrong_ver config x \<and> s_slot x = slot}"

text \<open>A lookback that is on and does not reach the end of \<open>u64\<close>.\<close>

definition room :: "config \<Rightarrow> u64 \<Rightarrow> bool" where
  "room config slot \<longleftrightarrow> 0 < unat (c_slot_lookback config) \<and> 4 * unat (c_slot_lookback config) < 2 ^ 64 \<and>
     unat slot + 2 * unat (c_slot_lookback config) < 2 ^ 64"

definition around :: "'b bitset_ops \<Rightarrow> config \<Rightarrow> u64 \<Rightarrow> 'b deshredder \<Rightarrow> bool" where
  "around B config slot self \<longleftrightarrow> d_config self = config \<and> desh_ok B (\<lambda>_. True) self \<and>
     (\<forall>k\<in>om_keys (d_slots self). near config slot k) \<and>
     unat (d_highest_slot self) \<le> unat slot + unat (c_slot_lookback config)"

lemma around_new: "around B config slot (with_stats config st)"
  using desh_ok_new [of B "\<lambda>_. True" config st] by (simp add: around_def with_stats_def om_keys_def)

lemma near_card:
  assumes "\<forall>k\<in>K. near config slot k"
  shows "card K \<le> 2 * unat (c_slot_lookback config) + 1"
proof -
  let ?lb = "unat (c_slot_lookback config)" and ?s = "unat slot"
  have "inj_on unat K" by (simp add: inj_on_def word_unat_eq_iff)
  then have "card K = card (unat ` K)" by (rule card_image [symmetric])
  also have "unat ` K \<subseteq> {?s - ?lb..?s + ?lb}" using assms by (auto simp: near_def)
  then have "card (unat ` K) \<le> card {?s - ?lb..?s + ?lb}" by (rule card_mono [OF finite_atLeastAtMost])
  also have "\<dots> \<le> 2 * ?lb + 1" by simp
  finally show ?thesis .
qed

text \<open>A packet of a slot in the neighbourhood evicts neither the slot nor anything for lack of memory.\<close>

lemma slots_after_get:
  assumes around: "around B config slot self" and room: "room config slot" and s: "near config slot s"
  shows "om_get (slots_after config mv s entry (d_slots self)) slot = om_get (om_put s entry (d_slots self)) slot"
proof -
  let ?put = "om_put s entry (d_slots self)" and ?lb = "c_slot_lookback config"
  let ?w = "if mv then window ?lb s ?put else ?put"
  have m: "om_ok (d_slots self)" using around by (simp add: around_def desh_ok_def)
  have put: "om_ok ?put" by (rule om_put_ok [OF m])
  have w: "om_ok ?w" using put window_ok [OF put] by simp
  have "om_keys ?w \<subseteq> insert s (om_keys (d_slots self))"
    using set_window [OF put, of ?lb s] om_keys_put [of s entry "d_slots self"] by (auto simp: om_keys_def)
  then have "\<forall>k\<in>om_keys ?w. near config slot k" using around s by (auto simp: around_def)
  then have "length ?w \<le> 2 * unat ?lb + 1" using near_card om.size_keys [OF w] by metis
  then have after: "slots_after config mv s entry (d_slots self) = ?w"
    using room by (simp add: slots_after_def room_def split del: if_split)
  have "(slot, v) \<in> set ?w \<longleftrightarrow> (slot, v) \<in> set ?put" for v
    using set_window [OF put, of ?lb s] s by (auto simp: near_def)
  then have "om_get ?w slot = Some v \<longleftrightarrow> om_get ?put slot = Some v" for v
    unfolding om_get_in [OF w] om_get_in [OF put] .
  then show ?thesis unfolding after by (metis option.exhaust)
qed

lemma around_pushed:
  assumes around: "around B config slot self" and room: "room config slot" and s: "near config slot s"
    and young: "unat (d_highest_slot self) \<le> unat s + unat (c_slot_lookback config)"
    and entry: "slot_ok B (\<lambda>_. True) entry'" "settled B entry'"
  shows "around B config slot (pushed self s entry' segs st)"
    and "slot_entry B (pushed self s entry' segs st) slot = (if s = slot then entry' else slot_entry B self slot)"
proof -
  have cfg: "d_config self = config" and ok: "desh_ok B (\<lambda>_. True) self" using around by (simp_all add: around_def)
  have m: "om_ok (d_slots self)" using ok by (simp add: desh_ok_def)
  have sum: "unat s + unat (c_slot_lookback config) < 2 ^ 64" using room s by (simp add: room_def near_def)
  have "desh_ok B (\<lambda>_. True) (pushed self s entry' segs st)"
    by (rule desh_ok_pushed [OF ok entry]) (use sum young in \<open>simp_all add: cfg\<close>)
  moreover have "near config slot k" if k: "k \<in> om_keys (slots_after config mv s entry' (d_slots self))" for k mv
  proof -
    obtain v where "(k, v) \<in> set (slots_after config mv s entry' (d_slots self))" using k by (auto simp: om_keys_def)
    then have "k \<in> om_keys (om_put s entry' (d_slots self))"
      using slots_after_sub(1) [OF m] by (force simp: om_keys_def)
    then have "k \<in> insert s (om_keys (d_slots self))" by (simp add: om_keys_put)
    then show ?thesis using around s by (auto simp: around_def)
  qed
  ultimately show "around B config slot (pushed self s entry' segs st)"
    using around s by (auto simp: around_def near_def)
  show "slot_entry B (pushed self s entry' segs st) slot = (if s = slot then entry' else slot_entry B self slot)"
    using slots_after_get [OF around room s] om_get_put [OF m]
    by (simp add: slot_entry_def cfg)
qed

section \<open>One datagram\<close>

text \<open>The coder a slot gets under a configuration.\<close>

definition recovery :: "config \<Rightarrow> 'r reconstructor \<Rightarrow> 'r reconstructor option" where
  "recovery config rs = (if c_recover config then Some rs else None)"

text \<open>What the deshredder has done for one slot so far.\<close>

definition gathered :: "'b bitset_ops \<Rightarrow> config \<Rightarrow> 'r reconstructor \<Rightarrow> (shred \<Rightarrow> bool) \<Rightarrow>
    (u32 \<Rightarrow> hash32) \<Rightarrow> (u32 \<Rightarrow> bytes) \<Rightarrow> u64 \<Rightarrow> shred set \<Rightarrow> 'b deshredder \<Rightarrow> raw_batch list \<Rightarrow> bool" where
  "gathered B config rs P root sg slot H self raws \<longleftrightarrow> around B config slot self \<and>
     (\<forall>x\<in>H. shred_ok x) \<and> progressing B (recovery config rs) root sg H (slot_entry B self slot) \<and>
     (\<exists>segs. slot_history B P (slot_entry B self slot) segs \<and>
        filter (\<lambda>b. rb_slot b = slot) raws = map (segment_batch slot) segs)"

lemma gathered_new:
  assumes "bit_set B"
  shows "gathered B config rs P root sg slot {} (with_stats config st) []"
proof -
  have "slot_entry B (with_stats config st) slot = slot_default B" by (simp add: slot_entry_def with_stats_def om_get_def)
  then show ?thesis
    using around_new progressing_default [OF assms] slot_history_default [OF assms]
    by (auto simp: gathered_def intro!: exI [of _ "[]"])
qed

lemma around_same: "around B config slot self \<Longrightarrow> around B config slot (self\<lparr>d_stats := st\<rparr>)"
  by (auto simp: around_def desh_ok_def)

lemma gathered_same:
  "gathered B config rs P root sg slot H self raws \<Longrightarrow> gathered B config rs P root sg slot H (self\<lparr>d_stats := st\<rparr>) raws"
  unfolding gathered_def by (simp add: slot_entry_def around_same)

text \<open>A shred that reaches its slot.\<close>

lemma raw_mine: "filter (\<lambda>b. rb_slot b = slot) (map (segment_batch s) segs) = (if s = slot then map (segment_batch s) segs else [])"
  by (simp add: filter_map comp_def segment_batch_def)

lemma raw_reaches_slot:
  assumes env: "bit_set B" "digest32 hashv" "rs_ok P (recovery config rs)" "rs_recovers P (recovery config rs)"
    and room: "room config slot" and x: "parse p = Inr x" "\<not> wrong_ver config x"
    and tr: "near config slot (s_slot x)" "unat (s_fec_set_index x) < 32768"
    and mine: "s_slot x = slot \<Longrightarrow> P x \<and> signed_by hashv root sg x"
    and young: "unat (d_highest_slot self) \<le> unat (s_slot x) + unat (c_slot_lookback config)"
    and inv: "gathered B config rs P root sg slot H self out"
  shows "\<exists>self' out'. push_raw oc B hashv rs collect p (self, out) = Inr (self', out') \<and>
    gathered B config rs P root sg slot (H \<union> (if s_slot x = slot then {x} else {})) self' out'"
proof -
  let ?s = "s_slot x"
  obtain segs where around: "around B config slot self" and H: "\<forall>x\<in>H. shred_ok x"
    and prog: "progressing B (recovery config rs) root sg H (slot_entry B self slot)"
    and hist: "slot_history B P (slot_entry B self slot) segs"
    and out: "filter (\<lambda>b. rb_slot b = slot) out = map (segment_batch slot) segs"
    using inv by (auto simp: gathered_def)
  have cfg: "d_config self = config" and ok: "desh_ok B (\<lambda>_. True) self" using around by (simp_all add: around_def)
  have sx: "shred_ok x" by (rule parse_shred_ok [OF x(1)])
  have rs: "rs_ok (\<lambda>_. True) (recovery config rs)" using env(3) by (simp add: rs_ok_def rs_keeps_def)
  obtain entry' st' new where ins: "slot_insert B hashv (recovery config rs) (slot_entry B self ?s) x (inc packets (d_stats self)) [] =
      Inr (entry', st', new)"
    and post: "slot_post B (\<lambda>_. True) (slot_entry B self ?s) (inc packets (d_stats self)) entry' st' new"
    using bit_set.slot_insert_post [OF env(1) slot_entry_ok [OF env(1) ok] sx _ tr(2) env(2) rs, of ?s "inc packets (d_stats self)" "[]"]
    by auto
  have entry': "slot_ok B (\<lambda>_. True) entry'" "settled B entry'" using post by (simp_all add: slot_post_def)
  have limit: "4 * unat (c_slot_lookback config) < 2 ^ 64" and sum: "unat ?s + unat (c_slot_lookback config) < 2 ^ 64"
    using room tr(1) by (simp_all add: room_def near_def)
  have keys: "\<forall>k\<in>om_keys (d_slots self). unat k + unat (c_slot_lookback config) < 2 ^ 64"
    using ok by (simp add: desh_ok_def cfg)
  let ?ho = "hand_out collect ?s new (st', out)"
  let ?self' = "pushed self ?s entry' new (fst ?ho)"
  have run: "push_raw oc B hashv rs collect p (self, out) = Inr (?self', out @ map (segment_batch ?s) new)"
    using push_raw_slot [of p x self B hashv rs entry' st' new oc collect out]
      x sum young limit keys ins by (simp add: cfg recovery_def hand_out_collect)
  note after = around_pushed [OF around room tr(1) young entry', of new "fst ?ho"]
  show ?thesis
  proof (cases "?s = slot")
    case False
    then show ?thesis using run after H prog hist out by (auto simp: gathered_def raw_mine)
  next
    case True
    have P: "P x" "signed_by hashv root sg x" using mine True by auto
    have old: "slot_ok B P (slot_entry B self slot)" "settled B (slot_entry B self slot)"
      using hist by (simp_all add: slot_history_def)
    obtain entry2 st2 new2 where two: "slot_insert B hashv (recovery config rs) (slot_entry B self slot) x (inc packets (d_stats self)) [] =
        Inr (entry2, st2, [] @ new2)"
      "slot_post B P (slot_entry B self slot) (inc packets (d_stats self)) entry2 st2 new2"
      "slot_detail B hashv (recovery config rs) (slot_entry B self slot) x entry2"
      using bit_set.slot_insert_post [OF env(1) old sx P(1) tr(2) env(2,3)] by blast
    then have same: "entry2 = entry'" "st2 = st'" "new2 = new" using ins True by simp_all
    have "progressing B (recovery config rs) root sg (insert x H) entry'"
      using bit_set.slot_insert_progress [OF env(1) old(1) sx P tr(2) env(2-4) H prog] two(2,3) unfolding same by blast
    moreover have "slot_history B P entry' (segs @ new)" using slot_history_step [OF hist] two(2) unfolding same by blast
    moreover have "filter (\<lambda>b. rb_slot b = slot) (out @ map (segment_batch slot) new) = map (segment_batch slot) (segs @ new)"
      by (simp add: out raw_mine)
    moreover have "\<forall>y\<in>insert x H. shred_ok y" using H sx by simp
    ultimately have "gathered B config rs P root sg slot (insert x H) ?self' (out @ map (segment_batch slot) new)"
      using after True unfolding gathered_def by auto
    then show ?thesis using run True by simp
  qed
qed

lemma raw_gathers:
  assumes env: "bit_set B" "digest32 hashv" "rs_ok P (recovery config rs)" "rs_recovers P (recovery config rs)"
    and room: "room config slot" and tr: "nearby_traffic config slot p"
    and mine: "\<forall>x\<in>arrived config slot [p]. P x \<and> signed_by hashv root sg x"
    and inv: "gathered B config rs P root sg slot H self out"
  shows "\<exists>self' out'. push_raw oc B hashv rs collect p (self, out) = Inr (self', out') \<and>
    gathered B config rs P root sg slot (H \<union> arrived config slot [p]) self' out'"
proof (cases rule: parse_cases [of p])
  case (err e)
  then show ?thesis
    unfolding push_raw_early [OF err] using gathered_same [OF inv] by (simp add: arrived_def)
next
  case (ok x)
  have around: "around B config slot self" and cfg: "d_config self = config" using inv by (simp_all add: gathered_def around_def)
  show ?thesis
  proof (cases "wrong_ver config x")
    case True
    then have "arrived config slot [p] = {}" using ok by (auto simp: arrived_def)
    then show ?thesis
      unfolding push_raw_wrong_version [OF ok True [folded cfg]] using gathered_same [OF inv] by simp
  next
    case right: False
    have x: "near config slot (s_slot x)" "unat (s_fec_set_index x) < 32768"
      using tr ok right by (auto simp: nearby_traffic_def)
    have arr: "arrived config slot [p] = (if s_slot x = slot then {x} else {})" using ok right by (auto simp: arrived_def)
    show ?thesis
    proof (cases "unat (d_highest_slot self) \<le> unat (s_slot x) + unat (c_slot_lookback config)")
      case True
      have "P x \<and> signed_by hashv root sg x" if "s_slot x = slot" using mine arr that by simp
      from raw_reaches_slot [OF env room ok right x this True inv] show ?thesis by (simp add: arr)
    next
      case False
      then have other: "s_slot x \<noteq> slot" using around by (auto simp: around_def)
      have sum: "unat (s_slot x) + unat (c_slot_lookback config) < 2 ^ 64" using room x(1) by (simp add: room_def near_def)
      have "push_raw oc B hashv rs collect p (self, out) = Inr (self\<lparr>d_stats := inc stale (inc packets (d_stats self))\<rparr>, out)"
        by (rule push_raw_stale [OF ok]) (use right sum False in \<open>simp_all add: cfg\<close>)
      then show ?thesis using gathered_same [OF inv] arr other by simp
    qed
  qed
qed

section \<open>Sequences of datagrams\<close>

lemma raws_gather:
  assumes env: "bit_set B" "digest32 hashv" "rs_ok P (recovery config rs)" "rs_recovers P (recovery config rs)"
    and room: "room config slot" and "\<forall>p\<in>set ps. nearby_traffic config slot p"
    and "\<forall>x\<in>arrived config slot ps. P x \<and> signed_by hashv root sg x"
    and "gathered B config rs P root sg slot H self out"
  shows "\<exists>self' out'. fold_out (push_raw oc B hashv rs collect) ps (self, out) = Inr (self', out') \<and>
    gathered B config rs P root sg slot (H \<union> arrived config slot ps) self' out'"
  using assms(6-8)
proof (induction ps arbitrary: self out H)
  case Nil
  then show ?case by (auto simp: arrived_def)
next
  case (Cons p ps)
  have split: "arrived config slot (p # ps) = arrived config slot [p] \<union> arrived config slot ps" by (auto simp: arrived_def)
  obtain self1 out1 where step: "push_raw oc B hashv rs collect p (self, out) = Inr (self1, out1)"
      "gathered B config rs P root sg slot (H \<union> arrived config slot [p]) self1 out1"
    using raw_gathers [OF env room _ _ Cons.prems(3), of p oc] Cons.prems(1,2) by (auto simp: split)
  from Cons.IH [OF _ _ step(2)] Cons.prems(1,2) step(1) show ?case by (simp add: split Un_assoc)
qed

section \<open>A leader's block\<close>

text \<open>The entry bytes of a range of the leader's data shreds.\<close>

definition leader_bytes :: "(nat \<Rightarrow> shred) \<Rightarrow> nat \<Rightarrow> nat \<Rightarrow> bytes" where
  "leader_bytes leader a b = concat (map (payload \<circ> leader) [a..<Suc b])"

text \<open>The environment of a leader's block, for any setting of the recovery.\<close>

lemma leader_recovery:
  assumes "rs_in_place r" and "\<forall>k<K. rs_decodes r (cw k)" and "leader_block slot version K leader cw"
  shows "rs_ok (of_leader slot version K leader cw) (recovery config r)"
    and "rs_recovers (of_leader slot version K leader cw) (recovery config r)"
proof -
  show "rs_ok (of_leader slot version K leader cw) (recovery config r)"
    using rs_keeps_leader [OF assms(3,1,2)] assms(1) by (simp add: rs_ok_def recovery_def)
  show "rs_recovers (of_leader slot version K leader cw) (recovery config r)"
  proof (cases "c_recover config")
    case True
    then show ?thesis unfolding recovery_def using rs_recovers_leader [OF assms(3,1,2)] by simp
  qed (simp add: rs_recovers_def recovery_def)
qed

section \<open>A small block\<close>

text \<open>
  A small instance: the shreds of a block with one FEC set, of which eight code shreds replace the first eight
  data shreds, behind a datagram that is no shred.
\<close>

definition block_packets :: "bytes list" where
  "block_packets = [0] # map s_bytes block_arrivals"

lemma block_packets_parse:
  assumes "p \<in> set block_packets" and "parse p = Inr x"
  shows "x \<in> set block_arrivals" and "s_slot x = 1000" and "s_fec_set_index x = 0"
proof -
  have "parse [0] \<noteq> Inr x" by (auto simp: parse_def get_at_def)
  moreover have "parse (s_bytes y) = Inr y \<and> s_slot y = 1000 \<and> s_fec_set_index y = 0" if "y \<in> set block_arrivals" for y
    using that parse_block_shred parse_block_code_shred unfolding set_block_arrivals
    by auto (simp_all add: block_shred_def block_code_shred_def)
  ultimately show "x \<in> set block_arrivals" "s_slot x = 1000" "s_fec_set_index x = 0"
    using assms unfolding block_packets_def by auto
qed

lemma block_packets_arrived: "arrived config_default 1000 block_packets = set block_arrivals"
proof -
  have "parse (s_bytes y) = Inr y \<and> s_slot y = 1000" if "y \<in> set block_arrivals" for y
    using that parse_block_shred parse_block_code_shred unfolding set_block_arrivals
    by auto (simp_all add: block_shred_def block_code_shred_def)
  then have "x \<in> arrived config_default 1000 block_packets" if "x \<in> set block_arrivals" for x
    using that unfolding arrived_def block_packets_def wrong_ver_def config_default_def by auto
  moreover have "x \<in> set block_arrivals" if "x \<in> arrived config_default 1000 block_packets" for x
    using that block_packets_parse(1) unfolding arrived_def by blast
  ultimately show ?thesis by blast
qed

lemma block_packets_traffic: "\<forall>p\<in>set block_packets. nearby_traffic config_default 1000 p"
  using block_packets_parse by (auto simp: nearby_traffic_def near_def)

lemma block_packets_signed: "\<forall>x\<in>arrived config_default 1000 block_packets. of_leader 1000 0 1 block_shred block_codeword x \<and>
    signed_by constant_hash (\<lambda>_. replicate 32 0) (\<lambda>_. replicate 64 0) x"
  unfolding block_packets_arrived using block_arrivals_ok(1) by blast

lemma block_packets_room: "room config_default 1000" "c_recover config_default"
  by (simp_all add: room_def config_default_def)

lemma block_packets_decode: "entry_decode tiny_deserialize (leader_bytes block_shred 3 3) =
    Inr (Entries [\<lparr>en_num_hashes = 0, en_hash = [], en_transactions = []\<rparr>])"
proof -
  have "leader_bytes block_shred 3 3 = 1 # replicate 411 0"
    by (simp add: leader_bytes_def payload_def block_shred_def data_wire_def common_wire_def sub_list_def)
  moreover have "replicate 8 (0::u8) \<noteq> 1 # replicate 7 0" by (simp add: numeral_eq_Suc)
  moreover have "le_val (replicate 8 (0::u8)) = 0" using le_val_le_bytes [of 0 8] by (simp add: le_bytes_zero)
  ultimately show ?thesis by (simp add: entry_decode_def tiny_deserialize_def)
qed

lemmas block_instance = nat_bits.bit_set_axioms digest32_constant_hash codeword_rs_in_place block_decodes block_encoded

lemma block_packets_fit: "\<forall>p\<in>set block_packets. length p \<le> MAX_PACKET_SIZE"
  by (auto simp: block_packets_def set_block_arrivals block_shred_def block_code_shred_def data_wire_def code_wire_def common_wire_def)

end
