(* ===== verification/Exact.thy ===== *)
theory Exact
  imports Delivery "HOL-Library.Multiset"
begin

text \<open>
  Exactly which batches of a block the deshredder hands out: those of the leader all of whose data shreds, and the one
  before them, have arrived or, with recovery on, belong to an FEC set of which 32 places have. It is a function of
  the set of shreds that have arrived: neither their order, nor duplicates, nor other traffic of nearby slots, nor the build changes it.
\<close>

section \<open>Data shreds that can be had\<close>

abbreviation set_places :: "shred set \<Rightarrow> nat \<Rightarrow> nat set" where
  "set_places H fec \<equiv> erasure_shard_index ` {x\<in>H. unat (s_fec_set_index x) = fec}"

definition obtainable :: "bool \<Rightarrow> shred set \<Rightarrow> nat \<Rightarrow> bool" where
  "obtainable recover H i \<longleftrightarrow> (\<exists>x\<in>H. s_kind x = Data \<and> unat (s_index x) = i) \<or>
     recover \<and> 32 \<le> card (set_places H (32 * (i div 32)))"

text \<open>A batch of the leader that can be had: its data shreds, and the one before them, whose flag marks its start.\<close>

definition available :: "(nat \<Rightarrow> shred) \<Rightarrow> bool \<Rightarrow> shred set \<Rightarrow> nat \<Rightarrow> nat \<Rightarrow> bool" where
  "available leader recover H a e \<longleftrightarrow> leader_batch leader a e \<and> (\<forall>i. a \<le> i + 1 \<and> i \<le> e \<longrightarrow> obtainable recover H i)"

text \<open>The raw batches and the entry batches to hand out for a slot of which the shreds \<open>H\<close> have arrived.\<close>

definition raw_promised :: "(nat \<Rightarrow> shred) \<Rightarrow> u64 \<Rightarrow> bool \<Rightarrow> shred set \<Rightarrow> raw_batch \<Rightarrow> bool" where
  "raw_promised leader slot recover H raw \<longleftrightarrow> rb_slot raw = slot \<and>
     available leader recover H (unat (rb_start raw)) (unat (rb_end raw)) \<and>
     rb_bytes raw = leader_bytes leader (unat (rb_start raw)) (unat (rb_end raw)) \<and>
     rb_last_in_slot raw = last_in_slot (leader (unat (rb_end raw)))"

definition promised :: "('w, 'tx) deserializer \<Rightarrow> (nat \<Rightarrow> shred) \<Rightarrow> u64 \<Rightarrow> bool \<Rightarrow> shred set \<Rightarrow> 'tx entry_batch \<Rightarrow> bool" where
  "promised deserialize leader slot recover H b \<longleftrightarrow> eb_slot b = slot \<and>
     available leader recover H (unat (eb_start b)) (unat (eb_end b)) \<and>
     entry_decode deserialize (leader_bytes leader (unat (eb_start b)) (unat (eb_end b))) = Inr (Entries (eb_entries b)) \<and>
     eb_last_in_slot b = last_in_slot (leader (unat (eb_end b)))"

text \<open>The output for a slot is exact: all it promises, nothing else, and no range twice.\<close>

definition exact_spec :: "('w, 'tx) deserializer \<Rightarrow> (nat \<Rightarrow> shred) \<Rightarrow> u64 \<Rightarrow> bool \<Rightarrow> shred set \<Rightarrow> 'tx entry_batch list \<Rightarrow> bool" where
  "exact_spec deserialize leader slot recover H out \<longleftrightarrow>
     distinct (map (\<lambda>b. (eb_start b, eb_end b)) (filter (\<lambda>b. eb_slot b = slot) out)) \<and>
     {b\<in>set out. eb_slot b = slot} = {b. promised deserialize leader slot recover H b}"

text \<open>A shred that arrived or was rebuilt from 32 that did.\<close>

definition sourced :: "bool \<Rightarrow> shred set \<Rightarrow> shred \<Rightarrow> bool" where
  "sourced recover H x \<longleftrightarrow> x \<in> H \<or> recover \<and> 32 \<le> card (set_places H (unat (s_fec_set_index x)))"

text \<open>A set that can recover stores shreds of 32 places.\<close>

lemma many_places:
  assumes ok: "fec_arrays_ok fec fs" and can: "can_recover fs"
    and S: "\<And>s. Some s \<in> set (f_data fs @ f_code fs) \<Longrightarrow> s \<in> S" and fin: "finite S"
  shows "32 \<le> card (erasure_shard_index ` S)"
proof -
  have lens: "length (f_data fs) = 32" "length (f_code fs) = 32" using ok by (simp_all add: fec_arrays_ok_def)
  let ?D = "{i. i < 32 \<and> f_data fs ! i \<noteq> None}" and ?C = "{i. i < 32 \<and> f_code fs ! i \<noteq> None}"
  have data: "i \<in> erasure_shard_index ` S" if i: "i \<in> ?D" for i
  proof -
    obtain s where s: "f_data fs ! i = Some s" "i < 32" using i by auto
    then have at: "data_at fec i s" using ok lens by (auto simp: fec_arrays_ok_def all_at_def split: option.splits)
    then have "erasure_shard_index s = i" using shred_position(1) [of s fec] by (auto simp: data_at_def)
    moreover have "s \<in> S" using s lens nth_mem [of i "f_data fs"] by (intro S) auto
    ultimately show ?thesis by blast
  qed
  have code: "32 + i \<in> erasure_shard_index ` S" if i: "i \<in> ?C" for i
  proof -
    obtain s where s: "f_code fs ! i = Some s" "i < 32" using i by auto
    then have "erasure_shard_index s = 32 + i" using ok lens by (auto simp: fec_arrays_ok_def all_at_def code_at_def split: option.splits)
    moreover have "s \<in> S" using s lens nth_mem [of i "f_code fs"] by (intro S) auto
    ultimately show ?thesis by (metis image_eqI)
  qed
  have "32 \<le> card ?D + card ?C"
    using can ok count_some_card [of "f_data fs"] count_some_card [of "f_code fs"] lens by (simp add: can_recover_def fec_arrays_ok_def)
  also have "card ?C = card ((\<lambda>i. 32 + i) ` ?C)" by (rule card_image [symmetric]) (simp add: inj_on_def)
  also have "card ?D + card ((\<lambda>i. 32 + i) ` ?C) = card (?D \<union> (\<lambda>i. 32 + i) ` ?C)" by (rule card_Un_disjoint [symmetric]) auto
  also have "\<dots> \<le> card (erasure_shard_index ` S)" using data code by (intro card_mono finite_imageI fin) auto
  finally show ?thesis .
qed

text \<open>So recovery only rebuilds shreds of sets of which 32 places have arrived.\<close>

lemma rs_keeps_sourced:
  assumes keeps: "rs_keeps P r" and "rs_in_place r" and fin: "finite H"
  shows "rs_keeps (\<lambda>x. P x \<and> sourced True H x) r"
  unfolding rs_keeps_def
proof (intro allI impI, elim conjE)
  fix fec fs fs' result s
  assume ok: "fec_ok fec fs" "can_recover fs" and stored: "\<forall>s. Some s \<in> set (f_data fs @ f_code fs) \<longrightarrow> P s \<and> sourced True H s"
    and rec: "(fec_recover r fs :: (unit, _) outcome) = Inr (fs', result)" and s: "Some s \<in> set (f_data fs' @ f_code fs')"
  have own: "s_fec_set_index x = fec" if "fec_ok fec f" "Some x \<in> set (f_data f @ f_code f)" for f x
    using that by (auto simp: fec_ok_def fec_arrays_ok_def all_at_def in_set_conv_nth data_at_def code_at_def split: option.splits)
  obtain fs2 result2 where "(fec_recover r fs :: (unit, _) outcome) = Inr (fs2, result2)" "recover_post fec fs fs2 result2"
    using fec_recover_post [OF ok assms(2)] by blast
  then have "fec_ok fec fs'" using rec by (simp add: recover_post_def)
  then have sf: "s_fec_set_index s = fec" using own s by blast
  have "32 \<le> card (set_places H (unat fec))"
  proof (cases "\<exists>x. Some x \<in> set (f_data fs @ f_code fs) \<and> x \<notin> H")
    case True
    then show ?thesis using stored own [OF ok(1)] by (auto simp: sourced_def)
  next
    case False
    then show ?thesis using own [OF ok(1)] fin ok by (intro many_places [of fec fs]) (auto simp: fec_ok_def)
  qed
  moreover have "P s" using keeps ok stored rec s unfolding rs_keeps_def by blast
  ultimately show "P s \<and> sourced True H s" by (simp add: sourced_def sf)
qed

section \<open>What a slot has received\<close>

text \<open>A data shred that has arrived is received, whatever the setting of the recovery.\<close>

lemma arrived_received:
  assumes "progressing B rs root sg H self" and "x \<in> H" and "shred_ok x" and "s_kind x = Data" and "unat (s_fec_set_index x) < 32768"
  shows "recv B self (unat (s_index x))"
proof -
  let ?fec = "s_fec_set_index x"
  have al: "unat ?fec mod 32 = 0" using assms(3) by (simp add: shred_ok_def)
  have q: "erasure_shard_index x < 32" "unat (s_index x) = unat ?fec + erasure_shard_index x"
    using shred_position(1) [OF assms(3) refl assms(4)] by (auto simp: data_at_def)
  consider "all_received B self ?fec"
    | "set_short rs (recv B self) (root ?fec) (sg ?fec) H ?fec (set_entry self ?fec)"
    using assms(1) [unfolded progressing_def, rule_format, OF conjI [OF assms(5) al]] by blast
  then show ?thesis
  proof cases
    case 2
    then have "slot_of (set_entry self ?fec) x \<noteq> None" using assms(2) by (simp add: set_short_def)
    then show ?thesis using 2 q assms(4) by (simp add: set_short_def slot_of_def)
  qed (use q in \<open>simp add: all_received_def\<close>)
qed

lemma received_iff:
  assumes B: "bit_set B" and H: "\<forall>x\<in>H. shred_ok x \<and> unat (s_fec_set_index x) < 32768"
    and prog: "progressing B (recovery config rs) root sg H self" and ok: "slot_ok B (\<lambda>x. P x \<and> sourced (c_recover config) H x) self"
  shows "recv B self i \<longleftrightarrow> obtainable (c_recover config) H i"
proof
  assume "recv B self i"
  then obtain x where x: "shred_ok x" "s_kind x = Data" "sourced (c_recover config) H x" "unat (s_index x) = i"
    using ok by (auto simp: slot_ok_def prov_ok_def)
  have "unat (s_fec_set_index x) mod 32 = 0" "i = unat (s_fec_set_index x) + erasure_shard_index x" "erasure_shard_index x < 32"
    using shred_position(1) [OF x(1) refl x(2)] x(1,4) by (auto simp: data_at_def shred_ok_def)
  then have "32 * (i div 32) = unat (s_fec_set_index x)" by auto
  then show "obtainable (c_recover config) H i" using x by (auto simp: sourced_def obtainable_def)
next
  assume "obtainable (c_recover config) H i"
  then consider x where "x \<in> H" "s_kind x = Data" "unat (s_index x) = i"
    | "c_recover config" "32 \<le> card (set_places H (32 * (i div 32)))" by (auto simp: obtainable_def)
  then show "recv B self i"
  proof cases
    case 1
    then show ?thesis using arrived_received [OF prog 1(1) _ 1(2)] H by auto
  next
    case 2
    then have "set_places H (32 * (i div 32)) \<noteq> {}" by (metis card.empty not_numeral_le_zero)
    then obtain x where x: "x \<in> H" "unat (s_fec_set_index x) = 32 * (i div 32)" by auto
    then have fec: "unat (s_fec_set_index x) < 32768" "unat (s_fec_set_index x) mod 32 = 0" using H by auto
    have "set_places H (32 * (i div 32)) = erasure_shard_index ` {y\<in>H. s_fec_set_index y = s_fec_set_index x}"
      using x(2) by (auto simp: word_unat_eq_iff)
    then have "all_received B self (s_fec_set_index x)"
      using enough_places [OF _ ok _ fec _ B, of rs root sg H] prog 2 H by (simp add: recovery_def)
    from this [unfolded all_received_def x(2), rule_format, of "i mod 32"] show ?thesis by simp
  qed
qed

lemma gathered_promised:
  assumes got: "gathered B config rs (of_leader slot version K leader cw) root sg slot H self raws"
    and recv: "\<And>i. recv B (slot_entry B self slot) i \<longleftrightarrow> obtainable recover H i"
  shows "{raw\<in>set raws. rb_slot raw = slot} = {raw. raw_promised leader slot recover H raw}"
    and "distinct (map (\<lambda>raw. (rb_start raw, rb_end raw)) (filter (\<lambda>raw. rb_slot raw = slot) raws))"
proof -
  let ?entry = "slot_entry B self slot"
  obtain segs where hist: "slot_history B (of_leader slot version K leader cw) ?entry segs"
    and mine: "filter (\<lambda>raw. rb_slot raw = slot) raws = map (segment_batch slot) segs"
    using got by (auto simp: gathered_def)
  have ok: "slot_ok B (of_leader slot version K leader cw) ?entry" using hist by (simp add: slot_history_def)
  note seg = leader_segment [OF ok bspec [OF slot_history_segments [OF hist]], folded leader_bytes_def]
  have ranges: "(a, e) \<in> (\<lambda>seg. (unat (seg_start seg), unat (seg_end seg))) ` set segs \<longleftrightarrow> slot_run B ?entry a e" for a e
    using slot_history_runs(1) [OF hist] by (simp add: set_eq_iff)
  have run: "slot_run B ?entry a e \<longleftrightarrow> available leader recover H a e" for a e
  proof
    assume run: "slot_run B ?entry a e"
    have "recv B ?entry i" if i: "a \<le> i + 1" "i \<le> e" for i
    proof (cases "a \<le> i")
      case False
      then have "a \<noteq> 0" "i = a - 1" using i by auto
      then have "compl B ?entry i" using run by (simp add: run_of_def)
      then show ?thesis using ok by (auto simp: slot_ok_def bits_ok_def)
    qed (use run i in \<open>simp add: run_of_def\<close>)
    moreover have "leader_batch leader a e" using seg(1) run [folded ranges] by auto
    ultimately show "available leader recover H a e" using recv by (simp add: available_def)
  next
    assume "available leader recover H a e"
    then show "slot_run B ?entry a e" using leader_run [OF ok, of a e] recv by (simp add: available_def)
  qed
  have "raw \<in> segment_batch slot ` set segs \<longleftrightarrow> raw_promised leader slot recover H raw" for raw
  proof
    assume "raw \<in> segment_batch slot ` set segs"
    then obtain sg where sg: "sg \<in> set segs" "raw = segment_batch slot sg" by blast
    then have "slot_run B ?entry (unat (seg_start sg)) (unat (seg_end sg))" using ranges by force
    then show "raw_promised leader slot recover H raw"
      using run seg(2,3) [OF sg(1)] sg(2) by (simp add: raw_promised_def segment_batch_def)
  next
    assume raw: "raw_promised leader slot recover H raw"
    then obtain sg where sg: "sg \<in> set segs" "unat (seg_start sg) = unat (rb_start raw)" "unat (seg_end sg) = unat (rb_end raw)"
      using ranges [of "unat (rb_start raw)" "unat (rb_end raw)"] run by (auto simp: raw_promised_def)
    then have "raw = segment_batch slot sg"
      using raw seg(2,3) [OF sg(1)] by (intro raw_batch.equality) (simp_all add: raw_promised_def segment_batch_def word_unat_eq_iff)
    then show "raw \<in> segment_batch slot ` set segs" using sg(1) by blast
  qed
  moreover have "{raw\<in>set raws. rb_slot raw = slot} = segment_batch slot ` set segs"
    using arg_cong [OF mine, of set] by simp
  ultimately show "{raw\<in>set raws. rb_slot raw = slot} = {raw. raw_promised leader slot recover H raw}" by blast
  show "distinct (map (\<lambda>raw. (rb_start raw, rb_end raw)) (filter (\<lambda>raw. rb_slot raw = slot) raws))"
    using slot_history_runs(2) [OF hist] unfolding mine by (simp add: comp_def segment_batch_def distinct_map inj_on_def)
qed

section \<open>From datagrams to raw batches\<close>

lemma finite_arrived: "finite (arrived config slot ps)"
proof -
  have "arrived config slot ps \<subseteq> (\<lambda>p. projr (parse p)) ` set ps" by (force simp: arrived_def)
  then show ?thesis by (rule finite_subset) simp
qed

lemma raws_exactly:
  assumes env: "bit_set B" "digest32 hashv" "rs_in_place r" "\<forall>k<K. rs_decodes r (cw k)"
    and block: "leader_block slot version K leader cw" and room: "room config slot"
    and tr: "\<forall>p\<in>set ps. nearby_traffic config slot p"
    and arr: "\<forall>x\<in>arrived config slot ps. of_leader slot version K leader cw x \<and> signed_by hashv root sg x"
  shows "\<exists>self raws. fold_out (push_raw oc B hashv r collect) ps (with_stats config st, []) = Inr (self, raws) \<and>
    distinct (map (\<lambda>raw. (rb_start raw, rb_end raw)) (filter (\<lambda>raw. rb_slot raw = slot) raws)) \<and>
    {raw\<in>set raws. rb_slot raw = slot} = {raw. raw_promised leader slot (c_recover config) (arrived config slot ps) raw}"
proof -
  let ?H = "arrived config slot ps" and ?P = "of_leader slot version K leader cw"
  let ?Q = "\<lambda>x. ?P x \<and> sourced (c_recover config) ?H x"
  have rs: "rs_ok ?P (recovery config r)" "rs_recovers ?P (recovery config r)" by (rule leader_recovery [OF env(3,4) block])+
  then have "rs_ok ?Q (recovery config r)"
    using rs_keeps_sourced [OF _ env(3) finite_arrived, where P = ?P] by (auto simp: rs_ok_def recovery_def)
  moreover have "rs_recovers ?Q (recovery config r)" using rs(2) unfolding rs_recovers_def by blast
  moreover have "\<forall>x\<in>?H. ?Q x \<and> signed_by hashv root sg x" using arr by (simp add: sourced_def)
  ultimately obtain self raws where one: "fold_out (push_raw oc B hashv r collect) ps (with_stats config st, []) = Inr (self, raws)"
      "gathered B config r ?Q root sg slot ?H self raws"
    using raws_gather [OF env(1,2) _ _ room tr _ gathered_new [OF env(1), where st = st], where P = ?Q and rs = r and root = root and sg = sg and oc = oc]
    by auto
  then have got: "gathered B config r ?P root sg slot ?H self raws"
    using raws_gather [OF env(1,2) rs room tr arr gathered_new [OF env(1), where st = st], where oc = oc] by auto
  have H: "\<forall>x\<in>?H. shred_ok x \<and> unat (s_fec_set_index x) < 32768"
    using tr parse_shred_ok by (fastforce simp: arrived_def nearby_traffic_def)
  have "progressing B (recovery config r) root sg ?H (slot_entry B self slot)" "slot_ok B ?Q (slot_entry B self slot)"
    using one(2) by (auto simp: gathered_def slot_history_def)
  note recv = received_iff [OF env(1) H this]
  show ?thesis using one(1) gathered_promised [OF got recv] by blast
qed

section \<open>From raw batches to entry batches\<close>

lemma in_map_filter: "y \<in> set (List.map_filter f xs) \<longleftrightarrow> (\<exists>x\<in>set xs. f x = Some y)"
  by (induction xs) (auto split: option.split)

lemma decode_all_mine:
  "filter (\<lambda>b. eb_slot b = slot) (decode_all deserialize raws) = decode_all deserialize (filter (\<lambda>b. rb_slot b = slot) raws)"
  by (induction raws) (auto simp: List.map_filter_def batch_of_def split: sum.splits block_data.splits)

lemma batch_of_Some:
  "batch_of deserialize raw = Some b \<longleftrightarrow> entry_decode deserialize (rb_bytes raw) = Inr (Entries (eb_entries b)) \<and>
     eb_slot b = rb_slot raw \<and> eb_start b = rb_start raw \<and> eb_end b = rb_end raw \<and> eb_last_in_slot b = rb_last_in_slot raw"
  by (cases b) (auto simp: batch_of_def split: sum.split block_data.split)

lemma decode_all_distinct:
  assumes "distinct (map (\<lambda>raw. (rb_start raw, rb_end raw)) raws)"
  shows "distinct (map (\<lambda>b. (eb_start b, eb_end b)) (decode_all deserialize raws))"
  using assms
proof (induction raws)
  case (Cons raw raws)
  have sub: "(\<lambda>b. (eb_start b, eb_end b)) ` set (decode_all deserialize raws) \<subseteq> (\<lambda>raw. (rb_start raw, rb_end raw)) ` set raws"
    by (force simp: in_map_filter batch_of_Some)
  show ?case
  proof (cases "batch_of deserialize raw")
    case (Some b)
    then have "(eb_start b, eb_end b) = (rb_start raw, rb_end raw)" by (simp add: batch_of_Some)
    moreover have "(rb_start raw, rb_end raw) \<notin> (\<lambda>raw. (rb_start raw, rb_end raw)) ` set raws" using Cons.prems by simp
    ultimately have "(eb_start b, eb_end b) \<notin> (\<lambda>b. (eb_start b, eb_end b)) ` set (decode_all deserialize raws)"
      using sub by (simp only:) blast
    then show ?thesis using Some Cons by simp
  qed (use Cons in simp)
qed (simp add: List.map_filter_def)

lemma promised_decoded:
  "promised deserialize leader slot recover H b \<longleftrightarrow> (\<exists>raw. raw_promised leader slot recover H raw \<and> batch_of deserialize raw = Some b)"
proof
  assume b: "promised deserialize leader slot recover H b"
  let ?raw = "\<lparr>rb_slot = slot, rb_start = eb_start b, rb_end = eb_end b, rb_last_in_slot = eb_last_in_slot b,
    rb_bytes = leader_bytes leader (unat (eb_start b)) (unat (eb_end b))\<rparr>"
  have "raw_promised leader slot recover H ?raw \<and> batch_of deserialize ?raw = Some b"
    using b by (simp add: promised_def raw_promised_def batch_of_Some)
  then show "\<exists>raw. raw_promised leader slot recover H raw \<and> batch_of deserialize raw = Some b" by blast
qed (auto simp: promised_def raw_promised_def batch_of_Some)

lemma pushes_exactly:
  assumes "bit_set B" and "digest32 hashv" and "rs_in_place r" and "\<forall>k<K. rs_decodes r (cw k)"
    and "leader_block slot version K leader cw" and "room config slot"
    and "\<forall>p\<in>set ps. nearby_traffic config slot p"
    and "\<forall>x\<in>arrived config slot ps. of_leader slot version K leader cw x \<and> signed_by hashv root sg x"
  shows "\<exists>self out. fold_out (push oc B hashv r deserialize) ps (with_stats config st, []) = Inr (self, out) \<and>
    exact_spec deserialize leader slot (c_recover config) (arrived config slot ps) out"
proof -
  let ?H = "arrived config slot ps"
  obtain self raws where raw: "fold_out (push_raw oc B hashv r collect) ps (with_stats config st, []) = Inr (self, raws)"
    "distinct (map (\<lambda>raw. (rb_start raw, rb_end raw)) (filter (\<lambda>raw. rb_slot raw = slot) raws))"
    "{raw\<in>set raws. rb_slot raw = slot} = {raw. raw_promised leader slot (c_recover config) ?H raw}"
    using raws_exactly [OF assms, of oc st] by blast
  obtain st' where run: "fold_out (push oc B hashv r deserialize) ps (with_stats config st, []) =
      Inr (self\<lparr>d_stats := st'\<rparr>, decode_all deserialize raws)" using push_outcome [OF raw(1)] by blast
  have "b \<in> set (filter (\<lambda>b. eb_slot b = slot) (decode_all deserialize raws)) \<longleftrightarrow> promised deserialize leader slot (c_recover config) ?H b" for b
    unfolding decode_all_mine in_map_filter promised_decoded set_filter raw(3) by blast
  then have "exact_spec deserialize leader slot (c_recover config) ?H (decode_all deserialize raws)"
    using decode_all_distinct [OF raw(2)] unfolding exact_spec_def decode_all_mine [symmetric] by auto
  then show ?thesis using run by blast
qed

section \<open>The promise for batches of which enough arrived\<close>

text \<open>
  The promise of the deshredder for the batches of a slot of which the shreds \<open>H\<close> have arrived: each
  once, only the leader's with their entries, and all of which enough has arrived.
\<close>

definition block_spec :: "('w, 'tx) deserializer \<Rightarrow> (nat \<Rightarrow> shred) \<Rightarrow> u64 \<Rightarrow> shred set \<Rightarrow> 'tx entry_batch list \<Rightarrow> bool" where
  "block_spec deserialize leader slot H out \<longleftrightarrow>
    distinct (map (\<lambda>b. (eb_start b, eb_end b)) (filter (\<lambda>b. eb_slot b = slot) out)) \<and>
    (\<forall>b\<in>set out. eb_slot b = slot \<longrightarrow> leader_batch leader (unat (eb_start b)) (unat (eb_end b)) \<and>
       entry_decode deserialize (leader_bytes leader (unat (eb_start b)) (unat (eb_end b))) = Inr (Entries (eb_entries b)) \<and>
       eb_last_in_slot b = last_in_slot (leader (unat (eb_end b)))) \<and>
    (\<forall>a e es. leader_batch leader a e \<and> e < 32768 \<and> enough H a e \<and>
       entry_decode deserialize (leader_bytes leader a e) = Inr (Entries es) \<longrightarrow>
       (\<exists>b\<in>set out. eb_slot b = slot \<and> unat (eb_start b) = a \<and> unat (eb_end b) = e \<and> eb_entries b = es))"

lemma enough_available: "leader_batch leader a e \<Longrightarrow> enough H a e \<Longrightarrow> available leader True H a e"
  unfolding available_def
proof (intro conjI allI impI; (elim conjE)?)
  fix i assume batch: "enough H a e" and i: "a \<le> i + 1" "i \<le> e"
  have "(a - 1) div 32 \<le> i div 32" "i div 32 \<le> e div 32" using i by (auto intro: div_le_mono)
  then show "obtainable True H i" using batch unfolding enough_def obtainable_def by blast
qed

lemma exact_block_spec:
  assumes "exact_spec deserialize leader slot True H out"
  shows "block_spec deserialize leader slot H out"
proof -
  have exactly: "b \<in> set out \<and> eb_slot b = slot \<longleftrightarrow> promised deserialize leader slot True H b" for b
    using assms by (auto simp: exact_spec_def)
  have "\<exists>b\<in>set out. eb_slot b = slot \<and> unat (eb_start b) = a \<and> unat (eb_end b) = e \<and> eb_entries b = es"
    if batch: "leader_batch leader a e" "e < 32768" "enough H a e" "entry_decode deserialize (leader_bytes leader a e) = Inr (Entries es)" for a e es
  proof -
    let ?b = "\<lparr>eb_slot = slot, eb_start = word_of_nat a, eb_end = word_of_nat e, eb_last_in_slot = last_in_slot (leader e), eb_entries = es\<rparr>"
    have "a \<le> e" using batch(1) by (simp add: leader_batch_def)
    then have ae: "unat (eb_start ?b) = a" "unat (eb_end ?b) = e" using batch(2) by (simp_all add: unat_u32)
    then have "?b \<in> set out" using exactly [of ?b] enough_available [OF batch(1,3)] batch(4) by (simp add: promised_def)
    then show ?thesis using ae by force
  qed
  moreover have "leader_batch leader (unat (eb_start b)) (unat (eb_end b)) \<and>
      entry_decode deserialize (leader_bytes leader (unat (eb_start b)) (unat (eb_end b))) = Inr (Entries (eb_entries b)) \<and>
      eb_last_in_slot b = last_in_slot (leader (unat (eb_end b)))" if "b \<in> set out" "eb_slot b = slot" for b
    using exactly [of b] that by (simp add: promised_def available_def)
  ultimately show ?thesis using assms unfolding block_spec_def exact_spec_def by blast
qed

lemma pushes_block:
  assumes "bit_set B" and "digest32 hashv" and "rs_in_place r" and "\<forall>k<K. rs_decodes r (cw k)"
    and "leader_block slot version K leader cw" and "c_recover config" and "room config slot"
    and "\<forall>p\<in>set ps. nearby_traffic config slot p"
    and "\<forall>x\<in>arrived config slot ps. of_leader slot version K leader cw x \<and> signed_by hashv root sg x"
  shows "\<exists>self' out. fold_out (push oc B hashv r deserialize) ps (with_stats config st, []) = Inr (self', out) \<and>
    block_spec deserialize leader slot (arrived config slot ps) out"
  using pushes_exactly [OF assms(1-5,7-9), of oc deserialize st] assms(6) exact_block_spec by auto

lemma same_elements:
  assumes "distinct (map f xs)" and "distinct (map f ys)" and "set xs = set ys"
  shows "mset xs = mset ys"
  using assms set_eq_iff_mset_eq_distinct [of xs ys] by (simp add: distinct_map)

section \<open>With and without recovery\<close>

text \<open>The switch does not matter for what arrives.\<close>

lemma without_recovery [simp]:
  "wrong_ver (config\<lparr>c_recover := v\<rparr>) = wrong_ver config" "near (config\<lparr>c_recover := v\<rparr>) = near config"
  "nearby_traffic (config\<lparr>c_recover := v\<rparr>) = nearby_traffic config" "arrived (config\<lparr>c_recover := v\<rparr>) = arrived config"
  "room (config\<lparr>c_recover := v\<rparr>) = room config"
  by (auto simp: wrong_ver_def near_def nearby_traffic_def arrived_def room_def fun_eq_iff)

lemma promised_recovery: "promised deserialize leader slot False H b \<Longrightarrow> promised deserialize leader slot recover H b"
  by (auto simp: promised_def available_def obtainable_def)

lemma exact_mono:
  assumes "exact_spec deserialize leader slot False H out0" and "exact_spec deserialize leader slot recover H out"
  shows "b \<in> set out0 \<Longrightarrow> eb_slot b = slot \<Longrightarrow> b \<in> set out"
  using assms promised_recovery by (fastforce simp: exact_spec_def)

lemma recovery_adds:
  assumes env: "bit_set B" "digest32 hashv" "rs_in_place r" "\<forall>k<K. rs_decodes r (cw k)"
    and block: "leader_block slot version K leader cw" and room: "room config slot"
    and tr: "\<forall>p\<in>set ps. nearby_traffic config slot p"
    and arr: "\<forall>x\<in>arrived config slot ps. of_leader slot version K leader cw x \<and> signed_by hashv root sg x"
  shows "\<exists>self out self0 out0.
    fold_out (push oc B hashv r deserialize) ps (with_stats (config\<lparr>c_recover := True\<rparr>) st, []) = Inr (self, out) \<and>
    fold_out (push oc B hashv r deserialize) ps (with_stats (config\<lparr>c_recover := False\<rparr>) st, []) = Inr (self0, out0) \<and>
    set (filter (\<lambda>b. eb_slot b = slot) out0) \<subseteq> set out"
proof -
  let ?H = "arrived config slot ps"
  have run: "\<exists>self out. fold_out (push oc B hashv r deserialize) ps (with_stats (config\<lparr>c_recover := v\<rparr>) st, []) = Inr (self, out) \<and>
      {b\<in>set out. eb_slot b = slot} = {b. promised deserialize leader slot v ?H b}" for v
    using pushes_exactly [OF env block, of "config\<lparr>c_recover := v\<rparr>" ps root sg oc deserialize st] room tr arr by (auto simp: exact_spec_def)
  obtain self out where one: "fold_out (push oc B hashv r deserialize) ps (with_stats (config\<lparr>c_recover := True\<rparr>) st, []) = Inr (self, out)"
      "{b\<in>set out. eb_slot b = slot} = {b. promised deserialize leader slot True ?H b}"
    using run [of True] by blast
  obtain self0 out0 where two: "fold_out (push oc B hashv r deserialize) ps (with_stats (config\<lparr>c_recover := False\<rparr>) st, []) = Inr (self0, out0)"
      "{b\<in>set out0. eb_slot b = slot} = {b. promised deserialize leader slot False ?H b}"
    using run [of False] by blast
  have "set (filter (\<lambda>b. eb_slot b = slot) out0) \<subseteq> set out"
    using one(2) two(2) promised_recovery by fastforce
  then show ?thesis using one(1) two(1) by blast
qed

text \<open>The entry batch of the small block.\<close>

lemma block_entry_promised:
  "promised tiny_deserialize block_shred 1000 True (set block_arrivals) \<lparr>eb_slot = 1000, eb_start = 3, eb_end = 3,
    eb_last_in_slot = last_in_slot (block_shred 3), eb_entries = [\<lparr>en_num_hashes = 0, en_hash = [], en_transactions = []\<rparr>]\<rparr>"
  using enough_available [OF block_batch block_arrivals_ok(2)] block_packets_decode by (simp add: promised_def)

lemma block_entry_handed_out:
  assumes "{b\<in>set out. eb_slot b = 1000} = {b. promised tiny_deserialize block_shred 1000 True (set block_arrivals) b}"
  shows "\<exists>b\<in>set out. eb_slot b = 1000 \<and> unat (eb_start b) = 3 \<and> unat (eb_end b) = 3 \<and>
    eb_entries b = [\<lparr>en_num_hashes = 0, en_hash = [], en_transactions = []\<rparr>]"
proof -
  let ?b = "\<lparr>eb_slot = 1000, eb_start = 3, eb_end = 3, eb_last_in_slot = last_in_slot (block_shred 3),
    eb_entries = [\<lparr>en_num_hashes = 0, en_hash = [], en_transactions = []\<rparr>]\<rparr> :: unit entry_batch"
  have "?b \<in> {b\<in>set out. eb_slot b = 1000}" unfolding assms using block_entry_promised by simp
  then show ?thesis by (intro bexI [of _ ?b]) simp_all
qed

section \<open>Properties\<close>

text \<open>
  C1. Exactness. Push the shreds of a leader's block, in any order, with losses and duplicates, mixed with garbage, shreds of
  another version and shreds of neighbouring slots. Neither setting of the recovery panics, no range of the slot is
  handed out twice, and the entry batches handed out for the slot are exactly those the leader's data promise: its batches whose
  bytes decode to entries and of which every data shred, the one in front of the batch included, arrived or, with recovery on,
  lies in an FEC set of which at least 32 of the 64 places arrived. The scope: every datagram that parses and has the right version
  belongs to a slot within the lookback of the block's and to an FEC set with an index below 32768 (\<open>nearby_traffic\<close>); the lookback is positive and
  leaves room below \<open>2^64\<close> (\<open>room\<close>); and the shreds of the slot are the leader's, with one root and one signature per FEC set.
\<close>

theorem block_exactly:
  assumes "bit_set B" and "digest32 hashv" and "rs_in_place r" and "\<forall>k<K. rs_decodes r (cw k)"
    and "leader_block slot version K leader cw" and "room config slot"
    and "\<forall>p\<in>set ps. nearby_traffic config slot p"
    and "\<forall>x\<in>arrived config slot ps. of_leader slot version K leader cw x \<and> signed_by hashv root sg x"
  shows "\<exists>self out. fold_out (push oc B hashv r deserialize) ps (with_stats config st, []) = Inr (self, out) \<and>
    distinct (map (\<lambda>b. (eb_start b, eb_end b)) (filter (\<lambda>b. eb_slot b = slot) out)) \<and>
    {b\<in>set out. eb_slot b = slot} = {b. eb_slot b = slot \<and>
      leader_batch leader (unat (eb_start b)) (unat (eb_end b)) \<and>
      (\<forall>i. unat (eb_start b) \<le> i + 1 \<and> i \<le> unat (eb_end b) \<longrightarrow> obtainable (c_recover config) (arrived config slot ps) i) \<and>
      entry_decode deserialize (leader_bytes leader (unat (eb_start b)) (unat (eb_end b))) = Inr (Entries (eb_entries b)) \<and>
      eb_last_in_slot b = last_in_slot (leader (unat (eb_end b)))}"
  using pushes_exactly [OF assms] unfolding exact_spec_def promised_def available_def conj_assoc .

theorem block_exactly_witness:
  "\<exists>self out b. fold_out (push True bits_model constant_hash (codeword_rs (block_codeword 0)) tiny_deserialize)
      block_packets (with_stats config_default stats_default, []) = Inr (self, out) \<and> b \<in> set out \<and> eb_slot b = 1000 \<and>
    unat (eb_start b) = 3 \<and> unat (eb_end b) = 3"
proof -
  let ?b = "\<lparr>eb_slot = 1000, eb_start = 3, eb_end = 3, eb_last_in_slot = last_in_slot (block_shred 3),
    eb_entries = [\<lparr>en_num_hashes = 0, en_hash = [], en_transactions = []\<rparr>]\<rparr> :: unit entry_batch"
  obtain self out where run: "fold_out (push True bits_model constant_hash (codeword_rs (block_codeword 0)) tiny_deserialize)
      block_packets (with_stats config_default stats_default, []) = Inr (self, out)"
    and exactly: "\<And>b. b \<in> set out \<and> eb_slot b = 1000 \<longleftrightarrow> eb_slot b = 1000 \<and>
      leader_batch block_shred (unat (eb_start b)) (unat (eb_end b)) \<and>
      (\<forall>i. unat (eb_start b) \<le> i + 1 \<and> i \<le> unat (eb_end b) \<longrightarrow> obtainable (c_recover config_default) (set block_arrivals) i) \<and>
      entry_decode tiny_deserialize (leader_bytes block_shred (unat (eb_start b)) (unat (eb_end b))) = Inr (Entries (eb_entries b)) \<and>
      eb_last_in_slot b = last_in_slot (block_shred (unat (eb_end b)))"
    using block_exactly [OF block_instance block_packets_room(1) block_packets_traffic block_packets_signed, of True tiny_deserialize stats_default]
    unfolding block_packets_arrived set_eq_iff mem_Collect_eq by blast
  have "?b \<in> set out" using exactly [of ?b] block_entry_promised block_packets_room(2) by (simp add: promised_def available_def)
  then show ?thesis using run by (intro exI [of _ self] exI [of _ out] exI [of _ ?b]) simp
qed

text \<open>
  C2. The order does not matter. Take two sequences of datagrams with the same shreds of a leader's block, in any order and with any
  duplicates, each amid other traffic: garbage, shreds of another version, and shreds of slots that lie within the lookback of the
  block's, none with an FEC set index past its slot. Deshredders of any build, with a positive lookback and room for it below the end of
  \<open>u64\<close>, hand out the same entry batches of the slot for both, and in either output no range of the slot comes twice.
\<close>

theorem order_irrelevant:
  assumes "bit_set B" and "digest32 hashv" and "rs_in_place r" and "\<forall>k<K. rs_decodes r (cw k)"
    and "leader_block slot version K leader cw" and "room config slot"
    and "\<forall>p\<in>set ps \<union> set qs. nearby_traffic config slot p"
    and "\<forall>x\<in>arrived config slot ps. of_leader slot version K leader cw x \<and> signed_by hashv root sg x"
    and "arrived config slot qs = arrived config slot ps"
  shows "\<exists>self out self2 out2. fold_out (push oc B hashv r deserialize) ps (with_stats config st, []) = Inr (self, out) \<and>
    fold_out (push oc2 B hashv r deserialize) qs (with_stats config st2, []) = Inr (self2, out2) \<and>
    distinct (map (\<lambda>b. (eb_start b, eb_end b)) (filter (\<lambda>b. eb_slot b = slot) out)) \<and>
    distinct (map (\<lambda>b. (eb_start b, eb_end b)) (filter (\<lambda>b. eb_slot b = slot) out2)) \<and>
    mset (filter (\<lambda>b. eb_slot b = slot) out) = mset (filter (\<lambda>b. eb_slot b = slot) out2)"
proof -
  obtain self out where one: "fold_out (push oc B hashv r deserialize) ps (with_stats config st, []) = Inr (self, out)"
      "distinct (map (\<lambda>b. (eb_start b, eb_end b)) (filter (\<lambda>b. eb_slot b = slot) out))"
      "{b\<in>set out. eb_slot b = slot} = {b. promised deserialize leader slot (c_recover config) (arrived config slot ps) b}"
    using pushes_exactly [OF assms(1-6) _ assms(8), where oc = oc and deserialize = deserialize and st = st] assms(7)
    unfolding exact_spec_def by blast
  have "\<forall>x\<in>arrived config slot qs. of_leader slot version K leader cw x \<and> signed_by hashv root sg x" using assms(8,9) by simp
  then obtain self2 out2 where two: "fold_out (push oc2 B hashv r deserialize) qs (with_stats config st2, []) = Inr (self2, out2)"
      "distinct (map (\<lambda>b. (eb_start b, eb_end b)) (filter (\<lambda>b. eb_slot b = slot) out2))"
      "{b\<in>set out2. eb_slot b = slot} = {b. promised deserialize leader slot (c_recover config) (arrived config slot qs) b}"
    using pushes_exactly [OF assms(1-6), where ps = qs and oc = oc2 and deserialize = deserialize and st = st2] assms(7)
    unfolding exact_spec_def by blast
  have "set (filter (\<lambda>b. eb_slot b = slot) out) = set (filter (\<lambda>b. eb_slot b = slot) out2)"
    unfolding set_filter one(3) two(3) assms(9) ..
  then show ?thesis using one two same_elements [OF one(2) two(2)] by blast
qed

theorem order_irrelevant_witness:
  "\<exists>self out self2 out2. fold_out (push True bits_model constant_hash (codeword_rs (block_codeword 0)) tiny_deserialize)
      block_packets (with_stats config_default stats_default, []) = Inr (self, out) \<and>
    fold_out (push False bits_model constant_hash (codeword_rs (block_codeword 0)) tiny_deserialize)
      (rev block_packets @ block_packets) (with_stats config_default stats_default, []) = Inr (self2, out2) \<and>
    distinct (map (\<lambda>b. (eb_start b, eb_end b)) (filter (\<lambda>b. eb_slot b = 1000) out)) \<and>
    distinct (map (\<lambda>b. (eb_start b, eb_end b)) (filter (\<lambda>b. eb_slot b = 1000) out2)) \<and>
    mset (filter (\<lambda>b. eb_slot b = 1000) out) = mset (filter (\<lambda>b. eb_slot b = 1000) out2)"
  by (rule order_irrelevant [OF block_instance block_packets_room(1) _ block_packets_signed])
    (use block_packets_traffic in \<open>auto simp: arrived_def\<close>)

text \<open>
  C8. Whatever valid shreds of a slot arrive, in whatever order and with or without recovery, as long as their FEC set indexes lie inside the
  slot (below 32768; C30 is about the others): the insertions never panic, and the emitted segments are exactly the complete runs of received
  data shreds, each emitted once: the list of emitted ranges has no duplicates and is the set of runs of the final bitmaps; every segment
  carries the entry bytes of one data shred per index of its run, in order, each of them inserted or, with recovery, rebuilt in a
  set of which 32 places were inserted. What is received is tied to what was inserted: every received index is that of such a
  shred, which has the data-complete flag of the bitmap; and without recovery, when the shreds of a set carry one root and one
  signature, the received indexes are exactly those of the inserted data shreds.
\<close>

theorem slot_emits_complete_runs:
  assumes "bit_set B" and "digest32 hashv" and "\<forall>r. rs = Some r \<longrightarrow> rs_in_place r"
    and "\<forall>x\<in>set xs. shred_ok x \<and> unat (s_fec_set_index x) < 32768"
  shows "\<exists>self' st' out. slot_inserts B hashv rs xs (slot_default B, st, []) = Inr (self', st', out) \<and>
    distinct (map (\<lambda>seg. (unat (seg_start seg), unat (seg_end seg))) out) \<and>
    set (map (\<lambda>seg. (unat (seg_start seg), unat (seg_end seg))) out) =
      {(a, b). run_of (bs_contains B (sl_received self')) (bs_contains B (sl_complete self')) a b} \<and>
    (\<forall>seg\<in>set out. segment_ok (bs_contains B (sl_received self')) (bs_contains B (sl_complete self')) (sourced (rs \<noteq> None) (set xs)) seg) \<and>
    (\<forall>i. bs_contains B (sl_received self') i \<longrightarrow> (\<exists>s. shred_ok s \<and> s_kind s = Data \<and> unat (s_index s) = i \<and>
       sourced (rs \<noteq> None) (set xs) s \<and> (bs_contains B (sl_complete self') i \<longleftrightarrow> data_complete s))) \<and>
    (rs = None \<and> (\<forall>x\<in>set xs. signed_by hashv root sg x) \<longrightarrow>
       {i. bs_contains B (sl_received self') i} = (\<lambda>x. unat (s_index x)) ` {x\<in>set xs. s_kind x = Data})"
proof -
  let ?P = "sourced (rs \<noteq> None) (set xs)"
  have "rs_ok ?P rs"
  proof (cases rs)
    case (Some r)
    then have "rs_keeps (\<lambda>x. True \<and> sourced True (set xs) x) r"
      using assms(3) by (intro rs_keeps_sourced) (auto simp: rs_keeps_def)
    then show ?thesis using assms(3) Some by (simp add: rs_ok_def)
  qed (simp add: rs_ok_def)
  moreover have xs: "\<forall>x\<in>set xs. shred_ok x \<and> ?P x \<and> unat (s_fec_set_index x) < 32768" using assms(4) by (simp add: sourced_def)
  ultimately obtain self' st' out where
    run: "slot_inserts B hashv rs xs (slot_default B, st, []) = Inr (self', st', out)" "slot_history B ?P self' out"
    using slot_inserts_history [OF assms(1,2) _ _ slot_history_default [OF assms(1)]] by blast
  have prov: "\<forall>i. recv B self' i \<longrightarrow> (\<exists>s. shred_ok s \<and> s_kind s = Data \<and> unat (s_index s) = i \<and> ?P s \<and> (compl B self' i \<longleftrightarrow> data_complete s))"
    using run(2) unfolding slot_history_def slot_ok_def prov_ok_def by blast
  have "{i. recv B self' i} = (\<lambda>x. unat (s_index x)) ` {x\<in>set xs. s_kind x = Data}"
    if none: "rs = None" and signed: "\<forall>x\<in>set xs. signed_by hashv root sg x"
  proof -
    have "rs_ok (\<lambda>_. True) rs" "rs_recovers (\<lambda>_. True) rs" using none by (simp_all add: rs_ok_def rs_recovers_def)
    then obtain self2 st2 out2 where "slot_inserts B hashv rs xs (slot_default B, st, []) = Inr (self2, st2, out2)"
        "progressing B rs root sg ({} \<union> set xs) self2"
      using slot_inserts_progress [OF assms(1,2) _ _ _ slot_history_default [OF assms(1)] progressing_default [OF assms(1)], where xs = xs and st = st]
        assms(4) signed by blast
    then have "progressing B rs root sg (set xs) self'" using run(1) by simp
    then have "recv B self' (unat (s_index x))" if "x \<in> set xs" "s_kind x = Data" for x
      using arrived_received that assms(4) by blast
    then show ?thesis using prov none by (auto simp: sourced_def)
  qed
  then show ?thesis
    using run(1) prov slot_history_runs [OF run(2)] slot_history_segments [OF run(2)] by blast
qed

text \<open>Two shreds that each end a batch, the second one first, without recovery: both batches are emitted.\<close>

theorem slot_emits_complete_runs_witness:
  "\<exists>self' st' out. slot_inserts bits_model constant_hash (None :: unit reconstructor option)
      [block_shred 1, block_shred 0] (slot_default bits_model, stats_default, []) = Inr (self', st', out) \<and>
    set (map (\<lambda>seg. (unat (seg_start seg), unat (seg_end seg))) out) = {(0, 0), (1, 1)} \<and> length out = 2 \<and>
    {i. bs_contains bits_model (sl_received self') i} = {0, 1}"
proof -
  have xs: "\<forall>x\<in>set [block_shred 1, block_shred 0]. shred_ok x \<and> unat (s_fec_set_index x) < 32768"
    using block_data_at [of 0] block_data_at [of 1] by (simp add: data_at_def)
  have signed: "\<forall>x\<in>set [block_shred 1, block_shred 0]. signed_by constant_hash (\<lambda>_. replicate 32 0) (\<lambda>_. replicate 64 0) x"
    using block_signed(1) [of 0] block_signed(1) [of 1] by simp
  have none: "\<forall>r. (None :: unit reconstructor option) = Some r \<longrightarrow> rs_in_place r" by simp
  obtain self' st' out where run: "slot_inserts bits_model constant_hash (None :: unit reconstructor option)
      [block_shred 1, block_shred 0] (slot_default bits_model, stats_default, []) = Inr (self', st', out)"
    and ranges: "distinct (map (\<lambda>seg. (unat (seg_start seg), unat (seg_end seg))) out)"
      "set (map (\<lambda>seg. (unat (seg_start seg), unat (seg_end seg))) out) =
        {(a, b). run_of (bs_contains bits_model (sl_received self')) (bs_contains bits_model (sl_complete self')) a b}"
    and flags: "\<forall>i. bs_contains bits_model (sl_received self') i \<longrightarrow> (\<exists>s. shred_ok s \<and> s_kind s = Data \<and> unat (s_index s) = i \<and>
       sourced ((None :: unit reconstructor option) \<noteq> None) (set [block_shred 1, block_shred 0]) s \<and>
       (bs_contains bits_model (sl_complete self') i \<longleftrightarrow> data_complete s))"
    and recv: "{i. bs_contains bits_model (sl_received self') i} = (\<lambda>x. unat (s_index x)) ` {x\<in>set [block_shred 1, block_shred 0]. s_kind x = Data}"
    using slot_emits_complete_runs [OF nat_bits.bit_set_axioms digest32_constant_hash none xs, of stats_default "\<lambda>_. replicate 32 0" "\<lambda>_. replicate 64 0"]
      signed by auto
  have shape: "unat (s_index (block_shred 0)) = 0" "unat (s_index (block_shred 1)) = 1" "s_kind (block_shred p) = Data"
      "data_complete (block_shred p)" for p
    by (simp_all add: block_shred_def data_complete_def flags_def)
  have R: "bs_contains bits_model (sl_received self') i \<longleftrightarrow> i = 0 \<or> i = 1" for i
  proof -
    have "{x\<in>set [block_shred 1, block_shred 0]. s_kind x = Data} = {block_shred 1, block_shred 0}" using shape(3) by auto
    then have "{i. bs_contains bits_model (sl_received self') i} = {0, 1}" unfolding recv by (auto simp: shape(1,2) simp del: One_nat_def)
    then show ?thesis by auto
  qed
  have C: "bs_contains bits_model (sl_complete self') i" if "i = 0 \<or> i = 1" for i
    using flags R [of i] that shape(4) by (auto simp: sourced_def)
  have run_iff: "run_of (bs_contains bits_model (sl_received self')) (bs_contains bits_model (sl_complete self')) a b \<longleftrightarrow> a = b \<and> (b = 0 \<or> b = 1)"
    (is "?run \<longleftrightarrow> _") for a b
  proof
    assume r: ?run
    then have "bs_contains bits_model (sl_received self') a" by (simp add: run_of_def)
    then have "bs_contains bits_model (sl_complete self') a" using C R by blast
    then have "\<not> a < b" using r by (auto simp: run_of_def)
    then show "a = b \<and> (b = 0 \<or> b = 1)" using r R [of b] by (simp add: run_of_def)
  next
    assume ab: "a = b \<and> (b = 0 \<or> b = 1)"
    then have "a = 0 \<or> bs_contains bits_model (sl_complete self') (a - 1)" using C [of 0] by auto
    then show ?run using ab R [of b] C [of b] unfolding run_of_def by auto
  qed
  have two: "set (map (\<lambda>seg. (unat (seg_start seg), unat (seg_end seg))) out) = {(0, 0), (1, 1)}"
    unfolding ranges(2) run_iff by auto
  have "length out = card (set (map (\<lambda>seg. (unat (seg_start seg), unat (seg_end seg))) out))"
    using distinct_card [OF ranges(1)] by simp
  then have "length out = 2" unfolding two by simp
  moreover have "{i. bs_contains bits_model (sl_received self') i} = {0, 1}" unfolding R by auto
  ultimately show ?thesis using run two by (intro exI [of _ self'] exI [of _ st'] exI [of _ out] conjI)
qed

end
