(* ===== verification/Io.thy ===== *)
theory Io
  imports Prelude
begin

text \<open>The kinds of \<open>std::io::Error\<close> that the sources tell apart.\<close>

datatype io_error = UnexpectedEof | InvalidInput | InvalidData | WouldBlock | TimedOut | OtherIo nat

end
