(* ===== verification/Fixture.thy ===== *)
theory Fixture
  imports Deshredder Io
begin

text \<open>
  Recording datagrams to a file and replaying them (\<open>src/fixture.rs\<close>). The file is whatever implements
  \<open>std::io::Write\<close> or \<open>std::io::Read\<close>: the two operations the code calls are arguments, and the locales
  \<open>byte_sink\<close> and \<open>byte_source\<close> state what they do when the device works. They are interpreted on the
  standard library's own instances, the growing \<open>Vec<u8>\<close> and the slice \<open>&[u8]\<close>, and the sink on the \<open>BufWriter\<close> that
  \<open>Writer::create\<close> puts in front of a file, which is modelled here. Creating a file is an argument that returns the file or an
  error, opening one for reading an argument that returns the buffered device or an error.
\<close>

section \<open>Definitions\<close>

type_synonym 'w write_all = "bytes \<Rightarrow> 'w \<Rightarrow> 'w \<times> io_error option"
type_synonym 'r read_exact = "nat \<Rightarrow> 'r \<Rightarrow> 'r \<times> (io_error + bytes)"

definition MAGIC :: bytes where
  "MAGIC = [0x53, 0x48, 0x52, 0x45, 0x44, 0x53, 0x00, 0x01]"

definition writer_new :: "'w write_all \<Rightarrow> 'w \<Rightarrow> 'w \<times> io_error option" where
  "writer_new write_all inner = write_all MAGIC inner"

definition writer_flush :: "('w \<Rightarrow> 'w \<times> io_error option) \<Rightarrow> 'w \<Rightarrow> 'w \<times> io_error option" where
  "writer_flush flush inner = flush inner"

text \<open>
  The standard library's \<open>BufWriter\<close>: what is written is kept in a buffer of 8 KiB; it goes to the file when the buffer cannot
  take more, on \<open>flush\<close>, and when the writer is dropped, where errors are ignored. \<open>file_write\<close> is its loop of \<open>write\<close> calls on
  the file: it writes bytes from the front until all are written or a call fails, and returns how many it has
  written, with the error if there was one.
\<close>

type_synonym 'f file_write = "bytes \<Rightarrow> 'f \<Rightarrow> 'f \<times> nat \<times> io_error option"

record 'f buf_writer =
  bw_file :: 'f
  bw_buf :: bytes

definition BUF_SIZE :: nat where
  "BUF_SIZE = 8192"

definition buf_writer_new :: "'f \<Rightarrow> 'f buf_writer" where
  "buf_writer_new f = \<lparr>bw_file = f, bw_buf = []\<rparr>"

definition flush_buf :: "'f file_write \<Rightarrow> 'f buf_writer \<Rightarrow> 'f buf_writer \<times> io_error option" where
  "flush_buf file_write w =
     (let (f, n, e) = file_write (bw_buf w) (bw_file w) in (\<lparr>bw_file = f, bw_buf = drop n (bw_buf w)\<rparr>, e))"

definition buf_write_all :: "'f file_write \<Rightarrow> 'f buf_writer write_all" where
  "buf_write_all file_write bs w =
     (let spare = BUF_SIZE - length (bw_buf w) in
      if length bs < spare then (w\<lparr>bw_buf := bw_buf w @ bs\<rparr>, None)
      else case (if spare < length bs then flush_buf file_write w else (w, None)) of
        (w, Some e) \<Rightarrow> (w, Some e)
      | (w, None) \<Rightarrow>
        if BUF_SIZE \<le> length bs then (let (f, n, e) = file_write bs (bw_file w) in (w\<lparr>bw_file := f\<rparr>, e))
        else (w\<lparr>bw_buf := bw_buf w @ bs\<rparr>, None))"

definition buf_drop :: "'f file_write \<Rightarrow> 'f buf_writer \<Rightarrow> 'f" where
  "buf_drop file_write w = bw_file (fst (flush_buf file_write w))"

text \<open>\<open>Writer::create\<close>: \<open>create\<close> opens the file for writing and empties it.\<close>

definition writer_create :: "('p \<Rightarrow> io_error + 'f) \<Rightarrow> 'f file_write \<Rightarrow> 'p \<Rightarrow> io_error + 'f buf_writer" where
  "writer_create create file_write path =
     (case create path of
        Inl e \<Rightarrow> Inl e
      | Inr file \<Rightarrow> (case writer_new (buf_write_all file_write) (buf_writer_new file) of (w, Some e) \<Rightarrow> Inl e | (w, None) \<Rightarrow> Inr w))"

definition write_at :: "'w write_all \<Rightarrow> u64 \<Rightarrow> bytes \<Rightarrow> 'w \<Rightarrow> 'w \<times> io_error option" where
  "write_at write_all unix_nanos packet inner =
     (if 65536 \<le> length packet then (inner, Some InvalidInput)
      else case write_all (le_bytes 8 (unat unix_nanos)) inner of
        (inner, Some e) \<Rightarrow> (inner, Some e)
      | (inner, None) \<Rightarrow>
        (case write_all (le_bytes 2 (length packet)) inner of
          (inner, Some e) \<Rightarrow> (inner, Some e)
        | (inner, None) \<Rightarrow> write_all packet inner))"

text \<open>\<open>now\<close> is the time since the epoch in nanoseconds, or nothing when the clock is before the epoch.\<close>

definition write_now :: "'w write_all \<Rightarrow> nat option \<Rightarrow> bytes \<Rightarrow> 'w \<Rightarrow> 'w \<times> io_error option" where
  "write_now write_all now packet inner =
     write_at write_all (case now of None \<Rightarrow> 0 | Some nanos \<Rightarrow> word_of_nat nanos) packet inner"

record fixture_record =
  fr_unix_nanos :: u64
  fr_packet :: bytes

definition reader_new :: "'r read_exact \<Rightarrow> 'r \<Rightarrow> 'r \<times> (io_error + unit)" where
  "reader_new read_exact inner =
     (case read_exact 8 inner of
        (inner, Inl e) \<Rightarrow> (inner, Inl e)
      | (inner, Inr magic) \<Rightarrow> (inner, if magic \<noteq> MAGIC then Inl InvalidData else Inr ()))"

definition reader_open :: "('p \<Rightarrow> io_error + 'r) \<Rightarrow> 'r read_exact \<Rightarrow> 'p \<Rightarrow> io_error + 'r" where
  "reader_open open read_exact path =
     (case open path of
        Inl e \<Rightarrow> Inl e
      | Inr inner \<Rightarrow> (case reader_new read_exact inner of (inner, Inl e) \<Rightarrow> Inl e | (inner, Inr u) \<Rightarrow> Inr inner))"

definition reader_next :: "'r read_exact \<Rightarrow> 'r \<Rightarrow> 'r \<times> (io_error + fixture_record) option" where
  "reader_next read_exact inner =
     (case read_exact 10 inner of
        (inner, Inl UnexpectedEof) \<Rightarrow> (inner, None)
      | (inner, Inl e) \<Rightarrow> (inner, Some (Inl e))
      | (inner, Inr header) \<Rightarrow>
        let unix_nanos = word_of_nat (le_val (take 8 header)); len = le_val [header ! 8, header ! 9] in
        (case read_exact len inner of
           (inner, Inl e) \<Rightarrow> (inner, Some (Inl e))
         | (inner, Inr packet) \<Rightarrow> (inner, Some (Inr \<lparr>fr_unix_nanos = unix_nanos, fr_packet = packet\<rparr>))))"

text \<open>
  The replay loop; a reader may never end, so no result is its divergence. The deshredder and the sink
  are the caller's and keep their state on every return: \<open>on_batch\<close> is the sink's method on its state.
  \<open>push\<close> has no error result, only panics.
\<close>

record ('b, 'k) replay_state =
  rp_deshredder :: "'b deshredder"
  rp_sink :: 'k

definition replay_packet :: "bool \<Rightarrow> 'b bitset_ops \<Rightarrow> hasher \<Rightarrow> 'r reconstructor \<Rightarrow> ('w, 'tx) deserializer \<Rightarrow>
    ('tx entry_batch \<Rightarrow> 'k \<Rightarrow> 'k) \<Rightarrow> bytes \<Rightarrow> ('b, 'k) replay_state \<Rightarrow> ('b, 'k) replay_state run" where
  "replay_packet oc B hashv rs deserialize on_batch packet s =
     bind_out (push oc B hashv rs deserialize packet (rp_deshredder s, [])) (\<lambda>(deshredder, out).
     Inr \<lparr>rp_deshredder = deshredder, rp_sink = fold on_batch out (rp_sink s)\<rparr>)"

partial_function (option) replay_loop :: "'f read_exact \<Rightarrow> (bytes \<Rightarrow> 's \<Rightarrow> 's run) \<Rightarrow> 'f \<Rightarrow> 's \<Rightarrow> nat \<Rightarrow>
    ((io_error, nat) outcome \<times> 's) option" where
  "replay_loop read_exact body reader s count =
     (case reader_next read_exact reader of
        (reader, None) \<Rightarrow> Some (Inr count, s)
      | (reader, Some (Inl e)) \<Rightarrow> Some (Inl (Err e), s)
      | (reader, Some (Inr record)) \<Rightarrow>
        (case body (fr_packet record) s of
           Inl (Panic p) \<Rightarrow> Some (Inl (Panic p), s)
         | Inl (Err u) \<Rightarrow> None
         | Inr s \<Rightarrow> replay_loop read_exact body reader s (count + 1)))"

definition replay :: "bool \<Rightarrow> 'b bitset_ops \<Rightarrow> hasher \<Rightarrow> 'r reconstructor \<Rightarrow> ('w, 'tx) deserializer \<Rightarrow>
    'f read_exact \<Rightarrow> ('tx entry_batch \<Rightarrow> 'k \<Rightarrow> 'k) \<Rightarrow> 'f \<Rightarrow> ('b, 'k) replay_state \<Rightarrow>
    ((io_error, nat) outcome \<times> ('b, 'k) replay_state) option" where
  "replay oc B hashv rs deserialize read_exact on_batch reader s =
     replay_loop read_exact (replay_packet oc B hashv rs deserialize on_batch) reader s 0"

text \<open>The standard library's in-memory devices.\<close>

definition vec_write_all :: "bytes write_all" where
  "vec_write_all bs v = (v @ bs, None)"

definition slice_read_exact :: "bytes read_exact" where
  "slice_read_exact n s = (if n \<le> length s then (drop n s, Inr (take n s)) else ([], Inl UnexpectedEof))"

section \<open>Writing\<close>

definition record_bytes :: "fixture_record \<Rightarrow> bytes" where
  "record_bytes r = le_bytes 8 (unat (fr_unix_nanos r)) @ le_bytes 2 (length (fr_packet r)) @ fr_packet r"

definition fixture_bytes :: "fixture_record list \<Rightarrow> bytes" where
  "fixture_bytes rs = MAGIC @ concat (map record_bytes rs)"

fun write_records :: "'w write_all \<Rightarrow> fixture_record list \<Rightarrow> 'w \<Rightarrow> 'w \<times> io_error option" where
  "write_records write_all [] w = (w, None)"
| "write_records write_all (r # rs) w =
     (case write_at write_all (fr_unix_nanos r) (fr_packet r) w of
        (w, Some e) \<Rightarrow> (w, Some e)
      | (w, None) \<Rightarrow> write_records write_all rs w)"

text \<open>A device that takes everything that is written to it.\<close>

locale byte_sink =
  fixes write_all :: "'w write_all" and written :: "'w \<Rightarrow> bytes"
  assumes write_all_appends: "\<exists>w'. write_all bs w = (w', None) \<and> written w' = written w @ bs"
begin

lemma writer_new_ok: "\<exists>w'. writer_new write_all w = (w', None) \<and> written w' = written w @ MAGIC"
  unfolding writer_new_def by (rule write_all_appends)

lemma write_at_ok:
  assumes "length (fr_packet r) < 65536"
  shows "\<exists>w'. write_at write_all (fr_unix_nanos r) (fr_packet r) w = (w', None) \<and> written w' = written w @ record_bytes r"
proof -
  obtain w1 where w1: "write_all (le_bytes 8 (unat (fr_unix_nanos r))) w = (w1, None)"
      "written w1 = written w @ le_bytes 8 (unat (fr_unix_nanos r))" using write_all_appends by blast
  obtain w2 where w2: "write_all (le_bytes 2 (length (fr_packet r))) w1 = (w2, None)"
      "written w2 = written w1 @ le_bytes 2 (length (fr_packet r))" using write_all_appends by blast
  obtain w3 where "write_all (fr_packet r) w2 = (w3, None)" "written w3 = written w2 @ fr_packet r" using write_all_appends by blast
  with w1 w2 assms show ?thesis by (simp add: write_at_def record_bytes_def)
qed

lemma write_records_ok:
  assumes "\<forall>r\<in>set rs. length (fr_packet r) < 65536"
  shows "\<exists>w'. write_records write_all rs w = (w', None) \<and> written w' = written w @ concat (map record_bytes rs)"
  using assms
proof (induction rs arbitrary: w)
  case (Cons r rs)
  obtain w1 where w1: "write_at write_all (fr_unix_nanos r) (fr_packet r) w = (w1, None)" "written w1 = written w @ record_bytes r"
    using write_at_ok [of r] Cons.prems by auto
  obtain w2 where "write_records write_all rs w1 = (w2, None)" "written w2 = written w1 @ concat (map record_bytes rs)"
    using Cons.IH [of w1] Cons.prems by auto
  with w1 show ?case by simp
qed simp

end

interpretation vec: byte_sink vec_write_all "\<lambda>v. v"
  by standard (simp add: vec_write_all_def)

text \<open>
  A file on a device that never fails: the buffered writer takes everything that is written to it, \<open>contents\<close> of the file
  and the buffer behind them, and once it is dropped all of it is in the file.
\<close>

locale file_device =
  fixes file_write :: "'f file_write" and contents :: "'f \<Rightarrow> bytes"
  assumes file_write_appends: "\<exists>f'. file_write bs f = (f', length bs, None) \<and> contents f' = contents f @ bs"
begin

lemma flush_buf_all:
  "\<exists>w'. flush_buf file_write w = (w', None) \<and> contents (bw_file w') = contents (bw_file w) @ bw_buf w \<and> bw_buf w' = []"
proof -
  obtain f where "file_write (bw_buf w) (bw_file w) = (f, length (bw_buf w), None)" "contents f = contents (bw_file w) @ bw_buf w"
    using file_write_appends by blast
  then show ?thesis by (simp add: flush_buf_def)
qed

lemma contents_buf_drop: "contents (buf_drop file_write w) = contents (bw_file w) @ bw_buf w"
  using flush_buf_all [of w] by (auto simp: buf_drop_def)

lemma buffered_sink: "byte_sink (buf_write_all file_write) (\<lambda>w. contents (bw_file w) @ bw_buf w)"
proof
  fix bs :: bytes and w :: "'f buf_writer"
  let ?spare = "BUF_SIZE - length (bw_buf w)"
  obtain w1 where w1: "(if ?spare < length bs then flush_buf file_write w else (w, None)) = (w1, None)"
      "contents (bw_file w1) @ bw_buf w1 = contents (bw_file w) @ bw_buf w" "BUF_SIZE \<le> length bs \<Longrightarrow> bw_buf w1 = []"
  proof (cases "?spare < length bs")
    case True
    then show thesis using flush_buf_all [of w] that by auto
  next
    case False
    then have "bw_buf w = []" if "BUF_SIZE \<le> length bs" using that unfolding BUF_SIZE_def by (cases "bw_buf w") auto
    then show thesis using False that [of w] by auto
  qed
  obtain f where "file_write bs (bw_file w1) = (f, length bs, None)" "contents f = contents (bw_file w1) @ bs"
    using file_write_appends by blast
  note f = this
  show "\<exists>w'. buf_write_all file_write bs w = (w', None) \<and>
      contents (bw_file w') @ bw_buf w' = (contents (bw_file w) @ bw_buf w) @ bs"
  proof (cases "length bs < ?spare")
    case True
    then show ?thesis by (simp add: buf_write_all_def)
  next
    case False
    then have "buf_write_all file_write bs w = ((if BUF_SIZE \<le> length bs then w1\<lparr>bw_file := f\<rparr> else w1\<lparr>bw_buf := bw_buf w1 @ bs\<rparr>), None)"
      unfolding buf_write_all_def Let_def w1(1) by (simp add: f(1))
    then show ?thesis using f(2) w1(2,3) by auto
  qed
qed

end

sublocale file_device \<subseteq> buffered: byte_sink "buf_write_all file_write" "\<lambda>w. contents (bw_file w) @ bw_buf w"
  by (rule buffered_sink)

text \<open>A file that grows.\<close>

definition file_append :: "bytes file_write" where
  "file_append bs f = (f @ bs, length bs, None)"

interpretation grown: file_device file_append "\<lambda>f. f"
  by standard (simp add: file_append_def)

section \<open>Reading\<close>

text \<open>A source of finitely many bytes that only fails at its end.\<close>

locale byte_source =
  fixes read_exact :: "'r read_exact" and left :: "'r \<Rightarrow> bytes"
  assumes read_enough: "n \<le> length (left r) \<Longrightarrow> \<exists>r'. read_exact n r = (r', Inr (take n (left r))) \<and> left r' = drop n (left r)"
    and read_short: "length (left r) < n \<Longrightarrow> \<exists>r'. read_exact n r = (r', Inl UnexpectedEof) \<and> left r' = []"
begin

lemma reader_new_ok:
  assumes "left r = MAGIC @ rest"
  shows "\<exists>r'. reader_new read_exact r = (r', Inr ()) \<and> left r' = rest"
proof -
  have "length MAGIC = 8" by (simp add: MAGIC_def)
  then show ?thesis using read_enough [of 8 r] assms by (auto simp: reader_new_def)
qed

lemma reader_next_record:
  assumes "left r = record_bytes rec @ rest" and "length (fr_packet rec) < 65536"
  shows "\<exists>r'. reader_next read_exact r = (r', Some (Inr rec)) \<and> left r' = rest"
proof -
  let ?n = "unat (fr_unix_nanos rec)" and ?l = "length (fr_packet rec)"
  let ?h = "le_bytes 8 ?n @ le_bytes 2 ?l"
  have h: "take 10 (left r) = ?h" "drop 10 (left r) = fr_packet rec @ rest" "10 \<le> length (left r)"
    by (simp_all add: assms(1) record_bytes_def)
  obtain r1 where r1: "read_exact 10 r = (r1, Inr ?h)" "left r1 = fr_packet rec @ rest"
    using read_enough [OF h(3)] h by auto
  obtain a b where ab: "le_bytes 2 ?l = [a, b]" by (simp add: numeral_2_eq_2)
  have len: "le_val [?h ! 8, ?h ! 9] = ?l"
    using le_val_le_bytes [of ?l 2] assms(2) by (simp add: nth_append ab)
  have nanos: "word_of_nat (le_val (le_bytes 8 ?n)) = fr_unix_nanos rec"
    using le_val_le_bytes [of ?n 8] unsigned_less [of "fr_unix_nanos rec", where 'a = nat] by simp
  obtain r2 where "read_exact ?l r1 = (r2, Inr (fr_packet rec))" "left r2 = rest"
    using read_enough [of ?l r1] r1(2) by auto
  with r1 show ?thesis by (simp add: reader_next_def Let_def len nanos del: le_val.simps)
qed

lemma reader_next_end: "length (left r) < 10 \<Longrightarrow> \<exists>r'. reader_next read_exact r = (r', None) \<and> left r' = []"
  using read_short [of r 10] by (auto simp: reader_next_def)

lemma reader_next_cut:
  assumes "left r = take k (record_bytes rec)" and "10 \<le> k" and "k < length (record_bytes rec)" and "length (fr_packet rec) < 65536"
  shows "\<exists>r'. reader_next read_exact r = (r', Some (Inl UnexpectedEof)) \<and> left r' = []"
proof -
  let ?l = "length (fr_packet rec)"
  let ?h = "le_bytes 8 (unat (fr_unix_nanos rec)) @ le_bytes 2 ?l"
  have "record_bytes rec = ?h @ fr_packet rec" "length ?h = 10" by (simp_all add: record_bytes_def)
  then have left: "left r = ?h @ take (k - 10) (fr_packet rec)" and k: "k - 10 < ?l"
    using assms(1,2,3) by auto
  obtain r1 where r1: "read_exact 10 r = (r1, Inr ?h)" "left r1 = take (k - 10) (fr_packet rec)"
    using read_enough [of 10 r] left by auto
  have len: "le_val [?h ! 8, ?h ! 9] = ?l"
    using le_val_le_bytes [of ?l 2] assms(4) by (simp add: nth_append numeral_2_eq_2)
  obtain r2 where "read_exact ?l r1 = (r2, Inl UnexpectedEof)" "left r2 = []"
    using read_short [of r1 ?l] r1(2) k by auto
  with r1 show ?thesis by (simp add: reader_next_def Let_def len del: le_val.simps)
qed

text \<open>The replay of a file that starts with complete records is their fold, followed by the rest.\<close>

lemma replay_loop_records:
  assumes "left r = concat (map record_bytes recs) @ rest" and "\<forall>rec\<in>set recs. length (fr_packet rec) < 65536"
    and "fold_out body (map fr_packet recs) s = Inr s'"
  shows "\<exists>r'. left r' = rest \<and> replay_loop read_exact body r s n = replay_loop read_exact body r' s' (n + length recs)"
  using assms
proof (induction recs arbitrary: r s n)
  case Nil
  then show ?case by auto
next
  case (Cons rec recs)
  obtain r1 where r1: "reader_next read_exact r = (r1, Some (Inr rec))" "left r1 = concat (map record_bytes recs) @ rest"
    using reader_next_record [of r rec] Cons.prems(1,2) by auto
  obtain s1 where s1: "body (fr_packet rec) s = Inr s1" "fold_out body (map fr_packet recs) s1 = Inr s'"
    using Cons.prems(3) by (auto simp: bind_out_Inr_iff)
  obtain r' where "left r' = rest" "replay_loop read_exact body r1 s1 (n + 1) = replay_loop read_exact body r' s' (n + 1 + length recs)"
    using Cons.IH [OF r1(2) _ s1(2), of "n + 1"] Cons.prems(2) by auto
  then show ?case using r1(1) s1(1) by (subst replay_loop.simps) auto
qed

lemma replay_loop_end: "length (left r) < 10 \<Longrightarrow> replay_loop read_exact body r s n = Some (Inr n, s)"
  using reader_next_end [of r] by (subst replay_loop.simps) auto

lemma replay_loop_cut:
  assumes "left r = take k (record_bytes rec)" and "10 \<le> k" and "k < length (record_bytes rec)" and "length (fr_packet rec) < 65536"
  shows "replay_loop read_exact body r s n = Some (Inl (Err UnexpectedEof), s)"
  using reader_next_cut [OF assms] by (subst replay_loop.simps) auto

end

interpretation slice: byte_source slice_read_exact "\<lambda>s. s"
  by standard (simp_all add: slice_read_exact_def)

section \<open>Replaying\<close>

text \<open>Cutting a concatenation: the complete parts, and the start of the part that was cut.\<close>

lemma take_concat_parts:
  "\<exists>n\<le>length xss. length (concat (take n xss)) \<le> j \<and> (n < length xss \<longrightarrow> j < length (concat (take (Suc n) xss))) \<and>
    take j (concat xss) = concat (take n xss) @ (if n < length xss then take (j - length (concat (take n xss))) (xss ! n) else [])"
proof (induction xss arbitrary: j)
  case (Cons xs xss)
  show ?case
  proof (cases "length xs \<le> j")
    case True
    obtain n where n: "n \<le> length xss" "length (concat (take n xss)) \<le> j - length xs"
        "n < length xss \<longrightarrow> j - length xs < length (concat (take (Suc n) xss))"
        "take (j - length xs) (concat xss) = concat (take n xss) @
          (if n < length xss then take (j - length xs - length (concat (take n xss))) (xss ! n) else [])"
      using Cons.IH [of "j - length xs"] by blast
    with True show ?thesis by (intro exI [of _ "Suc n"]) auto
  next
    case False
    then show ?thesis by (intro exI [of _ 0]) auto
  qed
qed simp

lemma pushes_append:
  "fold_out (push oc B hashv rs deserialize) ps (d, out) =
    bind_out (fold_out (push oc B hashv rs deserialize) ps (d, [])) (\<lambda>(d', new). Inr (d', out @ new))"
proof (induction ps arbitrary: d out)
  case (Cons p ps)
  show ?case
  proof (cases "push oc B hashv rs deserialize p (d, [])")
    case (Inr r)
    obtain d1 new where r: "r = (d1, new)" by (cases r)
    have one: "push oc B hashv rs deserialize p (d, out) = Inr (d1, out @ new)"
      by (subst push_append) (simp add: Inr r)
    have "fold_out (push oc B hashv rs deserialize) ps (d1, out @ new) =
        bind_out (fold_out (push oc B hashv rs deserialize) ps (d1, new)) (\<lambda>(d', x). Inr (d', out @ x))"
      by (subst (1 2) Cons.IH) (cases "fold_out (push oc B hashv rs deserialize) ps (d1, [])"; auto)
    then show ?thesis by (simp add: one Inr r)
  qed (subst (1) fold_out.simps, subst push_append, simp)
qed simp

lemma replay_packets:
  assumes "fold_out (push oc B hashv rs deserialize) ps (rp_deshredder s, []) = Inr (d', out)"
  shows "fold_out (replay_packet oc B hashv rs deserialize on_batch) ps s =
    Inr \<lparr>rp_deshredder = d', rp_sink = fold on_batch out (rp_sink s)\<rparr>"
  using assms
proof (induction ps arbitrary: s out)
  case (Cons p ps)
  obtain d1 o1 where one: "push oc B hashv rs deserialize p (rp_deshredder s, []) = Inr (d1, o1)"
    and rest: "fold_out (push oc B hashv rs deserialize) ps (d1, o1) = Inr (d', out)"
    using Cons.prems by (auto simp: bind_out_Inr_iff)
  obtain o2 where o2: "fold_out (push oc B hashv rs deserialize) ps (d1, []) = Inr (d', o2)" "out = o1 @ o2"
    using rest by (subst (asm) pushes_append) (auto simp: bind_out_Inr_iff)
  show ?case
    using Cons.IH [of "\<lparr>rp_deshredder = d1, rp_sink = fold on_batch o1 (rp_sink s)\<rparr>" o2] o2 one by (simp add: replay_packet_def)
qed simp

text \<open>Replaying a recording from any device is pushing its datagrams.\<close>

lemma replay_bytes:
  assumes src: "byte_source read_exact left" and r: "left r = fixture_bytes recs"
    and fit: "\<forall>r\<in>set recs. length (fr_packet r) < 65536"
    and run: "fold_out (push oc B hashv rs deserialize) (map fr_packet recs) (rp_deshredder s, []) = Inr (d', bs)"
  shows "\<exists>reader. reader_new read_exact r = (reader, Inr ()) \<and>
    replay oc B hashv rs deserialize read_exact on_batch reader s =
      Some (Inr (length recs), \<lparr>rp_deshredder = d', rp_sink = fold on_batch bs (rp_sink s)\<rparr>)"
proof -
  let ?loop = "replay_loop read_exact (replay_packet oc B hashv rs deserialize on_batch)"
  obtain reader where reader: "reader_new read_exact r = (reader, Inr ())" "left reader = concat (map record_bytes recs)"
    using byte_source.reader_new_ok [OF src r [unfolded fixture_bytes_def]] by blast
  obtain r' where r': "left r' = []"
      "?loop reader s 0 = ?loop r' \<lparr>rp_deshredder = d', rp_sink = fold on_batch bs (rp_sink s)\<rparr> (0 + length recs)"
    using byte_source.replay_loop_records [OF src _ fit replay_packets [OF run, of on_batch], of reader "[]" 0] reader(2) by auto
  have "length (left r') < 10" by (simp add: r'(1))
  from byte_source.replay_loop_end [OF src this] show ?thesis using reader(1) r'(2) by (simp add: replay_def)
qed

section \<open>Properties\<close>

text \<open>
  What was recorded is what is replayed: writing any datagrams that fit a record to a fixture and
  replaying it pushes exactly these datagrams in this order through the deshredder, hands exactly the
  batches that pushing them produces to the sink, in order, and returns their number.
\<close>

lemma replay_recorded:
  assumes "\<forall>r\<in>set recs. length (fr_packet r) < 65536"
    and "fold_out (push oc B hashv rs deserialize) (map fr_packet recs) (rp_deshredder s, []) = Inr (d', bs)"
  shows "\<exists>v file reader. writer_new vec_write_all [] = (v, None) \<and> write_records vec_write_all recs v = (file, None) \<and>
    reader_new slice_read_exact file = (reader, Inr ()) \<and>
    replay oc B hashv rs deserialize slice_read_exact on_batch reader s =
      Some (Inr (length recs), \<lparr>rp_deshredder = d', rp_sink = fold on_batch bs (rp_sink s)\<rparr>)"
proof -
  obtain v where v: "writer_new vec_write_all [] = (v, None)" "v = MAGIC" using vec.writer_new_ok [of "[]"] by auto
  obtain data where data: "write_records vec_write_all recs v = (data, None)" "data = MAGIC @ concat (map record_bytes recs)"
    using vec.write_records_ok [OF assms(1), of v] v(2) by auto
  from replay_bytes [OF slice.byte_source_axioms _ assms, of data on_batch] obtain reader where
    "reader_new slice_read_exact data = (reader, Inr ())"
    "replay oc B hashv rs deserialize slice_read_exact on_batch reader s =
      Some (Inr (length recs), \<lparr>rp_deshredder = d', rp_sink = fold on_batch bs (rp_sink s)\<rparr>)"
    using data(2) by (auto simp: fixture_bytes_def)
  then show ?thesis using v(1) data(1) by auto
qed

text \<open>
  C35. A recording that was cut off anywhere behind its magic replays exactly the records that are
  complete in it: then it ends normally when the cut is at a record or inside a record's header, and
  with an unexpected end of file when it is inside a datagram.
\<close>

theorem replay_cut_recording:
  assumes "\<forall>r\<in>set recs. length (fr_packet r) < 65536" and "8 \<le> k"
    and "\<forall>n\<le>length recs. \<exists>s'. fold_out body (map fr_packet (take n recs)) s = Inr s'"
  shows "\<exists>reader n s'. reader_new slice_read_exact (take k (fixture_bytes recs)) = (reader, Inr ()) \<and> n \<le> length recs \<and>
    fold_out body (map fr_packet (take n recs)) s = Inr s' \<and>
    length (fixture_bytes (take n recs)) \<le> k \<and> (n < length recs \<longrightarrow> k < length (fixture_bytes (take (Suc n) recs))) \<and>
    replay_loop slice_read_exact body reader s 0 =
      Some (if n < length recs \<and> length (fixture_bytes (take n recs)) + 10 \<le> k then Inl (Err UnexpectedEof) else Inr n, s')"
proof -
  let ?bs = "map record_bytes recs"
  have fb: "fixture_bytes (take n recs) = MAGIC @ concat (take n ?bs)" for n by (simp add: fixture_bytes_def take_map)
  have magic: "length MAGIC = 8" by (simp add: MAGIC_def)
  obtain n where n: "n \<le> length ?bs" "length (concat (take n ?bs)) \<le> k - 8"
      "n < length ?bs \<longrightarrow> k - 8 < length (concat (take (Suc n) ?bs))"
      "take (k - 8) (concat ?bs) = concat (take n ?bs) @ (if n < length ?bs then take (k - 8 - length (concat (take n ?bs))) (?bs ! n) else [])"
    using take_concat_parts [of ?bs "k - 8"] by blast
  let ?part = "if n < length ?bs then take (k - 8 - length (concat (take n ?bs))) (?bs ! n) else []"
  obtain s' where s': "fold_out body (map fr_packet (take n recs)) s = Inr s'" using assms(3) n(1) by auto
  have "take k (fixture_bytes recs) = MAGIC @ (concat (take n ?bs) @ ?part)"
    using assms(2) n(4) by (simp add: fixture_bytes_def magic)
  from slice.reader_new_ok [OF this] obtain reader where
    reader: "reader_new slice_read_exact (take k (fixture_bytes recs)) = (reader, Inr ())" "reader = concat (take n ?bs) @ ?part" by blast
  have "\<exists>r'. r' = ?part \<and> replay_loop slice_read_exact body reader s 0 = replay_loop slice_read_exact body r' s' (0 + length (take n recs))"
    using assms(1) by (intro slice.replay_loop_records s') (auto simp: reader(2) take_map dest: in_set_takeD)
  then have loop: "replay_loop slice_read_exact body reader s 0 = replay_loop slice_read_exact body ?part s' n" using n(1) by auto
  have "replay_loop slice_read_exact body ?part s' n =
      Some (if n < length recs \<and> length (fixture_bytes (take n recs)) + 10 \<le> k then Inl (Err UnexpectedEof) else Inr n, s')"
  proof (cases "n < length recs \<and> length (fixture_bytes (take n recs)) + 10 \<le> k")
    case True
    let ?m = "k - 8 - length (concat (take n ?bs))"
    have "18 + length (concat (take n ?bs)) \<le> k" using True by (simp add: fb magic)
    then have "10 \<le> ?m" by linarith
    moreover have "?m < length (record_bytes (recs ! n))" using n(2,3) True assms(2) by (auto simp: take_Suc_conv_app_nth)
    ultimately have "replay_loop slice_read_exact body (take ?m (record_bytes (recs ! n))) s' n = Some (Inl (Err UnexpectedEof), s')"
      using assms(1) True by (intro slice.replay_loop_cut) auto
    with True show ?thesis by simp
  next
    case False
    then have "length ?part < 10" by (auto simp: fb magic)
    then have "replay_loop slice_read_exact body ?part s' n = Some (Inr n, s')" by (rule slice.replay_loop_end)
    then show ?thesis unfolding if_not_P [OF False] .
  qed
  moreover have "length (fixture_bytes (take n recs)) \<le> k" "n < length recs \<longrightarrow> k < length (fixture_bytes (take (Suc n) recs))"
    using n(2,3) assms(2) by (auto simp: fb magic)
  ultimately show ?thesis using reader(1) n(1) s' loop by auto
qed

theorem replay_cut_recording_witness:
  "\<exists>reader n s'. reader_new slice_read_exact (take 20 (fixture_bytes [\<lparr>fr_unix_nanos = 1, fr_packet = [1, 2, 3]\<rparr>])) = (reader, Inr ()) \<and>
    n \<le> length [\<lparr>fr_unix_nanos = 1, fr_packet = [1, 2, 3 :: u8]\<rparr>] \<and>
    replay_loop slice_read_exact (\<lambda>p s. Inr (s @ [p])) reader [] 0 = Some (Inl (Err UnexpectedEof), s')"
proof -
  let ?r = "\<lparr>fr_unix_nanos = 1, fr_packet = [1, 2, 3]\<rparr>"
  have "\<forall>n\<le>length [?r]. \<exists>s'. fold_out (\<lambda>p s. Inr (s @ [p])) (map fr_packet (take n [?r])) [] = (Inr s' :: bytes list run)"
    by (auto simp: le_Suc_eq)
  from replay_cut_recording [OF _ _ this, of 20] obtain reader n s' where
    r: "reader_new slice_read_exact (take 20 (fixture_bytes [?r])) = (reader, Inr ())" "n \<le> 1"
      "n < 1 \<longrightarrow> 20 < length (fixture_bytes (take (Suc n) [?r]))" "length (fixture_bytes (take n [?r])) \<le> 20"
      "replay_loop slice_read_exact (\<lambda>p s. Inr (s @ [p])) reader [] 0 =
        Some (if n < 1 \<and> length (fixture_bytes (take n [?r])) + 10 \<le> 20 then Inl (Err UnexpectedEof) else Inr n, s')"
    by auto
  have "n = 0" using r(2,4) by (cases n) (auto simp: fixture_bytes_def MAGIC_def record_bytes_def)
  with r show ?thesis by (auto simp: fixture_bytes_def MAGIC_def)
qed

end
