(* ===== verification/Text.thy ===== *)
theory Text
  imports Prelude
begin

text \<open>
  Printed numbers, shared by the two programs: \<open>decimal\<close> is what \<open>{}\<close> prints of an unsigned integer, and
  \<open>numbers_of\<close> reads the numbers of a line back.
\<close>

text \<open>\<open>{}\<close> of an unsigned integer.\<close>

definition digit_char :: "nat \<Rightarrow> char" where
  "digit_char d = char_of (48 + d)"

fun decimal :: "nat \<Rightarrow> string" where
  "decimal n = (if n < 10 then [] else decimal (n div 10)) @ [digit_char (n mod 10)]"

declare decimal.simps [simp del]

text \<open>Reading the numbers of a line back: the maximal runs of digits.\<close>

definition is_digit :: "char \<Rightarrow> bool" where
  "is_digit c \<longleftrightarrow> 48 \<le> (of_char c :: nat) \<and> (of_char c :: nat) < 58"

fun scan_numbers :: "nat option \<Rightarrow> string \<Rightarrow> nat list" where
  "scan_numbers acc [] = (case acc of None \<Rightarrow> [] | Some n \<Rightarrow> [n])"
| "scan_numbers acc (c # cs) =
     (if is_digit c
      then scan_numbers (Some ((case acc of None \<Rightarrow> 0 | Some n \<Rightarrow> 10 * n) + (of_char c - 48))) cs
      else (case acc of None \<Rightarrow> [] | Some n \<Rightarrow> [n]) @ scan_numbers None cs)"

definition numbers_of :: "string \<Rightarrow> nat list" where
  "numbers_of line = scan_numbers None line"

lemma of_digit_char: "d < 10 \<Longrightarrow> (of_char (digit_char d) :: nat) = 48 + d"
  by (simp add: digit_char_def take_bit_eq_mod)

lemma scan_decimal: "scan_numbers None (decimal n @ rest) = scan_numbers (Some n) rest"
proof (induction n arbitrary: rest rule: decimal.induct)
  case (1 n)
  have digit: "is_digit (digit_char (n mod 10))" by (simp add: is_digit_def of_digit_char)
  show ?case
  proof (cases "n < 10")
    case True
    then show ?thesis using digit by (simp add: decimal.simps [of n] of_digit_char)
  next
    case False
    then have "scan_numbers None (decimal n @ rest) = scan_numbers (Some (n div 10)) (digit_char (n mod 10) # rest)"
      using "1.IH" by (simp add: decimal.simps [of n])
    then show ?thesis using digit by (simp add: of_digit_char)
  qed
qed

end
