(* ===== verification/Analysis.thy ===== *)
theory Analysis
  imports Fixture Progress Text "HOL-Library.Multiset"
begin

text \<open>
  The measurements of the recovery study (\<open>src/bin/analyze-recovery.rs\<close>): when every FEC set of a
  recorded capture became decodable and when its data was complete, the latencies computed from that,
  and the arrival times of the decoded batches under both policies. A hash map that is only iterated is
  the list of its values in any order; of what is printed, the lines of the distributions are here, the others
  in \<open>Latency\<close>. A product like
  \<open>p * sorted.len()\<close> of a small constant and a length in memory does not overflow.
\<close>

section \<open>Definitions\<close>

definition RECOVERY_COST_US :: u64 where "RECOVERY_COST_US = 46"

record set_state =
  ss_arrivals :: "u64 list"
  ss_seen_data :: "bool list"
  ss_seen_code :: "bool list"
  ss_num_data :: nat
  ss_first_code_at :: "u64 option"
  ss_data_complete_at :: "u64 option"
  ss_threshold_at :: "u64 option"
  ss_missing_at_threshold :: nat

definition set_state_default :: set_state where
  "set_state_default = \<lparr>ss_arrivals = [], ss_seen_data = replicate DATA_SHREDS_PER_FEC_SET False,
     ss_seen_code = replicate DATA_SHREDS_PER_FEC_SET False, ss_num_data = 0, ss_first_code_at = None,
     ss_data_complete_at = None, ss_threshold_at = None, ss_missing_at_threshold = 0\<rparr>"

definition note_arrival :: "u64 \<Rightarrow> shred \<Rightarrow> set_state \<Rightarrow> set_state run" where
  "note_arrival now shred state =
     (let position = erasure_shard_index shred mod DATA_SHREDS_PER_FEC_SET;
          seen = (if is_data shred then ss_seen_data state else ss_seen_code state) in
      bind_out (index_at seen position) (\<lambda>was_seen.
      if was_seen then Inr state
      else bind_out (store_at seen position True) (\<lambda>seen'.
        let state1 = (if is_data shred then state\<lparr>ss_seen_data := seen'\<rparr> else state\<lparr>ss_seen_code := seen'\<rparr>);
            state2 = state1\<lparr>ss_arrivals := ss_arrivals state1 @ [now]\<rparr>;
            state3 =
              (if is_data shred then
                 let n = ss_num_data state2 + 1 in
                 if n = DATA_SHREDS_PER_FEC_SET then state2\<lparr>ss_num_data := n, ss_data_complete_at := Some now\<rparr>
                 else state2\<lparr>ss_num_data := n\<rparr>
               else if ss_first_code_at state2 = None then state2\<lparr>ss_first_code_at := Some now\<rparr>
               else state2)
        in if length (ss_arrivals state3) = DATA_SHREDS_PER_FEC_SET \<and> ss_first_code_at state3 \<noteq> None
           then bind_out (usize_sub DATA_SHREDS_PER_FEC_SET (ss_num_data state3)) (\<lambda>missing.
             Inr (state3\<lparr>ss_threshold_at := Some now, ss_missing_at_threshold := missing\<rparr>))
           else Inr state3)))"

record measurements =
  ms_packets :: nat
  ms_sets :: "u64 \<times> u32 \<rightharpoonup> set_state"

definition measure_record :: "fixture_record \<Rightarrow> measurements \<Rightarrow> measurements run" where
  "measure_record record m =
     (let m1 = m\<lparr>ms_packets := ms_packets m + 1\<rparr> in
      case parse (fr_packet record) of
        Inl (Panic p) \<Rightarrow> Inl (Panic p)
      | Inl (Err e) \<Rightarrow> Inr m1
      | Inr shred \<Rightarrow>
        let key = (s_slot shred, s_fec_set_index shred);
            state = (case ms_sets m1 key of None \<Rightarrow> set_state_default | Some s \<Rightarrow> s) in
        bind_out (note_arrival (fr_unix_nanos record) shred state) (\<lambda>state'.
        Inr (m1\<lparr>ms_sets := (ms_sets m1)(key \<mapsto> state')\<rparr>)))"

text \<open>\<open>for record in Reader::open(..)? { let record = record?; .. }\<close>; no result is a reader that never ends.\<close>

partial_function (option) for_records :: "'f read_exact \<Rightarrow> (fixture_record \<Rightarrow> 's \<Rightarrow> 's run) \<Rightarrow> 'f \<Rightarrow> 's \<Rightarrow>
    (io_error, 's) outcome option" where
  "for_records read_exact body reader s =
     (case reader_next read_exact reader of
        (reader, None) \<Rightarrow> Some (Inr s)
      | (reader, Some (Inl e)) \<Rightarrow> Some (Inl (Err e))
      | (reader, Some (Inr record)) \<Rightarrow>
        (case body record s of
           Inl (Panic p) \<Rightarrow> Some (Inl (Panic p))
         | Inl (Err u) \<Rightarrow> None
         | Inr s \<Rightarrow> for_records read_exact body reader s))"

definition measure_capture :: "'f read_exact \<Rightarrow> 'f \<Rightarrow> (io_error, measurements) outcome option" where
  "measure_capture read_exact reader =
     for_records read_exact measure_record reader \<lparr>ms_packets = 0, ms_sets = Map.empty\<rparr>"

text \<open>What is computed from the sets.\<close>

record summary =
  sm_wait_us :: "u64 list"
  sm_span_us :: "u64 list"
  sm_missing :: "u64 list"
  sm_data_first :: nat
  sm_never_complete :: nat
  sm_never_recoverable :: nat

definition summary_default :: summary where
  "summary_default = \<lparr>sm_wait_us = [], sm_span_us = [], sm_missing = [], sm_data_first = 0, sm_never_complete = 0,
     sm_never_recoverable = 0\<rparr>"

definition sub_u64 :: "bool \<Rightarrow> u64 \<Rightarrow> u64 \<Rightarrow> u64 run" where
  "sub_u64 oc a b = (if oc \<and> a < b then Inl (Panic ArithmeticOverflow) else Inr (a - b))"

definition saturating_sub :: "u64 \<Rightarrow> u64 \<Rightarrow> u64" where
  "saturating_sub a b = (if a < b then 0 else a - b)"

definition summarize_span :: "bool \<Rightarrow> set_state \<Rightarrow> summary \<Rightarrow> summary run" where
  "summarize_span oc state sm = (case ss_arrivals state of
     [] \<Rightarrow> Inr sm
   | first # rest \<Rightarrow> bind_out (sub_u64 oc (last (first # rest)) first) (\<lambda>d.
       Inr (sm\<lparr>sm_span_us := sm_span_us sm @ [d div 1000]\<rparr>)))"

definition summarize_set :: "bool \<Rightarrow> set_state \<Rightarrow> summary \<Rightarrow> summary run" where
  "summarize_set oc state sm = bind_out (summarize_span oc state sm) (\<lambda>sm.
     Inr (case (ss_threshold_at state, ss_data_complete_at state) of
       (Some threshold, Some complete) \<Rightarrow>
         if ss_missing_at_threshold state = 0 then sm\<lparr>sm_data_first := sm_data_first sm + 1\<rparr>
         else sm\<lparr>sm_wait_us := sm_wait_us sm @ [saturating_sub complete threshold div 1000],
                 sm_missing := sm_missing sm @ [word_of_nat (ss_missing_at_threshold state)]\<rparr>
     | (Some _, None) \<Rightarrow> sm\<lparr>sm_never_complete := sm_never_complete sm + 1\<rparr>
     | (None, Some _) \<Rightarrow> sm\<lparr>sm_data_first := sm_data_first sm + 1\<rparr>
     | (None, None) \<Rightarrow> sm\<lparr>sm_never_recoverable := sm_never_recoverable sm + 1\<rparr>))"

definition summarize :: "bool \<Rightarrow> set_state list \<Rightarrow> summary run" where
  "summarize oc states = fold_out (summarize_set oc) states summary_default"

definition percentile :: "u64 list \<Rightarrow> nat \<Rightarrow> u64 run" where
  "percentile ordered p = index_at ordered ((p * length ordered - 1) div 100)"

record distribution =
  di_n :: nat
  di_mean :: u64
  di_p50 :: u64
  di_p90 :: u64
  di_p99 :: u64
  di_max :: u64

text \<open>The numbers of \<open>print_distribution\<close>; no value for "no samples".\<close>

definition distribution_of :: "bool \<Rightarrow> u64 list \<Rightarrow> distribution option run" where
  "distribution_of oc values =
     (if values = [] then Inr None
      else let ordered = sort values in
        bind_out (fold_out (\<lambda>x sum. add_u64 oc sum x) ordered 0) (\<lambda>sum.
        bind_out (percentile ordered 50) (\<lambda>p50.
        bind_out (percentile ordered 90) (\<lambda>p90.
        bind_out (percentile ordered 99) (\<lambda>p99.
        bind_out (index_at ordered (length ordered - 1)) (\<lambda>mx.
        Inr (Some \<lparr>di_n = length ordered, di_mean = sum div word_of_nat (length ordered), di_p50 = p50, di_p90 = p90,
          di_p99 = p99, di_max = mx\<rparr>)))))))"

definition print_distribution :: "bool \<Rightarrow> string \<Rightarrow> u64 list \<Rightarrow> string list \<Rightarrow> string list run" where
  "print_distribution oc name values stdout =
     bind_out (distribution_of oc values) (\<lambda>d. Inr (stdout @ [case d of
         None \<Rightarrow> name @ '': no samples''
       | Some d \<Rightarrow> name @ '': n '' @ decimal (di_n d) @ '' | mean '' @ decimal (unat (di_mean d)) @
           '' | p50 '' @ decimal (unat (di_p50 d)) @ '' | p90 '' @ decimal (unat (di_p90 d)) @
           '' | p99 '' @ decimal (unat (di_p99 d)) @ '' | max '' @ decimal (unat (di_max d))]))"

text \<open>The policy sweep: recoveries skipped and still done for every grace period.\<close>

definition grace_sweep :: "u64 list \<Rightarrow> (u64 \<times> nat \<times> nat) list" where
  "grace_sweep wait_us = map (\<lambda>grace. let skipped = length (filter (\<lambda>w. w \<le> grace) wait_us) in
     (grace, skipped, length wait_us - skipped)) [0, 25, 50, 100, 250, 500, 1000]"

text \<open>When the batches of a capture became available under a policy.\<close>

type_synonym batch_times = "u64 \<times> u32 \<rightharpoonup> u64 \<times> u64"

definition time_batch :: "bool \<Rightarrow> u64 \<Rightarrow> u64 \<Rightarrow> 'tx entry_batch \<Rightarrow> batch_times \<Rightarrow> batch_times run" where
  "time_batch oc unix_nanos cost batch table =
     bind_out (add_u64 oc unix_nanos cost) (\<lambda>t.
     Inr (table((eb_slot batch, eb_start batch) \<mapsto> (t, word_of_nat (num_transactions batch)))))"

definition time_record :: "bool \<Rightarrow> 'b bitset_ops \<Rightarrow> hasher \<Rightarrow> 'r reconstructor \<Rightarrow> ('w, 'tx) deserializer \<Rightarrow>
    fixture_record \<Rightarrow> 'b deshredder \<times> u64 \<times> batch_times \<Rightarrow> ('b deshredder \<times> u64 \<times> batch_times) run" where
  "time_record oc B hashv rs deserialize record = (\<lambda>(deshredder, recoveries, table).
     bind_out (push oc B hashv rs deserialize (fr_packet record) (deshredder, [])) (\<lambda>(deshredder', out).
     let rec = d_stats deshredder' recovered;
         cost = (if rec > recoveries then RECOVERY_COST_US * 1000 else 0) in
     bind_out (fold_out (time_batch oc (fr_unix_nanos record) cost) out table) (\<lambda>table'.
     Inr (deshredder', rec, table'))))"

definition batch_times_of :: "bool \<Rightarrow> 'b bitset_ops \<Rightarrow> hasher \<Rightarrow> 'r reconstructor \<Rightarrow> ('w, 'tx) deserializer \<Rightarrow>
    'f read_exact \<Rightarrow> 'f \<Rightarrow> bool \<Rightarrow> (io_error, 'b deshredder \<times> u64 \<times> batch_times) outcome option" where
  "batch_times_of oc B hashv rs deserialize read_exact reader recover =
     for_records read_exact (time_record oc B hashv rs deserialize) reader
       (deshredder_new (config_default\<lparr>c_recover := recover\<rparr>), 0, Map.empty)"

record latency =
  la_deltas :: "u64 list"
  la_ties :: u64
  la_only_with_recovery :: u64
  la_total :: u64

definition latency_default :: latency where
  "latency_default = \<lparr>la_deltas = [], la_ties = 0, la_only_with_recovery = 0, la_total = 0\<rparr>"

text \<open>The loop over the entries of the eager policy's map, in any order.\<close>

definition compare_batch :: "bool \<Rightarrow> batch_times \<Rightarrow> (u64 \<times> u32) \<times> u64 \<times> u64 \<Rightarrow> latency \<Rightarrow> latency run" where
  "compare_batch oc waiting = (\<lambda>(key, eager_at, txs) la.
     bind_out (add_u64 oc (la_total la) txs) (\<lambda>total.
     let la1 = la\<lparr>la_total := total\<rparr> in
     case waiting key of
       Some (waiting_at, _) \<Rightarrow>
         let delta = saturating_sub waiting_at eager_at div 1000 in
         if delta = 0 then bind_out (add_u64 oc (la_ties la1) txs) (\<lambda>ties. Inr (la1\<lparr>la_ties := ties\<rparr>))
         else Inr (la1\<lparr>la_deltas := la_deltas la1 @ replicate (unat txs) delta\<rparr>)
     | None \<Rightarrow> bind_out (add_u64 oc (la_only_with_recovery la1) txs) (\<lambda>n. Inr (la1\<lparr>la_only_with_recovery := n\<rparr>))))"

definition compare_policies :: "bool \<Rightarrow> ((u64 \<times> u32) \<times> u64 \<times> u64) list \<Rightarrow> batch_times \<Rightarrow> latency run" where
  "compare_policies oc eager waiting = fold_out (compare_batch oc waiting) eager latency_default"

section \<open>One set\<close>

text \<open>The effect of one arrival, for a shred of the parser.\<close>

definition noted :: "u64 \<Rightarrow> shred \<Rightarrow> set_state \<Rightarrow> set_state" where
  "noted now x st = (let p = erasure_shard_index x mod 32 in
     if (if is_data x then ss_seen_data st else ss_seen_code st) ! p then st
     else let n = (if is_data x then ss_num_data st + 1 else ss_num_data st);
              first = (if is_data x then ss_first_code_at st
                       else if ss_first_code_at st = None then Some now else ss_first_code_at st);
              full = length (ss_arrivals st) + 1 = 32 \<and> first \<noteq> None in
       \<lparr>ss_arrivals = ss_arrivals st @ [now],
        ss_seen_data = (if is_data x then (ss_seen_data st)[p := True] else ss_seen_data st),
        ss_seen_code = (if is_data x then ss_seen_code st else (ss_seen_code st)[p := True]),
        ss_num_data = n, ss_first_code_at = first,
        ss_data_complete_at = (if is_data x \<and> n = 32 then Some now else ss_data_complete_at st),
        ss_threshold_at = (if full then Some now else ss_threshold_at st),
        ss_missing_at_threshold = (if full then 32 - n else ss_missing_at_threshold st)\<rparr>)"

definition seen_count :: "bool list \<Rightarrow> nat" where
  "seen_count seen = length (filter id seen)"

definition state_ok :: "set_state \<Rightarrow> bool" where
  "state_ok st \<longleftrightarrow> length (ss_seen_data st) = 32 \<and> length (ss_seen_code st) = 32 \<and>
     ss_num_data st = seen_count (ss_seen_data st) \<and>
     length (ss_arrivals st) = seen_count (ss_seen_data st) + seen_count (ss_seen_code st) \<and>
     (ss_first_code_at st = None \<longleftrightarrow> seen_count (ss_seen_code st) = 0) \<and>
     (ss_data_complete_at st = None \<longleftrightarrow> ss_num_data st < 32) \<and>
     (ss_threshold_at st \<noteq> None \<longrightarrow> 32 \<le> length (ss_arrivals st) \<and> 0 < ss_missing_at_threshold st \<and> ss_missing_at_threshold st \<le> 32) \<and>
     (32 \<le> length (ss_arrivals st) \<longrightarrow> ss_threshold_at st \<noteq> None \<or> ss_num_data st = 32)"

lemma seen_count_update: "p < length xs \<Longrightarrow> \<not> xs ! p \<Longrightarrow> seen_count (xs[p := True]) = Suc (seen_count xs)"
  by (induction xs arbitrary: p) (auto simp: seen_count_def split: nat.splits)

lemma seen_count_le: "seen_count xs \<le> length xs"
  by (simp add: seen_count_def)

lemma noted_eq:
  assumes "state_ok st" and "shred_ok x"
  shows "note_arrival now x st = Inr (noted now x st)" and "state_ok (noted now x st)"
proof -
  let ?p = "erasure_shard_index x mod 32" and ?seen = "if is_data x then ss_seen_data st else ss_seen_code st"
  have p: "?p < length ?seen" using assms(1) by (simp add: state_ok_def)
  have upd: "\<not> ?seen ! ?p \<Longrightarrow> seen_count (?seen[?p := True]) = Suc (seen_count ?seen)"
    using seen_count_update [OF p] by blast
  have le: "seen_count ?seen < 32" if "\<not> ?seen ! ?p"
    using seen_count_le [of "?seen[?p := True]"] upd [OF that] assms(1) by (simp add: state_ok_def split: if_splits)
  have n: "ss_num_data st \<le> 32" using assms(1) seen_count_le [of "ss_seen_data st"] by (simp add: state_ok_def)
  show "note_arrival now x st = Inr (noted now x st)"
  proof (cases "?seen ! ?p")
    case True
    then show ?thesis using p by (simp add: note_arrival_def noted_def Let_def)
  next
    case False
    then have new: "\<not> ?seen ! ?p" and sub: "usize_sub 32 (if is_data x then ss_num_data st + 1 else ss_num_data st) =
        (Inr (32 - (if is_data x then ss_num_data st + 1 else ss_num_data st)) :: nat run)"
      using n le assms(1) by (auto simp: usize_sub_def state_ok_def)
    show ?thesis
    proof (cases "is_data x")
      case True
      moreover have "usize_sub 32 32 = (Inr 0 :: nat run)" by (simp add: usize_sub_def)
      ultimately show ?thesis using p new sub by (cases st) (auto simp: note_arrival_def noted_def Let_def)
    next
      case False
      then show ?thesis using p new sub by (cases st) (auto simp: note_arrival_def noted_def Let_def)
    qed
  qed
  show "state_ok (noted now x st)"
  proof (cases "?seen ! ?p")
    case True
    then show ?thesis using assms(1) by (simp add: noted_def Let_def)
  next
    case new: False
    note facts = upd [OF new] le [OF new] assms(1)
    show ?thesis
    proof (cases "is_data x")
      case True
      have "length (ss_seen_code st) = 32" using assms(1) by (simp add: state_ok_def)
      then have "seen_count (ss_seen_code st) \<le> 32" using seen_count_le [of "ss_seen_code st"] by linarith
      then show ?thesis using True new facts unfolding state_ok_def
        by (cases "ss_first_code_at st"; cases "ss_threshold_at st"; cases "ss_data_complete_at st") (auto simp: noted_def Let_def)
    next
      case False
      then show ?thesis using new facts unfolding state_ok_def
        by (cases "ss_first_code_at st"; cases "ss_threshold_at st"; cases "ss_data_complete_at st") (auto simp: noted_def Let_def)
    qed
  qed
qed

text \<open>A set of the library that received the same shreds.\<close>

definition agree :: "set_state \<Rightarrow> fec_set \<Rightarrow> bool" where
  "agree st fs \<longleftrightarrow> ss_num_data st = f_num_data fs \<and> (\<forall>q<32. ss_seen_data st ! q \<longleftrightarrow> f_data fs ! q \<noteq> None) \<and>
     (\<not> is_complete fs \<longrightarrow> (\<forall>q<32. ss_seen_code st ! q \<longleftrightarrow> f_code fs ! q \<noteq> None) \<and>
        seen_count (ss_seen_code st) = f_num_code fs)"

text \<open>A set's answer to one of its shreds, and the set afterwards.\<close>

lemma insert_answer:
  assumes ok: "fec_ok fec fs" and x: "shred_ok x" "s_fec_set_index x = fec"
    and sx: "signed_by hashv root sg x" and pin: "pinned_to (root fec) (sg fec) fs" and hash: "digest32 hashv"
    and ins: "fec_insert hashv fs x = (Inr (fs', v) :: (unit, _) outcome)"
  shows "v = (if s_kind x = Code \<and> is_complete fs then Unneeded else if slot_of fs x \<noteq> None then Duplicate else New)"
    and "fs' = (if v = New then
      (if is_complete (with_shred (pinned hashv fs x) x) then drop_code (with_shred (pinned hashv fs x) x)
       else with_shred (pinned hashv fs x) x) else fs)"
    and "pinned_to (root fec) (sg fec) fs'"
proof -
  show fs': "fs' = (if v = New then
      (if is_complete (with_shred (pinned hashv fs x) x) then drop_code (with_shred (pinned hashv fs x) x)
       else with_shred (pinned hashv fs x) x) else fs)"
    and "v = (if s_kind x = Code \<and> is_complete fs then Unneeded else if slot_of fs x \<noteq> None then Duplicate else New)"
    using ins sx pin x(2) unfolding fec_insert_eq [OF ok x hash] insert_verdict_def
    by (auto simp: Let_def signed_by_def pinned_to_def split: if_splits)
  show "pinned_to (root fec) (sg fec) fs'"
    using pin sx x(2) unfolding fs' by (cases "s_kind x") (auto simp: pinned_to_def signed_by_def with_shred_def pinned_def drop_code_def)
qed

lemma agree_step:
  assumes st: "state_ok st" and ok: "fec_ok fec fs" and agree: "agree st fs" and x: "shred_ok x" "s_fec_set_index x = fec"
    and sx: "signed_by hashv root sg x" and pin: "pinned_to (root fec) (sg fec) fs" and hash: "digest32 hashv"
    and ins: "fec_insert hashv fs x = (Inr (fs', v) :: (unit, _) outcome)"
  shows "agree (noted now x st) fs'"
proof -
  let ?p = "erasure_shard_index x" and ?q = "erasure_shard_index x mod 32"
  have lens: "length (f_data fs) = 32" "length (f_code fs) = 32" "length (ss_seen_data st) = 32" "length (ss_seen_code st) = 32"
    using ok st by (simp_all add: fec_ok_def fec_arrays_ok_def state_ok_def)
  have q: "?q < 32" "s_kind x = Data \<Longrightarrow> ?q = ?p" "s_kind x = Code \<Longrightarrow> ?p - 32 = ?q"
    using shred_position [OF x] by (auto simp: le_mod_geq)
  note answer = insert_answer [OF ok x sx pin hash ins]
  note verdict = answer(1) and fs' = answer(2)
  show "agree (noted now x st) fs'"
  proof (cases "s_kind x")
    case Data
    have seen: "ss_seen_data st ! ?q \<longleftrightarrow> slot_of fs x \<noteq> None" using agree q Data by (simp add: agree_def slot_of_def)
    show ?thesis
    proof (cases "slot_of fs x \<noteq> None")
      case True
      then show ?thesis using verdict Data fs' agree seen by (simp add: noted_def is_data_def Let_def)
    next
      case False
      then have new: "f_data fs ! ?p = None" "\<not> ss_seen_data st ! ?p" "?p < 32" "v = New"
        using Data seen q verdict by (simp_all add: slot_of_def)
      have "\<not> is_complete fs" using new(1,3) is_complete_iff [of fec fs] ok by (auto simp: fec_ok_def)
      with new have "agree (noted now x st) (with_shred (pinned hashv fs x) x)"
        using Data agree lens q
        by (auto simp: agree_def noted_def is_data_def Let_def with_shred_def pinned_def nth_list_update is_complete_def)
      then show ?thesis using new(4) fs' by (auto simp: agree_def drop_code_def is_complete_def)
    qed
  next
    case Code
    show ?thesis
    proof (cases "is_complete fs")
      case True
      then have "fs' = fs" using verdict Code fs' by simp
      then show ?thesis using True Code agree by (auto simp: agree_def noted_def is_data_def Let_def)
    next
      case open': False
      have seen: "ss_seen_code st ! ?q \<longleftrightarrow> slot_of fs x \<noteq> None" using agree q Code open' by (simp add: agree_def slot_of_def)
      show ?thesis
      proof (cases "slot_of fs x \<noteq> None")
        case True
        then show ?thesis using verdict Code fs' agree seen by (auto simp: noted_def is_data_def Let_def)
      next
        case False
        then have new: "f_code fs ! ?q = None" "\<not> ss_seen_code st ! ?q" "v = New"
          using Code seen q verdict open' by (simp_all add: slot_of_def)
        have "fs' = with_shred (pinned hashv fs x) x"
          using new(3) open' Code fs' by (simp add: with_shred_def pinned_def is_complete_def)
        moreover have "seen_count ((ss_seen_code st)[?q := True]) = Suc (seen_count (ss_seen_code st))"
          by (rule seen_count_update) (use new q lens in simp_all)
        ultimately show ?thesis
          using Code agree lens q new open'
          by (auto simp: agree_def noted_def is_data_def Let_def with_shred_def pinned_def nth_list_update is_complete_def)
      qed
    qed
  qed
qed

text \<open>A note changes nothing, or appends one arrival.\<close>

lemma noted_cases:
  obtains (same) "noted now x st = st" | (new) "length (ss_arrivals (noted now x st)) = Suc (length (ss_arrivals st))"
    "ss_threshold_at (noted now x st) =
      (if length (ss_arrivals (noted now x st)) = 32 \<and> ss_first_code_at (noted now x st) \<noteq> None then Some now else ss_threshold_at st)"
    "length (ss_arrivals (noted now x st)) = 32 \<and> ss_first_code_at (noted now x st) \<noteq> None \<longrightarrow>
      ss_missing_at_threshold (noted now x st) = 32 - ss_num_data (noted now x st)"
    "ss_data_complete_at (noted now x st) = (if is_data x \<and> ss_num_data (noted now x st) = 32 then Some now else ss_data_complete_at st)"
    "ss_num_data (noted now x st) = (if is_data x then ss_num_data st + 1 else ss_num_data st)"
proof (cases "(if is_data x then ss_seen_data st else ss_seen_code st) ! (erasure_shard_index x mod 32)")
  case True
  then show ?thesis using same by (simp add: noted_def)
next
  case False
  show ?thesis by (rule new) (use False in \<open>simp_all add: noted_def Let_def\<close>)
qed

lemma agree_can_recover:
  assumes "state_ok st" and "agree st fs"
  shows "can_recover fs \<longleftrightarrow> \<not> is_complete fs \<and> 0 < seen_count (ss_seen_code st) \<and> 32 \<le> length (ss_arrivals st)"
    and "is_complete fs \<longleftrightarrow> ss_num_data st = 32"
  using assms by (auto simp: can_recover_def is_complete_def agree_def state_ok_def)

lemma threshold_step:
  assumes st: "state_ok st" and st': "state_ok (noted now x st)" "agree (noted now x st) fs'"
  shows "ss_threshold_at (noted now x st) = (if ss_threshold_at st = None \<and> can_recover fs' then Some now else ss_threshold_at st)"
proof -
  let ?st = "noted now x st"
  note can = agree_can_recover [OF st']
  show ?thesis
  proof (cases rule: noted_cases [of now x st])
    case same
    then show ?thesis using st'(1) can by (auto simp: state_ok_def)
  next
    case new
    show ?thesis
    proof (cases "ss_threshold_at st")
      case None
      have facts: "ss_threshold_at ?st \<noteq> None \<Longrightarrow> 0 < ss_missing_at_threshold ?st"
        "32 \<le> length (ss_arrivals ?st) \<Longrightarrow> ss_threshold_at ?st \<noteq> None \<or> ss_num_data ?st = 32"
        "ss_first_code_at ?st = None \<longleftrightarrow> seen_count (ss_seen_code ?st) = 0"
        using st'(1) unfolding state_ok_def by blast+
      show ?thesis
      proof (cases "can_recover fs'")
        case True
        then have "ss_threshold_at ?st \<noteq> None" using facts(2) can by blast
        then show ?thesis using new(2) None True by (auto split: if_splits)
      next
        case False
        have "\<not> (length (ss_arrivals ?st) = 32 \<and> ss_first_code_at ?st \<noteq> None)"
        proof
          assume full: "length (ss_arrivals ?st) = 32 \<and> ss_first_code_at ?st \<noteq> None"
          then have "0 < 32 - ss_num_data ?st" using facts(1) new(2,3) by simp
          then show False using False full facts(3) can by simp
        qed
        then show ?thesis using new(2) None False by simp
      qed
    next
      case (Some t)
      then show ?thesis using new(1,2) st by (auto simp: state_ok_def)
    qed
  qed
qed

lemma data_complete_step:
  assumes st: "state_ok st" and st': "state_ok (noted now x st)" "agree (noted now x st) fs'"
  shows "ss_data_complete_at (noted now x st) =
      (if ss_data_complete_at st = None \<and> is_complete fs' then Some now else ss_data_complete_at st)"
proof (cases rule: noted_cases [of now x st])
  case same
  then show ?thesis using st'(1) agree_can_recover(2) [OF st'] by (auto simp: state_ok_def)
next
  case new
  have "ss_num_data (noted now x st) \<le> 32"
    using st'(1) seen_count_le [of "ss_seen_data (noted now x st)"] by (simp add: state_ok_def)
  moreover have "ss_data_complete_at st = None \<longleftrightarrow> ss_num_data st < 32" using st unfolding state_ok_def by blast
  ultimately show ?thesis using new(4,5) agree_can_recover(2) [OF st'] by (cases "is_data x") auto
qed

section \<open>The arrivals of a set\<close>

text \<open>The set of the library after some arrivals, and the first arrival after which \<open>Q\<close> holds of it.\<close>

definition set_after :: "hasher \<Rightarrow> (u64 \<times> shred) list \<Rightarrow> fec_set" where
  "set_after hashv arrs = (case insert_all hashv (map snd arrs) fec_default of Inr fs \<Rightarrow> fs | Inl _ \<Rightarrow> fec_default)"

definition first_at :: "hasher \<Rightarrow> (fec_set \<Rightarrow> bool) \<Rightarrow> (u64 \<times> shred) list \<Rightarrow> u64 \<Rightarrow> bool" where
  "first_at hashv Q arrs t \<longleftrightarrow> (\<exists>n<length arrs. fst (arrs ! n) = t \<and> Q (set_after hashv (take (Suc n) arrs)) \<and>
     (\<forall>m\<le>n. \<not> Q (set_after hashv (take m arrs))))"

definition never :: "hasher \<Rightarrow> (fec_set \<Rightarrow> bool) \<Rightarrow> (u64 \<times> shred) list \<Rightarrow> bool" where
  "never hashv Q arrs \<longleftrightarrow> (\<forall>m\<le>length arrs. \<not> Q (set_after hashv (take m arrs)))"

lemma never_snoc: "never hashv Q (arrs @ [a]) \<longleftrightarrow> never hashv Q arrs \<and> \<not> Q (set_after hashv (arrs @ [a]))"
  by (auto simp: never_def le_Suc_eq)

lemma first_at_snoc:
  "first_at hashv Q (arrs @ [(t', x)]) t \<longleftrightarrow>
    first_at hashv Q arrs t \<or> t' = t \<and> Q (set_after hashv (arrs @ [(t', x)])) \<and> never hashv Q arrs"
  unfolding first_at_def never_def by (auto simp: less_Suc_eq nth_append)

definition measured :: "(u64 \<times> shred) list \<Rightarrow> set_state \<Rightarrow> set_state" where
  "measured arrs st = fold (\<lambda>(t, x). noted t x) arrs st"

lemma insert_all_snoc: "insert_all hashv (xs @ [x]) fs =
    bind_out (insert_all hashv xs fs) (\<lambda>fs'. bind_out (fec_insert hashv fs' x) (\<lambda>(fs'', _). Inr fs''))"
  by (induction xs arbitrary: fs) (simp_all add: insert_all_def split_def bind_out_assoc)

definition tracks :: "hasher \<Rightarrow> hash32 \<Rightarrow> bytes \<Rightarrow> u32 \<Rightarrow> (u64 \<times> shred) list \<Rightarrow> bool" where
  "tracks hashv root sg fec arrs \<longleftrightarrow> (let st = measured arrs set_state_default; fs = set_after hashv arrs in
     insert_all hashv (map snd arrs) fec_default = Inr fs \<and> fec_ok fec fs \<and> pinned_to root sg fs \<and>
     state_ok st \<and> agree st fs \<and>
     (ss_threshold_at st = None \<longleftrightarrow> never hashv can_recover arrs) \<and>
     (\<forall>t. ss_threshold_at st = Some t \<longleftrightarrow> first_at hashv can_recover arrs t) \<and>
     (ss_data_complete_at st = None \<longleftrightarrow> never hashv is_complete arrs) \<and>
     (\<forall>t. ss_data_complete_at st = Some t \<longleftrightarrow> first_at hashv is_complete arrs t))"

lemma state_ok_default: "state_ok set_state_default"
  by (simp add: state_ok_def set_state_default_def seen_count_def)

lemma tracks_arrivals:
  assumes "\<forall>(t, x)\<in>set arrs. shred_ok x \<and> s_fec_set_index x = fec \<and> signed_by hashv (\<lambda>_. root) (\<lambda>_. sg) x" and "digest32 hashv"
  shows "tracks hashv root sg fec arrs"
  using assms(1)
proof (induction arrs rule: rev_induct)
  case Nil
  have "set_after hashv [] = fec_default" by (simp add: set_after_def insert_all_def)
  moreover have "agree set_state_default fec_default"
    by (simp add: agree_def set_state_default_def fec_default_def seen_count_def)
  ultimately show ?case
    using fec_ok_default state_ok_default
    by (simp add: tracks_def measured_def never_def first_at_def insert_all_def pinned_to_def)
      (simp add: set_state_default_def fec_default_def can_recover_def is_complete_def)
next
  case (snoc a arrs)
  obtain t x where a: "a = (t, x)" by (cases a)
  have x: "shred_ok x" "s_fec_set_index x = fec" "signed_by hashv (\<lambda>_. root) (\<lambda>_. sg) x" using snoc.prems by (simp_all add: a)
  let ?st = "measured arrs set_state_default" and ?fs = "set_after hashv arrs"
  have IH: "insert_all hashv (map snd arrs) fec_default = Inr ?fs" "fec_ok fec ?fs" "pinned_to root sg ?fs" "state_ok ?st" "agree ?st ?fs"
    "ss_threshold_at ?st = None \<longleftrightarrow> never hashv can_recover arrs"
    "\<And>t. ss_threshold_at ?st = Some t \<longleftrightarrow> first_at hashv can_recover arrs t"
    "ss_data_complete_at ?st = None \<longleftrightarrow> never hashv is_complete arrs"
    "\<And>t. ss_data_complete_at ?st = Some t \<longleftrightarrow> first_at hashv is_complete arrs t"
    using snoc.IH snoc.prems by (simp_all add: tracks_def Let_def)
  obtain fs' v where ins: "(fec_insert hashv ?fs x :: (unit, _) outcome) = Inr (fs', v)" "fec_ok fec fs'"
    using fec_ok_insert [OF IH(2) x(1,2) assms(2)] by metis
  have all: "insert_all hashv (map snd (arrs @ [a])) fec_default = Inr fs'"
    using IH(1) ins(1) by (simp add: insert_all_snoc a)
  then have after: "set_after hashv (arrs @ [a]) = fs'" by (simp add: set_after_def)
  have st: "measured (arrs @ [a]) set_state_default = noted t x ?st" by (simp add: measured_def a)
  have pin: "pinned_to ((\<lambda>_. root) fec) ((\<lambda>_. sg) fec) ?fs" using IH(3) by simp
  note agree = agree_step [OF IH(4,2,5) x pin assms(2) ins(1), of t]
    insert_answer(3) [OF IH(2) x pin assms(2) ins(1)]
  have ok: "state_ok (noted t x ?st)" by (rule noted_eq(2) [OF IH(4) x(1)])
  note times = threshold_step [OF IH(4) ok agree(1)] data_complete_step [OF IH(4) ok agree(1)]
  show ?case
    unfolding tracks_def Let_def after st
  proof (intro conjI allI)
    show "ss_threshold_at (noted t x ?st) = None \<longleftrightarrow> never hashv can_recover (arrs @ [a])"
      unfolding never_snoc after times(1) using IH(6) by auto
    show "ss_threshold_at (noted t x ?st) = Some u \<longleftrightarrow> first_at hashv can_recover (arrs @ [a]) u" for u
      unfolding a first_at_snoc times(1) using IH(6) IH(7) [of u] after [unfolded a] by auto
    show "ss_data_complete_at (noted t x ?st) = None \<longleftrightarrow> never hashv is_complete (arrs @ [a])"
      unfolding never_snoc after times(2) using IH(8) by auto
    show "ss_data_complete_at (noted t x ?st) = Some u \<longleftrightarrow> first_at hashv is_complete (arrs @ [a]) u" for u
      unfolding a first_at_snoc times(2) using IH(8) IH(9) [of u] after [unfolded a] by auto
  qed (use all ins agree ok in simp_all)
qed

section \<open>The capture\<close>

definition arrival :: "u64 \<times> u32 \<Rightarrow> fixture_record \<Rightarrow> (u64 \<times> shred) option" where
  "arrival key r = (case parse (fr_packet r) of
     Inr x \<Rightarrow> if (s_slot x, s_fec_set_index x) = key then Some (fr_unix_nanos r, x) else None
   | Inl _ \<Rightarrow> None)"

definition arrivals_of :: "u64 \<times> u32 \<Rightarrow> fixture_record list \<Rightarrow> (u64 \<times> shred) list" where
  "arrivals_of key recs = List.map_filter (arrival key) recs"

lemma arrivals_of_simps [simp]:
  "arrivals_of key [] = []"
  "arrivals_of key (r # recs) = (case arrival key r of None \<Rightarrow> arrivals_of key recs | Some a \<Rightarrow> a # arrivals_of key recs)"
  by (simp_all add: arrivals_of_def List.map_filter_def split: option.split)

lemma arrivals_of_ok: "(t, x) \<in> set (arrivals_of (slot, fec) recs) \<Longrightarrow> shred_ok x \<and> s_fec_set_index x = fec"
  by (induction recs) (auto simp: arrival_def parse_shred_ok split: option.splits sum.splits if_splits)

definition set_entry_of :: "measurements \<Rightarrow> u64 \<times> u32 \<Rightarrow> set_state" where
  "set_entry_of m key = (case ms_sets m key of None \<Rightarrow> set_state_default | Some s \<Rightarrow> s)"

lemma measure_record_Inr:
  assumes "\<forall>key. state_ok (set_entry_of m key)"
  shows "\<exists>m'. measure_record r m = Inr m' \<and> ms_packets m' = ms_packets m + 1 \<and>
    (\<forall>key. set_entry_of m' key = (case arrival key r of None \<Rightarrow> set_entry_of m key | Some (t, x) \<Rightarrow> noted t x (set_entry_of m key)) \<and>
       (ms_sets m' key = None \<longleftrightarrow> ms_sets m key = None \<and> arrival key r = None) \<and> state_ok (set_entry_of m' key))"
proof (cases rule: parse_cases [of "fr_packet r"])
  case (err e)
  then show ?thesis
    using assms by (simp add: measure_record_def Let_def arrival_def) (simp add: set_entry_of_def)
next
  case (ok x)
  let ?key = "(s_slot x, s_fec_set_index x)"
  have sx: "shred_ok x" by (rule parse_shred_ok [OF ok])
  have st: "state_ok (set_entry_of m ?key)" using assms by blast
  let ?m = "m\<lparr>ms_packets := ms_packets m + 1, ms_sets := (ms_sets m)(?key \<mapsto> noted (fr_unix_nanos r) x (set_entry_of m ?key))\<rparr>"
  have "measure_record r m = Inr ?m"
    using noted_eq(1) [OF st sx] by (simp add: measure_record_def Let_def ok set_entry_of_def)
  moreover have "set_entry_of ?m key = (if key = ?key then noted (fr_unix_nanos r) x (set_entry_of m ?key) else set_entry_of m key)" for key
    by (simp add: set_entry_of_def)
  ultimately show ?thesis
    using noted_eq(2) [OF st sx] assms by (intro exI [of _ ?m]) (auto simp: arrival_def ok)
qed

lemma measure_records:
  assumes "\<forall>key. state_ok (set_entry_of m key)"
  shows "\<exists>m'. fold_out measure_record recs m = Inr m' \<and> ms_packets m' = ms_packets m + length recs \<and>
    (\<forall>key. set_entry_of m' key = measured (arrivals_of key recs) (set_entry_of m key) \<and>
       (ms_sets m' key = None \<longleftrightarrow> ms_sets m key = None \<and> arrivals_of key recs = []) \<and> state_ok (set_entry_of m' key))"
  using assms
proof (induction recs arbitrary: m)
  case Nil
  then show ?case by (simp add: measured_def)
next
  case (Cons r recs)
  obtain m1 where m1: "measure_record r m = Inr m1" "ms_packets m1 = ms_packets m + 1"
    "\<And>key. set_entry_of m1 key = (case arrival key r of None \<Rightarrow> set_entry_of m key | Some (t, x) \<Rightarrow> noted t x (set_entry_of m key))"
    "\<And>key. ms_sets m1 key = None \<longleftrightarrow> ms_sets m key = None \<and> arrival key r = None" "\<forall>key. state_ok (set_entry_of m1 key)"
    using measure_record_Inr [OF Cons.prems, of r] by blast
  obtain m2 where "fold_out measure_record recs m1 = Inr m2" "ms_packets m2 = ms_packets m1 + length recs"
    "\<And>key. set_entry_of m2 key = measured (arrivals_of key recs) (set_entry_of m1 key)"
    "\<And>key. ms_sets m2 key = None \<longleftrightarrow> ms_sets m1 key = None \<and> arrivals_of key recs = []" "\<And>key. state_ok (set_entry_of m2 key)"
    using Cons.IH [OF m1(5)] by blast
  then show ?case
    using m1(1-4) by (auto simp: measured_def split: option.split)
qed

context byte_source
begin

lemma for_records_all:
  assumes "left r = concat (map record_bytes recs)" and "\<forall>rec\<in>set recs. length (fr_packet rec) < 65536"
    and "fold_out body recs s = Inr s'"
  shows "for_records read_exact body r s = Some (Inr s')"
  using assms
proof (induction recs arbitrary: r s)
  case Nil
  then obtain r' where "reader_next read_exact r = (r', None)" using reader_next_end [of r] by auto
  then show ?case using Nil by (subst for_records.simps) simp
next
  case (Cons rec recs)
  obtain r1 where r1: "reader_next read_exact r = (r1, Some (Inr rec))" "left r1 = concat (map record_bytes recs)"
    using reader_next_record [of r rec] Cons.prems(1,2) by auto
  obtain s1 where s1: "body rec s = Inr s1" "fold_out body recs s1 = Inr s'"
    using Cons.prems(3) by (auto simp: bind_out_Inr_iff)
  then show ?case using r1 Cons.IH [OF r1(2) _ s1(2)] Cons.prems(2) by (subst for_records.simps) simp
qed

end

lemma measure_bytes:
  assumes src: "byte_source read_exact left" and bytes: "left r = concat (map record_bytes recs)"
    and fits: "\<forall>r\<in>set recs. length (fr_packet r) < 65536"
  shows "\<exists>m. measure_capture read_exact r = Some (Inr m) \<and> ms_packets m = length recs \<and>
    (\<forall>key. set_entry_of m key = measured (arrivals_of key recs) set_state_default \<and>
       (ms_sets m key = None \<longleftrightarrow> arrivals_of key recs = []) \<and> state_ok (set_entry_of m key))"
proof -
  let ?m = "\<lparr>ms_packets = 0, ms_sets = Map.empty\<rparr> :: measurements"
  have entry: "set_entry_of ?m key = set_state_default" for key by (simp add: set_entry_of_def)
  obtain m where m: "fold_out measure_record recs ?m = Inr m" "ms_packets m = length recs"
    "\<forall>key. set_entry_of m key = measured (arrivals_of key recs) set_state_default \<and>
       (ms_sets m key = None \<longleftrightarrow> arrivals_of key recs = []) \<and> state_ok (set_entry_of m key)"
    using measure_records [of ?m recs] state_ok_default by (auto simp: entry)
  have "measure_capture read_exact r = Some (Inr m)"
    unfolding measure_capture_def by (rule byte_source.for_records_all [OF src bytes fits m(1)])
  with m(2,3) show ?thesis by blast
qed

lemma capture_measured_all:
  assumes "\<forall>r\<in>set recs. length (fr_packet r) < 65536"
  shows "\<exists>reader m. reader_new slice_read_exact (fixture_bytes recs) = (reader, Inr ()) \<and>
    measure_capture slice_read_exact reader = Some (Inr m) \<and> ms_packets m = length recs \<and>
    (\<forall>key. set_entry_of m key = measured (arrivals_of key recs) set_state_default \<and>
       (ms_sets m key = None \<longleftrightarrow> arrivals_of key recs = []) \<and> state_ok (set_entry_of m key))"
proof -
  obtain reader where reader: "reader_new slice_read_exact (fixture_bytes recs) = (reader, Inr ())"
    "reader = concat (map record_bytes recs)"
    using slice.reader_new_ok [of "fixture_bytes recs"] by (auto simp: fixture_bytes_def)
  then show ?thesis using measure_bytes [OF slice.byte_source_axioms reader(2) assms] by blast
qed

text \<open>The arrivals of a set are counted once per place.\<close>

definition places :: "(u64 \<times> shred) list \<Rightarrow> nat set" where
  "places arrs = (\<lambda>(t, x). erasure_shard_index x) ` set arrs"

lemma arrivals_are_places:
  assumes "\<forall>(t, x)\<in>set arrs. shred_ok x"
  shows "length (ss_arrivals (measured arrs set_state_default)) = card (places arrs) \<and>
    state_ok (measured arrs set_state_default) \<and>
    (\<forall>q<32. (ss_seen_data (measured arrs set_state_default) ! q \<longleftrightarrow> q \<in> places arrs) \<and>
       (ss_seen_code (measured arrs set_state_default) ! q \<longleftrightarrow> 32 + q \<in> places arrs))"
  using assms
proof (induction arrs rule: rev_induct)
  case Nil
  show ?case using state_ok_default by (simp add: measured_def places_def) (simp add: set_state_default_def)
next
  case (snoc a arrs)
  obtain t x where a: "a = (t, x)" by (cases a)
  have x: "shred_ok x" using snoc.prems by (simp add: a)
  let ?st = "measured arrs set_state_default" and ?p = "erasure_shard_index x"
  have IH: "length (ss_arrivals ?st) = card (places arrs)" "state_ok ?st"
    "\<And>q. q < 32 \<Longrightarrow> ss_seen_data ?st ! q \<longleftrightarrow> q \<in> places arrs" "\<And>q. q < 32 \<Longrightarrow> ss_seen_code ?st ! q \<longleftrightarrow> 32 + q \<in> places arrs"
    using snoc by auto
  have st: "measured (arrs @ [a]) set_state_default = noted t x ?st" by (simp add: measured_def a)
  have pl: "places (arrs @ [a]) = insert ?p (places arrs)" by (simp add: places_def a)
  have fin: "finite (places arrs)" by (simp add: places_def)
  have ok: "state_ok (noted t x ?st)" by (rule noted_eq(2) [OF IH(2) x])
  have lens: "length (ss_seen_data ?st) = 32" "length (ss_seen_code ?st) = 32" using IH(2) by (simp_all add: state_ok_def)
  show ?case
  proof (cases "is_data x")
    case True
    then have p: "?p mod 32 = ?p" "?p < 32" using shred_position(1) [OF x refl] by (simp_all add: is_data_def)
    show ?thesis
      using True IH p ok fin lens unfolding st pl
      by (cases "ss_seen_data ?st ! ?p") (auto simp: noted_def Let_def nth_list_update card_insert_if insert_absorb)
  next
    case False
    then have kind: "s_kind x = Code" by (cases "s_kind x") (simp_all add: is_data_def)
    then obtain q where q: "?p = 32 + q" "q < 32" using shred_position(2) [OF x refl] by (auto dest: le_Suc_ex)
    then have p: "?p mod 32 = q" by simp
    show ?thesis
      using False IH p q ok fin lens unfolding st pl
      by (cases "ss_seen_code ?st ! q") (auto simp: noted_def Let_def nth_list_update card_insert_if insert_absorb)
  qed
qed

text \<open>The four classes of the summary.\<close>

lemma state_classes:
  assumes "state_ok st"
  shows "ss_threshold_at st = None \<and> ss_data_complete_at st = None \<longleftrightarrow> length (ss_arrivals st) < 32"
    and "ss_threshold_at st \<noteq> None \<Longrightarrow> 0 < ss_missing_at_threshold st \<and> ss_missing_at_threshold st \<le> 32"
  using assms by (auto simp: state_ok_def)

lemma summarize_fold:
  assumes "\<forall>st\<in>set states. state_ok st \<and> ss_arrivals st \<noteq> []" and "length (sm_missing sm) = length (sm_wait_us sm)"
    and "\<forall>v\<in>set (sm_missing sm). 1 \<le> v \<and> v \<le> 32"
  shows "\<exists>sm'. fold_out (summarize_set False) states sm = Inr sm' \<and>
    sm_data_first sm' + length (sm_wait_us sm') + sm_never_complete sm' + sm_never_recoverable sm' =
      sm_data_first sm + length (sm_wait_us sm) + sm_never_complete sm + sm_never_recoverable sm + length states \<and>
    sm_never_recoverable sm' = sm_never_recoverable sm + length (filter (\<lambda>st. length (ss_arrivals st) < 32) states) \<and>
    length (sm_span_us sm') = length (sm_span_us sm) + length states \<and>
    length (sm_missing sm') = length (sm_wait_us sm') \<and> (\<forall>v\<in>set (sm_missing sm'). 1 \<le> v \<and> v \<le> 32)"
  using assms
proof (induction states arbitrary: sm)
  case Nil
  then show ?case by simp
next
  case (Cons st states)
  have st: "state_ok st" "ss_arrivals st \<noteq> []" using Cons.prems(1) by simp_all
  obtain sm1 where span: "summarize_span False st sm = Inr sm1" "sm_data_first sm1 = sm_data_first sm"
    "sm_wait_us sm1 = sm_wait_us sm" "sm_missing sm1 = sm_missing sm" "sm_never_complete sm1 = sm_never_complete sm"
    "sm_never_recoverable sm1 = sm_never_recoverable sm" "length (sm_span_us sm1) = length (sm_span_us sm) + 1"
    using st(2) by (cases "ss_arrivals st") (auto simp: summarize_span_def sub_u64_def)
  note classes = state_classes [OF st(1)]
  have word: "1 \<le> (word_of_nat (ss_missing_at_threshold st) :: u64) \<and> (word_of_nat (ss_missing_at_threshold st) :: u64) \<le> 32"
    if "ss_threshold_at st \<noteq> None"
  proof -
    have "unat (word_of_nat (ss_missing_at_threshold st) :: u64) = ss_missing_at_threshold st"
      using classes(2) [OF that] by (simp add: unat_of_nat take_bit_eq_mod)
    then show ?thesis using classes(2) [OF that] by (simp add: word_le_nat_alt)
  qed
  obtain sm2 where step: "summarize_set False st sm = Inr sm2"
    and sums: "sm_data_first sm2 + length (sm_wait_us sm2) + sm_never_complete sm2 + sm_never_recoverable sm2 =
      sm_data_first sm + length (sm_wait_us sm) + sm_never_complete sm + sm_never_recoverable sm + 1"
    and never: "sm_never_recoverable sm2 = sm_never_recoverable sm + (if length (ss_arrivals st) < 32 then 1 else 0)"
    and spans: "length (sm_span_us sm2) = length (sm_span_us sm) + 1"
    and miss: "length (sm_missing sm2) = length (sm_wait_us sm2)" "\<forall>v\<in>set (sm_missing sm2). 1 \<le> v \<and> v \<le> 32"
    using classes word span Cons.prems(2,3)
    by (cases "ss_threshold_at st"; cases "ss_data_complete_at st") (auto simp: summarize_set_def)
  have "\<forall>st\<in>set states. state_ok st \<and> ss_arrivals st \<noteq> []" using Cons.prems(1) by simp
  from Cons.IH [OF this miss] show ?case using step sums never spans by auto
qed

lemma summary_of_sets:
  assumes m: "\<And>key. set_entry_of m key = measured (arrivals_of key recs) set_state_default"
    "\<And>key. ms_sets m key = None \<longleftrightarrow> arrivals_of key recs = []" "\<And>key. state_ok (set_entry_of m key)"
    and keys: "set keys = dom (ms_sets m)"
  shows "\<exists>sm. summarize False (map (\<lambda>k. the (ms_sets m k)) keys) = Inr sm \<and>
        sm_data_first sm + length (sm_wait_us sm) + sm_never_complete sm + sm_never_recoverable sm = length keys \<and>
        sm_never_recoverable sm = length (filter (\<lambda>k. card (places (arrivals_of k recs)) < 32) keys) \<and>
        length (sm_span_us sm) = length keys \<and> length (sm_missing sm) = length (sm_wait_us sm) \<and>
        (\<forall>v\<in>set (sm_missing sm). 1 \<le> v \<and> v \<le> 32)"
proof -
  let ?states = "map (set_entry_of m) keys"
  have "the (ms_sets m k) = set_entry_of m k" if "k \<in> dom (ms_sets m)" for k
    using that by (auto simp: set_entry_of_def)
  then have states: "map (\<lambda>k. the (ms_sets m k)) keys = ?states" using keys by simp
  have count: "length (ss_arrivals (set_entry_of m k)) = card (places (arrivals_of k recs))" for k
    unfolding m(1) using arrivals_are_places [of "arrivals_of k recs"] arrivals_of_ok [of _ _ "fst k" "snd k" recs] by auto
  have "ss_arrivals (set_entry_of m k) \<noteq> []" if "k \<in> dom (ms_sets m)" for k
  proof -
    have "arrivals_of k recs \<noteq> []" using that m(2) [of k] by auto
    then have "0 < card (places (arrivals_of k recs))" by (simp add: places_def card_gt_0_iff)
    then show ?thesis using count [of k] by auto
  qed
  then have ok: "\<forall>st\<in>set ?states. state_ok st \<and> ss_arrivals st \<noteq> []" using m(3) keys by auto
  have "length (filter (\<lambda>st. length (ss_arrivals st) < 32) ?states) =
      length (filter (\<lambda>k. card (places (arrivals_of k recs)) < 32) keys)"
    by (simp add: filter_map comp_def count)
  with summarize_fold [OF ok, of summary_default] show ?thesis
    unfolding states summarize_def by (simp add: summary_default_def)
qed

section \<open>Distributions\<close>

text \<open>\<open>v\<close> is the nearest-rank percentile: at least \<open>p\<close> percent of the values are at most \<open>v\<close>, and fewer are below it.\<close>

definition nearest_rank :: "nat \<Rightarrow> u64 list \<Rightarrow> u64 \<Rightarrow> bool" where
  "nearest_rank p values v \<longleftrightarrow> v \<in> set values \<and> p * length values \<le> 100 * length (filter (\<lambda>w. w \<le> v) values) \<and>
     100 * length (filter (\<lambda>w. w < v) values) < p * length values"

lemma sorted_below:
  assumes "sorted xs" and "k < length xs"
  shows "Suc k \<le> length (filter (\<lambda>w. w \<le> xs ! k) xs)" and "length (filter (\<lambda>w. w < xs ! k) xs) \<le> k"
proof -
  have "{..k} \<subseteq> {i. i < length xs \<and> xs ! i \<le> xs ! k}" using assms by (auto intro: sorted_nth_mono)
  then have "card {..k} \<le> length (filter (\<lambda>w. w \<le> xs ! k) xs)" unfolding length_filter_conv_card by (rule card_mono [rotated]) simp
  then show "Suc k \<le> length (filter (\<lambda>w. w \<le> xs ! k) xs)" by simp
  have "{i. i < length xs \<and> xs ! i < xs ! k} \<subseteq> {..<k}"
    using assms by (auto simp: not_le [symmetric] intro: sorted_nth_mono)
  then have "length (filter (\<lambda>w. w < xs ! k) xs) \<le> card {..<k}" unfolding length_filter_conv_card by (rule card_mono [rotated]) simp
  then show "length (filter (\<lambda>w. w < xs ! k) xs) \<le> k" by simp
qed

lemma filter_sort_length: "length (filter P (sort xs)) = length (filter P xs)"
  by (metis mset_filter mset_sort size_mset)

lemma percentile_rank:
  assumes "values \<noteq> []" and "1 \<le> p" and "p \<le> 100"
  shows "\<exists>v. percentile (sort values) p = Inr v \<and> nearest_rank p values v"
proof -
  let ?xs = "sort values" and ?n = "length values"
  obtain k where k_def: "k = (p * ?n - 1) div 100" by blast
  have pos: "1 \<le> p * ?n" using assms(1,2) by (cases "values") auto
  have div_bounds: "1 \<le> m \<Longrightarrow> 100 * ((m - 1) div 100) < m" "1 \<le> m \<Longrightarrow> m \<le> 100 * Suc ((m - 1) div 100)" for m :: nat
  proof -
    have "(m - 1) mod 100 < 100" by simp
    then show "1 \<le> m \<Longrightarrow> 100 * ((m - 1) div 100) < m" "1 \<le> m \<Longrightarrow> m \<le> 100 * Suc ((m - 1) div 100)"
      using div_mult_mod_eq [of "m - 1" 100] unfolding mult_Suc_right by linarith+
  qed
  have "p * ?n \<le> 100 * ?n" using assms(3) by simp
  have low: "100 * k < p * ?n" and high: "p * ?n \<le> 100 * Suc k" unfolding k_def using pos div_bounds by blast+
  have "100 * k < 100 * ?n" using low \<open>p * ?n \<le> 100 * ?n\<close> by (rule less_le_trans)
  then have k: "k < length ?xs" by simp
  have "nearest_rank p values (?xs ! k)"
    using sorted_below [OF sorted_sort k] nth_mem [OF k] low high
    by (simp add: nearest_rank_def filter_sort_length)
  then show ?thesis using k by (auto simp: percentile_def index_at_def k_def)
qed

lemma sum_words:
  assumes "unat acc + sum_list (map unat xs) < 2 ^ 64"
  shows "\<exists>s. fold_out (\<lambda>x sum. add_u64 oc sum x) xs acc = Inr s \<and> unat s = unat acc + sum_list (map unat xs)"
  using assms
proof (induction xs arbitrary: acc)
  case (Cons x xs)
  have sum: "unat acc + unat x < 2 ^ 64" using Cons.prems by simp
  have "unat (acc + x) + sum_list (map unat xs) < 2 ^ 64" using Cons.prems by (simp add: unat_add_u64 [OF sum])
  from Cons.IH [OF this] show ?case by (simp add: add_u64_Inr [OF sum] unat_add_u64 [OF sum] add.assoc)
qed simp

lemma distribution_of_values:
  assumes "values \<noteq> []" and "length values < 2 ^ 64" and "sum_list (map unat values) < 2 ^ 64"
  shows "\<exists>d. distribution_of oc values = Inr (Some d) \<and> di_n d = length values \<and>
    unat (di_mean d) = sum_list (map unat values) div length values \<and> di_max d = Max (set values) \<and>
    nearest_rank 50 values (di_p50 d) \<and> nearest_rank 90 values (di_p90 d) \<and> nearest_rank 99 values (di_p99 d)"
proof -
  let ?xs = "sort values"
  have same: "sum_list (map unat ?xs) = sum_list (map unat values)"
    by (metis mset_map mset_sort sum_mset_sum_list)
  obtain s where s: "fold_out (\<lambda>x sum. add_u64 oc sum x) ?xs 0 = (Inr s :: u64 run)" "unat s = sum_list (map unat values)"
    using sum_words [of 0 ?xs oc] assms(3) same by auto
  obtain a b c where p: "percentile ?xs 50 = Inr a" "nearest_rank 50 values a" "percentile ?xs 90 = Inr b" "nearest_rank 90 values b"
      "percentile ?xs 99 = Inr c" "nearest_rank 99 values c"
    using percentile_rank [OF assms(1), of 50] percentile_rank [OF assms(1), of 90] percentile_rank [OF assms(1), of 99] by auto
  have last: "length values - 1 < length ?xs" using assms(1) by simp
  then have mx: "index_at ?xs (length values - 1) = (Inr (?xs ! (length values - 1)) :: u64 run)" by (simp add: index_at_def)
  have "w \<le> ?xs ! (length values - 1)" if "w \<in> set values" for w
  proof -
    have "w \<in> set ?xs" using that by simp
    then obtain i where "i < length ?xs" "w = ?xs ! i" unfolding in_set_conv_nth by blast
    then show ?thesis using sorted_nth_mono [OF sorted_sort, of i "length values - 1" "values"] last by simp
  qed
  moreover have "?xs ! (length values - 1) \<in> set values" using nth_mem [OF last] by simp
  ultimately have max: "?xs ! (length values - 1) = Max (set values)" by (intro Max_eqI [symmetric]) auto
  have "unat (s div word_of_nat (length values)) = sum_list (map unat values) div length values"
    using assms(2) by (simp add: unat_div s(2) unat_of_nat take_bit_eq_mod)
  then show ?thesis using assms(1) s(1) p mx max by (simp add: distribution_of_def Let_def)
qed

lemma sum_wraps: "\<exists>s. fold_out (\<lambda>x sum. add_u64 False sum x) xs s0 = (Inr s :: u64 run)"
  by (induction xs arbitrary: s0) (auto simp: add_u64_def)

text \<open>Without overflow checks a line is printed for every sample.\<close>

lemma print_distribution_total: "\<exists>line. \<forall>stdout. print_distribution False name values stdout = Inr (stdout @ [line])"
proof (cases "values = []")
  case True
  then show ?thesis by (simp add: print_distribution_def distribution_of_def)
next
  case False
  obtain s where s: "fold_out (\<lambda>x sum. add_u64 False sum x) (sort values) 0 = (Inr s :: u64 run)" using sum_wraps by blast
  obtain a b c where "percentile (sort values) 50 = Inr a" "percentile (sort values) 90 = Inr b" "percentile (sort values) 99 = Inr c"
    using percentile_rank [OF False, of 50] percentile_rank [OF False, of 90] percentile_rank [OF False, of 99] by auto
  then show ?thesis using False s by (simp add: print_distribution_def distribution_of_def Let_def index_at_def)
qed

section \<open>Timed batches\<close>

text \<open>A batch that was handed out: the index of the record, the time noted for it, and the batch.\<close>

type_synonym 'tx timed_batch = "nat \<times> u64 \<times> 'tx entry_batch"

definition timed_entry :: "'tx timed_batch \<Rightarrow> (u64 \<times> u32) \<times> u64 \<times> u64" where
  "timed_entry = (\<lambda>(i, t, b). ((eb_slot b, eb_start b), t, word_of_nat (num_transactions b)))"

text \<open>Every time is the receive time of its record plus at most the cost of a recovery.\<close>

definition timed_ok :: "fixture_record list \<Rightarrow> 'tx timed_batch \<Rightarrow> bool" where
  "timed_ok recs = (\<lambda>(i, t, b). i < length recs \<and> unat (fr_unix_nanos (recs ! i)) \<le> unat t \<and>
     unat t \<le> unat (fr_unix_nanos (recs ! i)) + 46000)"

lemma time_batches:
  assumes "unat nanos + unat cost < 2 ^ 64"
  shows "fold_out (time_batch oc nanos cost) bs table =
    Inr (table ++ map_of (rev (map (\<lambda>b. timed_entry (i, nanos + cost, b)) bs)))"
proof (induction bs arbitrary: table)
  case (Cons b bs)
  then show ?case by (simp add: time_batch_def add_u64_Inr [OF assms] timed_entry_def map_add_upd_left)
    (simp add: map_add_def fun_eq_iff split: option.splits)
qed simp

lemma timed_run:
  fixes deserialize :: "('w, 'tx) deserializer"
  assumes "fold_out (push oc B hashv rs deserialize) (map fr_packet recs) (d0, []) = Inr (d, out)"
    and "\<forall>r\<in>set recs. unat (fr_unix_nanos r) + 46000 < 2 ^ 64"
  shows "\<exists>rec evs. fold_out (time_record oc B hashv rs deserialize) recs (d0, 0, Map.empty) =
      Inr (d, rec, map_of (rev (map timed_entry evs))) \<and> (\<forall>e\<in>set evs. timed_ok recs e) \<and> map (snd \<circ> snd) evs = out \<and>
    (\<forall>n\<le>length recs. \<exists>dn. fold_out (push oc B hashv rs deserialize) (map fr_packet (take n recs)) (d0, []) =
      Inr (dn, map (snd \<circ> snd) (filter (\<lambda>e. fst e < n) evs)))"
  using assms
proof (induction recs arbitrary: d out rule: rev_induct)
  case Nil
  then show ?case by (intro exI [of _ 0] exI [of _ "[]"]) simp
next
  case (snoc r recs)
  let ?push = "push oc B hashv rs deserialize" and ?n = "length recs"
  obtain d1 out1 where one: "fold_out ?push (map fr_packet recs) (d0, []) = Inr (d1, out1)" and two: "?push (fr_packet r) (d1, out1) = Inr (d, out)"
    using snoc.prems(1) by (auto simp: fold_out_append bind_out_Inr_iff)
  obtain new where new: "?push (fr_packet r) (d1, []) = Inr (d, new)" "out = out1 @ new"
    using two by (subst (asm) push_append) (auto simp: bind_out_Inr_iff)
  have small: "\<forall>r\<in>set recs. unat (fr_unix_nanos r) + 46000 < 2 ^ 64" using snoc.prems(2) by simp
  obtain rec evs where ih: "fold_out (time_record oc B hashv rs deserialize) recs (d0, 0, Map.empty) = Inr (d1, rec, map_of (rev (map timed_entry evs)))"
      "\<forall>e\<in>set evs. timed_ok recs e" "map (snd \<circ> snd) evs = out1"
      "\<forall>n\<le>?n. \<exists>dn. fold_out ?push (map fr_packet (take n recs)) (d0, []) = Inr (dn, map (snd \<circ> snd) (filter (\<lambda>e. fst e < n) evs))"
    using snoc.IH [OF one small] by blast
  let ?cost = "if d_stats d recovered > rec then RECOVERY_COST_US * 1000 else 0 :: u64"
  have cost: "unat ?cost \<le> 46000" by (simp add: RECOVERY_COST_US_def)
  then have fits: "unat (fr_unix_nanos r) + unat ?cost < 2 ^ 64" using snoc.prems(2) by (auto simp: le_less_trans)
  let ?evs = "map (\<lambda>b. (?n, fr_unix_nanos r + ?cost, b)) new"
  have "time_record oc B hashv rs deserialize r (d1, rec, map_of (rev (map timed_entry evs))) =
      Inr (d, d_stats d recovered, map_of (rev (map timed_entry (evs @ ?evs))))"
    using time_batches [OF fits, of oc new "map_of (rev (map timed_entry evs))" ?n]
    by (simp add: time_record_def new(1) Let_def map_of_append comp_def)
  then have "fold_out (time_record oc B hashv rs deserialize) (recs @ [r]) (d0, 0, Map.empty) =
      Inr (d, d_stats d recovered, map_of (rev (map timed_entry (evs @ ?evs))))" by (simp add: fold_out_append ih(1))
  moreover have "\<forall>e\<in>set (evs @ ?evs). timed_ok (recs @ [r]) e"
  proof -
    have "timed_ok (recs @ [r]) (?n, fr_unix_nanos r + ?cost, b)" for b :: "'tx entry_batch"
      unfolding timed_ok_def using cost by (simp only: split_conv unat_add_u64 [OF fits]) simp
    moreover have "timed_ok (recs @ [r]) e" if "timed_ok recs e" for e :: "'tx timed_batch"
      using that by (auto simp: timed_ok_def nth_append)
    ultimately show ?thesis using ih(2) by auto
  qed
  moreover have "map (snd \<circ> snd) (evs @ ?evs) = out" using ih(3) new(2) by (simp add: comp_def)
  moreover have "\<exists>dn. fold_out ?push (map fr_packet (take n (recs @ [r]))) (d0, []) =
      Inr (dn, map (snd \<circ> snd) (filter (\<lambda>e. fst e < n) (evs @ ?evs)))" if n: "n \<le> length (recs @ [r])" for n
  proof (cases "n \<le> ?n")
    case True
    then have "filter (\<lambda>e. fst e < n) (evs @ ?evs) = filter (\<lambda>e. fst e < n) evs" by (auto simp: filter_empty_conv)
    then show ?thesis using ih(4) True by simp
  next
    case False
    then have n: "n = Suc ?n" using n by simp
    have "fst e < n" if "e \<in> set (evs @ ?evs)" for e
      using that ih(2) unfolding n by (auto simp: timed_ok_def less_Suc_eq dest!: bspec)
    then have "filter (\<lambda>e. fst e < n) (evs @ ?evs) = evs @ ?evs" by (intro filter_True ballI)
    moreover have "map (snd \<circ> snd) (evs @ ?evs) = out" using ih(3) new(2) by (simp add: comp_def)
    ultimately show ?thesis using snoc.prems(1) unfolding n by simp
  qed
  ultimately show ?case by blast
qed

section \<open>Properties\<close>

text \<open>
  C38. The study measures what the library does. On any recorded capture the measuring pass reads every
  record without a panic, and for a FEC set whose shreds carry one root and one signature the recorded
  threshold is the time of the arrival with which \<open>FecSet::can_recover\<close> becomes true for the first time
  when the same shreds are inserted into a set, if it ever does; the recorded completion is the time of
  the arrival that completes the set.
\<close>

theorem capture_measured:
  assumes "\<forall>r\<in>set recs. length (fr_packet r) < 65536" and "digest32 hashv"
    and "\<forall>(t, x)\<in>set (arrivals_of (slot, fec) recs). signed_by hashv (\<lambda>_. root) (\<lambda>_. sg) x"
  shows "\<exists>reader m. reader_new slice_read_exact (fixture_bytes recs) = (reader, Inr ()) \<and>
    measure_capture slice_read_exact reader = Some (Inr m) \<and> ms_packets m = length recs \<and>
    (case ms_sets m (slot, fec) of
       None \<Rightarrow> arrivals_of (slot, fec) recs = []
     | Some st \<Rightarrow> \<forall>t. (ss_threshold_at st = Some t \<longleftrightarrow> first_at hashv can_recover (arrivals_of (slot, fec) recs) t) \<and>
         (ss_data_complete_at st = Some t \<longleftrightarrow> first_at hashv is_complete (arrivals_of (slot, fec) recs) t))"
proof -
  let ?arrs = "arrivals_of (slot, fec) recs"
  obtain reader m where m: "reader_new slice_read_exact (fixture_bytes recs) = (reader, Inr ())"
    "measure_capture slice_read_exact reader = Some (Inr m)" "ms_packets m = length recs"
    "set_entry_of m (slot, fec) = measured ?arrs set_state_default" "ms_sets m (slot, fec) = None \<longleftrightarrow> ?arrs = []"
    using capture_measured_all [OF assms(1)] by blast
  have "\<forall>(t, x)\<in>set ?arrs. shred_ok x \<and> s_fec_set_index x = fec \<and> signed_by hashv (\<lambda>_. root) (\<lambda>_. sg) x"
    using arrivals_of_ok assms(3) by blast
  from tracks_arrivals [OF this assms(2)] have times:
    "(ss_threshold_at (set_entry_of m (slot, fec)) = Some t \<longleftrightarrow> first_at hashv can_recover ?arrs t) \<and>
     (ss_data_complete_at (set_entry_of m (slot, fec)) = Some t \<longleftrightarrow> first_at hashv is_complete ?arrs t)" for t
    unfolding m(4) by (simp add: tracks_def Let_def)
  show ?thesis
  proof (cases "ms_sets m (slot, fec)")
    case None
    then show ?thesis using m(1-3,5) by auto
  next
    case (Some st)
    then have "set_entry_of m (slot, fec) = st" by (simp add: set_entry_of_def)
    with Some show ?thesis using m(1-3) times by auto
  qed
qed

definition sample_capture :: "fixture_record list" where
  "sample_capture = map (\<lambda>x. \<lparr>fr_unix_nanos = word_of_nat (erasure_shard_index x), fr_packet = s_bytes x\<rparr>) block_arrivals"

lemma sample_capture_fits: "\<forall>r\<in>set sample_capture. length (fr_packet r) < 65536"
  unfolding sample_capture_def set_map set_block_arrivals
  by (auto simp: block_shred_def data_wire_def block_code_shred_def code_wire_def common_wire_def)

theorem capture_measured_witness:
  "\<exists>reader m. reader_new slice_read_exact (fixture_bytes sample_capture) = (reader, Inr ()) \<and>
    measure_capture slice_read_exact reader = Some (Inr m) \<and> ms_packets m = length sample_capture"
proof -
  have parses: "parse (s_bytes x) = Inr x" if "x \<in> set block_arrivals" for x
    using that parse_block_shred parse_block_code_shred unfolding set_block_arrivals by auto
  have "x \<in> set block_arrivals" if "(t, x) \<in> set (arrivals_of (1000, 0) sample_capture)" for t x
    using that parses by (auto simp: arrivals_of_def sample_capture_def List.map_filter_def arrival_def split: if_splits)
  then have "\<forall>(t, x)\<in>set (arrivals_of (1000, 0) sample_capture). signed_by constant_hash (\<lambda>_. replicate 32 0) (\<lambda>_. replicate 64 0) x"
    using block_arrivals_ok(1) by blast
  from capture_measured [OF sample_capture_fits digest32_constant_hash this] show ?thesis by blast
qed

text \<open>
  C39. A printed distribution is correct: for any sample whose sum fits a \<open>u64\<close> the line gives its size, its mean rounded
  down, its maximum and the nearest-rank 50th, 90th and 99th percentiles; nothing panics, no sample gives
  the line that says so.
\<close>

theorem distribution_printed:
  assumes "values \<noteq> []" and "length values < 2 ^ 64" and "sum_list (map unat values) < 2 ^ 64"
  shows "print_distribution oc name [] stdout = Inr (stdout @ [name @ '': no samples'']) \<and>
    (\<exists>p50 p90 p99. nearest_rank 50 values p50 \<and> nearest_rank 90 values p90 \<and> nearest_rank 99 values p99 \<and>
      print_distribution oc name values stdout = Inr (stdout @ [name @ '': n '' @ decimal (length values) @
        '' | mean '' @ decimal (sum_list (map unat values) div length values) @ '' | p50 '' @ decimal (unat p50) @
        '' | p90 '' @ decimal (unat p90) @ '' | p99 '' @ decimal (unat p99) @ '' | max '' @ decimal (unat (Max (set values)))]))"
proof -
  obtain d where "distribution_of oc values = Inr (Some d)" "di_n d = length values"
    "unat (di_mean d) = sum_list (map unat values) div length values" "di_max d = Max (set values)"
    "nearest_rank 50 values (di_p50 d)" "nearest_rank 90 values (di_p90 d)" "nearest_rank 99 values (di_p99 d)"
    using distribution_of_values [OF assms, of oc] by blast
  then show ?thesis
    by (intro conjI exI [of _ "di_p50 d"] exI [of _ "di_p90 d"] exI [of _ "di_p99 d"])
      (simp_all add: print_distribution_def, simp add: distribution_of_def)
qed

theorem distribution_printed_witness:
  "\<exists>p50 p90 p99. nearest_rank 50 [7, 3, 8] p50 \<and> nearest_rank 90 [7, 3, 8] p90 \<and> nearest_rank 99 [7, 3, 8] p99 \<and>
    print_distribution True ''wait'' [7, 3, 8] [] = Inr [''wait'' @ '': n '' @ decimal (length [7, 3, 8 :: u64]) @
        '' | mean '' @ decimal (sum_list (map unat [7, 3, 8 :: u64]) div length [7, 3, 8 :: u64]) @ '' | p50 '' @ decimal (unat p50) @
        '' | p90 '' @ decimal (unat p90) @ '' | p99 '' @ decimal (unat p99) @ '' | max '' @ decimal (unat (Max (set [7, 3, 8 :: u64])))]"
proof -
  have "[7, 3, 8 :: u64] \<noteq> []" "length [7, 3, 8 :: u64] < 2 ^ 64" "sum_list (map unat [7, 3, 8 :: u64]) < 2 ^ 64" by simp_all
  from distribution_printed [OF this, of True "''wait''" "[]"] show ?thesis unfolding append_Nil by blast
qed

end
