(* ===== verification/Latency.thy ===== *)
theory Latency
  imports Exact Analysis
begin

text \<open>
  What the recovery study compares (\<open>transaction_latency\<close> of \<open>src/bin/analyze-recovery.rs\<close>): the times at which
  a block's batches become available with and without recovery, from the same capture, and the whole report of its
  \<open>main\<close>. It joins the timed replay of \<open>Analysis\<close> with the promises of \<open>Delivery\<close>. What \<open>{:.1}\<close> prints of a percentage
  computed in \<open>f64\<close> is the argument \<open>percent\<close> of the count and the total.
\<close>

section \<open>The comparison\<close>

text \<open>Both passes over the file, and the loop over the first table; \<open>order\<close> lists a hash map in some order.\<close>

definition transaction_latency :: "bool \<Rightarrow> 'b bitset_ops \<Rightarrow> hasher \<Rightarrow> 'r reconstructor \<Rightarrow> ('w, 'tx) deserializer \<Rightarrow>
    ('p \<Rightarrow> io_error + 'f) \<Rightarrow> 'f read_exact \<Rightarrow> (batch_times \<Rightarrow> ((u64 \<times> u32) \<times> u64 \<times> u64) list) \<Rightarrow> 'p \<Rightarrow>
    (io_error, latency) outcome option" where
  "transaction_latency oc B hashv rs deserialize open_file read_exact order path =
     (let pass = (\<lambda>recover. case reader_open open_file read_exact path of
         Inl e \<Rightarrow> Some (Inl (Err e))
       | Inr reader \<Rightarrow> batch_times_of oc B hashv rs deserialize read_exact reader recover) in
      case pass True of
        None \<Rightarrow> None
      | Some (Inl f) \<Rightarrow> Some (Inl f)
      | Some (Inr (_, _, eager)) \<Rightarrow>
        (case pass False of
           None \<Rightarrow> None
         | Some (Inl f) \<Rightarrow> Some (Inl f)
         | Some (Inr (_, _, waiting)) \<Rightarrow>
           (case compare_policies oc (order eager) waiting of
              Inr la \<Rightarrow> Some (Inr la)
            | Inl (Panic p) \<Rightarrow> Some (Inl (Panic p))
            | Inl (Err u) \<Rightarrow> None)))"

section \<open>The report\<close>

definition pad :: "nat \<Rightarrow> string \<Rightarrow> string" where
  "pad width text = replicate (width - length text) (CHR '' '') @ text"

definition summary_lines :: "(nat \<Rightarrow> nat \<Rightarrow> string) \<Rightarrow> nat \<Rightarrow> nat \<Rightarrow> summary \<Rightarrow> string list" where
  "summary_lines percent read_packets set_count sm =
     [decimal read_packets @ '' packets, '' @ decimal set_count @ '' FEC sets'',
      ''sets where the data completed before recovery was possible: '' @ decimal (sm_data_first sm) @
        '' ('' @ percent (sm_data_first sm) set_count @ ''%)'',
      ''sets where eager recovery had a window (32 shreds before the data): '' @ decimal (length (sm_wait_us sm)) @
        '' ('' @ percent (length (sm_wait_us sm)) set_count @ ''%)'',
      ''sets where the data never completed (recovery required): '' @ decimal (sm_never_complete sm) @
        '' ('' @ percent (sm_never_complete sm) set_count @ ''%)'',
      ''sets that never became recoverable at all: '' @ decimal (sm_never_recoverable sm),
      []]"

definition latency_lines :: "(nat \<Rightarrow> nat \<Rightarrow> string) \<Rightarrow> latency \<Rightarrow> string list" where
  "latency_lines percent la =
     (let all_txs = unat (la_total la); faster = length (la_deltas la) in
      [[], ''transaction latency, eager recovery vs waiting for the data shreds:'',
       ''  '' @ decimal all_txs @ '' transactions | unaffected '' @ decimal (unat (la_ties la)) @ '' ('' @ percent (unat (la_ties la)) all_txs @
         ''%) | faster with recovery '' @ decimal faster @ '' ('' @ percent faster all_txs @
         ''%) | only delivered thanks to recovery '' @ decimal (unat (la_only_with_recovery la)) @
         '' ('' @ percent (unat (la_only_with_recovery la)) all_txs @ ''%)''])"

definition sweep_lines :: "(nat \<Rightarrow> nat \<Rightarrow> string) \<Rightarrow> u64 list \<Rightarrow> string list" where
  "sweep_lines percent wait_us =
     [[], ''grace_us | recoveries skipped | still recovered | added latency to those''] @
     map (\<lambda>(grace, skipped, still). pad 8 (decimal (unat grace)) @ '' | '' @ pad 10 (decimal skipped) @
         '' ('' @ pad 5 (percent skipped (length wait_us)) @ ''%) | '' @ pad 15 (decimal still) @ '' | '' @ decimal (unat grace) @ '' us'')
       (grace_sweep wait_us)"

text \<open>The rest of \<open>main\<close> behind a call that may panic; a result without a value is divergence.\<close>

definition and_then :: "'a run \<Rightarrow> string list \<Rightarrow> ('a \<Rightarrow> ((io_error, unit) outcome \<times> string list) option) \<Rightarrow>
    ((io_error, unit) outcome \<times> string list) option" where
  "and_then r stdout k = (case r of
     Inr x \<Rightarrow> k x
   | Inl (Panic p) \<Rightarrow> Some (Inl (Panic p), stdout)
   | Inl (Err u) \<Rightarrow> None)"

text \<open>\<open>states\<close> and \<open>order\<close> list the two hash maps that are iterated, each in some order.\<close>

definition study_main :: "bool \<Rightarrow> 'b bitset_ops \<Rightarrow> hasher \<Rightarrow> 'r reconstructor \<Rightarrow> ('w, 'tx) deserializer \<Rightarrow>
    ('p \<Rightarrow> io_error + 'f) \<Rightarrow> 'f read_exact \<Rightarrow> ((u64 \<times> u32 \<rightharpoonup> set_state) \<Rightarrow> set_state list) \<Rightarrow>
    (batch_times \<Rightarrow> ((u64 \<times> u32) \<times> u64 \<times> u64) list) \<Rightarrow> (nat \<Rightarrow> nat \<Rightarrow> string) \<Rightarrow> 'p \<Rightarrow> string list \<Rightarrow>
    ((io_error, unit) outcome \<times> string list) option" where
  "study_main oc B hashv rs deserialize open_file read_exact states order percent path stdout =
     (case reader_open open_file read_exact path of
        Inl e \<Rightarrow> Some (Inl (Err e), stdout)
      | Inr reader \<Rightarrow>
        (case measure_capture read_exact reader of
           None \<Rightarrow> None
         | Some (Inl f) \<Rightarrow> Some (Inl f, stdout)
         | Some (Inr m) \<Rightarrow>
           and_then (summarize oc (states (ms_sets m))) stdout (\<lambda>sm.
           let stdout = stdout @ summary_lines percent (ms_packets m) (length (states (ms_sets m))) sm in
           and_then (print_distribution oc ''eager recovery saves (us waited for the last data shred)'' (sm_wait_us sm) stdout) stdout (\<lambda>stdout.
           and_then (print_distribution oc ''data shreds reconstructed when eager'' (sm_missing sm) stdout) stdout (\<lambda>stdout.
           and_then (print_distribution oc ''whole set arrival span (us)'' (sm_span_us sm) stdout) stdout (\<lambda>stdout.
           case transaction_latency oc B hashv rs deserialize open_file read_exact order path of
             None \<Rightarrow> None
           | Some (Inl f) \<Rightarrow> Some (Inl f, stdout)
           | Some (Inr la) \<Rightarrow>
             let stdout = stdout @ latency_lines percent la in
             and_then (print_distribution oc ''  us earlier per accelerated transaction (46us recovery cost included)'' (la_deltas la) stdout) stdout (\<lambda>stdout.
             Some (Inr (), stdout @ sweep_lines percent (sm_wait_us sm)))))))))"

section \<open>The passes over a capture\<close>

lemma timed_pass:
  fixes deserialize :: "('w, 'tx) deserializer"
  assumes src: "byte_source read_exact left" "left reader = concat (map record_bytes recs)"
    and recs: "\<forall>x\<in>set recs. length (fr_packet x) < 65536 \<and> unat (fr_unix_nanos x) + 46000 < 2 ^ 64"
    and run: "fold_out (push oc B hashv r deserialize) (map fr_packet recs) (deshredder_new (config_default\<lparr>c_recover := v\<rparr>), []) = Inr (self, out)"
  shows "\<exists>rec evs. batch_times_of oc B hashv r deserialize read_exact reader v = Some (Inr (self, rec, map_of (rev (map timed_entry evs)))) \<and>
      (\<forall>e\<in>set evs. timed_ok recs e) \<and> map (snd \<circ> snd) evs = out \<and>
      (\<forall>n\<le>length recs. \<exists>dn. fold_out (push oc B hashv r deserialize) (map fr_packet (take n recs))
        (deshredder_new (config_default\<lparr>c_recover := v\<rparr>), []) = Inr (dn, map (snd \<circ> snd) (filter (\<lambda>e. fst e < n) evs)))"
proof -
  have nanos: "\<forall>x\<in>set recs. unat (fr_unix_nanos x) + 46000 < 2 ^ 64" and fits: "\<forall>x\<in>set recs. length (fr_packet x) < 65536"
    using recs by blast+
  obtain rec and evs :: "'tx timed_batch list" where evs:
      "fold_out (time_record oc B hashv r deserialize) recs (deshredder_new (config_default\<lparr>c_recover := v\<rparr>), 0, Map.empty) =
        Inr (self, rec, map_of (rev (map timed_entry evs)))"
      "\<forall>e\<in>set evs. timed_ok recs e" "map (snd \<circ> snd) evs = out"
      "\<forall>n\<le>length recs. \<exists>dn. fold_out (push oc B hashv r deserialize) (map fr_packet (take n recs))
        (deshredder_new (config_default\<lparr>c_recover := v\<rparr>), []) = Inr (dn, map (snd \<circ> snd) (filter (\<lambda>e. fst e < n) evs))"
    using timed_run [OF run nanos] by blast
  from byte_source.for_records_all [OF src fits evs(1)] show ?thesis using evs(2-) unfolding batch_times_of_def by blast
qed

text \<open>The two policies compared: every transaction is counted in one of three ways, up to wrap-around.\<close>

definition balance :: "latency \<Rightarrow> u64" where
  "balance la = la_total la - (la_ties la + la_only_with_recovery la + word_of_nat (length (la_deltas la)))"

lemma compare_batch_balance: "\<exists>la'. compare_batch False waiting x la = Inr la' \<and> balance la' = balance la"
  by (cases x; cases "waiting (fst x)") (auto simp: compare_batch_def add_u64_def Let_def balance_def)

lemma compare_batches: "\<exists>la'. fold_out (compare_batch False waiting) xs la = Inr la' \<and> balance la' = balance la"
proof (induction xs arbitrary: la)
  case (Cons x xs)
  obtain la1 where "compare_batch False waiting x la = Inr la1" "balance la1 = balance la"
    using compare_batch_balance by blast
  then show ?case using Cons.IH [of la1] by simp
qed simp

lemma compare_policies_total:
  "\<exists>la. compare_policies False xs waiting = Inr la \<and>
    la_total la = la_ties la + la_only_with_recovery la + word_of_nat (length (la_deltas la))"
proof -
  have "balance latency_default = 0" by (simp add: balance_def latency_default_def)
  then obtain la where "fold_out (compare_batch False waiting) xs latency_default = Inr la" "balance la = 0"
    using compare_batches [of waiting xs latency_default] by auto
  then show ?thesis by (simp add: compare_policies_def balance_def)
qed

lemma arrived_keys_finite: "finite {key. arrivals_of key recs \<noteq> []}"
proof -
  have "{key. arrivals_of key recs \<noteq> []} \<subseteq> (\<lambda>r. case parse (fr_packet r) of Inr x \<Rightarrow> (s_slot x, s_fec_set_index x) | Inl f \<Rightarrow> (0, 0)) ` set recs"
    by (force simp: arrivals_of_def List.map_filter_def arrival_def filter_empty_conv split: sum.splits if_splits)
  then show ?thesis by (rule finite_subset) simp
qed

section \<open>Tables of batches\<close>

lemma map_of_filter_key: "P k \<Longrightarrow> map_of (filter (\<lambda>e. P (fst e)) xs) k = map_of xs k"
  by (induction xs) auto

lemma leader_batch_end:
  assumes "leader_batch leader a e" and "leader_batch leader a e'"
  shows "e = e'"
proof -
  have "\<not> e < e'" if "leader_batch leader a e" "leader_batch leader a e'" for e e'
    using that unfolding leader_batch_def by blast
  then show ?thesis using assms by (meson linorder_neqE_nat)
qed

lemma distinct_starts:
  assumes "distinct (map (\<lambda>b. (s b, e b)) xs)" and "\<forall>b\<in>set xs. \<forall>b'\<in>set xs. s b = s b' \<longrightarrow> e b = e b'"
  shows "distinct (map s xs)"
  using assms unfolding distinct_map inj_on_def prod.inject by blast

text \<open>The table has the time of every batch of the block's slot.\<close>

lemma table_of_block:
  assumes spec: "block_spec deserialize leader slot H (map (snd \<circ> snd) evs)"
    and e: "(i, t, b) \<in> set evs" "eb_slot b = slot"
  shows "map_of (rev (map timed_entry evs)) (slot, eb_start b) = Some (t, word_of_nat (num_transactions b))"
proof -
  let ?mine = "\<lambda>e. fst e = slot" and ?xs = "rev (map timed_entry evs)"
  let ?bs = "filter (\<lambda>b. eb_slot b = slot) (map (snd \<circ> snd) evs)"
  have batch: "leader_batch leader (unat (eb_start b)) (unat (eb_end b))" if "b \<in> set ?bs" for b
    using spec that unfolding block_spec_def by auto
  have "eb_end b = eb_end b'" if "b \<in> set ?bs" "b' \<in> set ?bs" "eb_start b = eb_start b'" for b b'
    using leader_batch_end [OF batch [OF that(1)]] batch [OF that(2)] that(3) by (simp add: word_unat_eq_iff)
  then have "\<forall>b\<in>set ?bs. \<forall>b'\<in>set ?bs. eb_start b = eb_start b' \<longrightarrow> eb_end b = eb_end b'" by blast
  moreover have "distinct (map (\<lambda>b. (eb_start b, eb_end b)) ?bs)" using spec unfolding block_spec_def by blast
  ultimately have "distinct (map eb_start ?bs)" by (rule distinct_starts [rotated])
  then have "distinct (map (\<lambda>b. (slot, eb_start b)) ?bs)" by (simp add: distinct_map inj_on_def)
  moreover have "map fst (filter (\<lambda>e. ?mine (fst e)) (map timed_entry evs)) = map (\<lambda>b. (slot, eb_start b)) ?bs"
    by (induction evs) (auto simp: timed_entry_def split_def)
  ultimately have "distinct (map fst (filter (\<lambda>e. ?mine (fst e)) ?xs))"
    by (simp only: rev_filter [symmetric] rev_map [symmetric] distinct_rev)
  moreover have "((slot, eb_start b), t, word_of_nat (num_transactions b)) \<in> set (filter (\<lambda>e. ?mine (fst e)) ?xs)"
    using e by (force simp: timed_entry_def)
  ultimately have "map_of (filter (\<lambda>e. ?mine (fst e)) ?xs) (slot, eb_start b) = Some (t, word_of_nat (num_transactions b))"
    by (rule map_of_is_SomeI)
  then show ?thesis by (simp add: map_of_filter_key [where P = ?mine])
qed

text \<open>Every prefix of a capture of a leader's block, with either setting of the recovery, gives exactly the promised batches.\<close>

lemma capture_runs:
  assumes env: "bit_set B" "digest32 hashv" "rs_in_place r" "\<forall>k<K. rs_decodes r (cw k)"
    and block: "leader_block slot version K leader cw" and room: "room config_default slot"
    and tr: "\<forall>x\<in>set recs. nearby_traffic config_default slot (fr_packet x)"
    and arr: "\<forall>x\<in>arrived config_default slot (map fr_packet recs). of_leader slot version K leader cw x \<and> signed_by hashv root sg x"
  shows "\<exists>self out. fold_out (push oc B hashv r deserialize) (map fr_packet (take n recs)) (deshredder_new (config_default\<lparr>c_recover := v\<rparr>), []) =
      Inr (self, out) \<and> exact_spec deserialize leader slot v (arrived config_default slot (map fr_packet (take n recs))) out"
proof -
  have "\<forall>p\<in>set (map fr_packet (take n recs)). nearby_traffic config_default slot p"
    "\<forall>x\<in>arrived config_default slot (map fr_packet (take n recs)). of_leader slot version K leader cw x \<and> signed_by hashv root sg x"
    using tr arr by (auto simp: arrived_def dest: in_set_takeD)
  then show ?thesis
    using pushes_exactly [OF env block, of "config_default\<lparr>c_recover := v\<rparr>" "map fr_packet (take n recs)" root sg oc deserialize stats_default] room
    unfolding deshredder_new_def by simp
qed

text \<open>
  Two timed passes over one capture: if, after every record, the first has handed out what the second has, then what
  the second has timed is timed by the first, at most the cost of a recovery later.
\<close>

lemma timed_by_both:
  assumes clock: "sorted (map fr_unix_nanos recs)" and times: "\<forall>e\<in>set evs1. timed_ok recs e" "\<forall>e\<in>set evs0. timed_ok recs e"
    and spec: "block_spec deserialize leader slot H (map (snd \<circ> snd) evs1)"
    and sub: "\<And>n b. n \<le> length recs \<Longrightarrow> b \<in> (snd \<circ> snd) ` {e\<in>set evs0. fst e < n} \<Longrightarrow> eb_slot b = slot \<Longrightarrow>
      b \<in> (snd \<circ> snd) ` {e\<in>set evs1. fst e < n}"
    and w: "map_of (rev (map timed_entry evs0)) (slot, a) = Some (w, m)"
  shows "\<exists>e. map_of (rev (map timed_entry evs1)) (slot, a) = Some (e, m) \<and> unat e \<le> unat w + 46000"
proof -
  obtain j b where b: "(j, w, b) \<in> set evs0" "eb_slot b = slot" "eb_start b = a" "m = word_of_nat (num_transactions b)"
    using map_of_SomeD [OF w] by (auto simp: timed_entry_def)
  have j: "j < length recs" "unat (fr_unix_nanos (recs ! j)) \<le> unat w" using times(2) b(1) by (auto simp: timed_ok_def)
  then obtain i t where i: "(i, t, b) \<in> set evs1" "i \<le> j" using sub [of "Suc j" b] b(1,2) by force
  have "unat t \<le> unat (fr_unix_nanos (recs ! i)) + 46000" using times(1) i(1) by (auto simp: timed_ok_def)
  moreover have "fr_unix_nanos (recs ! i) \<le> fr_unix_nanos (recs ! j)" using sorted_nth_mono [OF clock i(2)] j(1) i(2) by simp
  ultimately have "unat t \<le> unat w + 46000" using j(2) by (simp add: word_le_nat_alt)
  moreover have "map_of (rev (map timed_entry evs1)) (slot, eb_start b) = Some (t, word_of_nat (num_transactions b))"
    by (rule table_of_block [OF spec i(1) b(2)])
  ultimately show ?thesis unfolding b(3,4) by blast
qed

section \<open>Properties\<close>

text \<open>
  C23. Eager recovery is never late by more than its cost. Take a capture of a leader's block, with shreds of slots within the
  default lookback of the block's only, with FEC set indexes below 32768, besides garbage and other versions (the scope of \<open>block_exactly\<close>), and with
  receive times that do not decrease and end 46 microseconds before the end of \<open>u64\<close>. The study's two passes succeed, and every batch of the slot that the waiting
  policy delivers is in the eager policy's table too, with the same number of transactions, at
  most 46 microseconds later.
\<close>

theorem eager_never_later:
  assumes env: "bit_set B" "digest32 hashv" "rs_in_place r" "\<forall>k<K. rs_decodes r (cw k)"
    and block: "leader_block slot version K leader cw" and room: "room config_default slot"
    and tr: "\<forall>x\<in>set recs. nearby_traffic config_default slot (fr_packet x)"
    and arr: "\<forall>x\<in>arrived config_default slot (map fr_packet recs). of_leader slot version K leader cw x \<and> signed_by hashv root sg x"
    and src: "byte_source read_exact left" "left reader = concat (map record_bytes recs)"
    and recs: "\<forall>x\<in>set recs. length (fr_packet x) < 65536 \<and> unat (fr_unix_nanos x) + 46000 < 2 ^ 64"
    and clock: "sorted (map fr_unix_nanos recs)"
  shows "\<exists>d n eager d' n' waiting.
    batch_times_of oc B hashv r deserialize read_exact reader True = Some (Inr (d, n, eager)) \<and>
    batch_times_of oc B hashv r deserialize read_exact reader False = Some (Inr (d', n', waiting)) \<and>
    (\<forall>a w m. waiting (slot, a) = Some (w, m) \<longrightarrow> (\<exists>e. eager (slot, a) = Some (e, m) \<and> unat e \<le> unat w + 46000))"
proof -
  let ?H = "\<lambda>n. arrived config_default slot (map fr_packet (take n recs))"
  let ?run = "\<lambda>v n. fold_out (push oc B hashv r deserialize) (map fr_packet (take n recs)) (deshredder_new (config_default\<lparr>c_recover := v\<rparr>), [])"
  have runs: "\<exists>self out. ?run v n = Inr (self, out) \<and> exact_spec deserialize leader slot v (?H n) out" for v n
    by (rule capture_runs [OF env block room tr arr])
  have timed: "\<exists>self rec evs. batch_times_of oc B hashv r deserialize read_exact reader v = Some (Inr (self, rec, map_of (rev (map timed_entry evs)))) \<and>
      (\<forall>e\<in>set evs. timed_ok recs e) \<and>
      (\<forall>n\<le>length recs. exact_spec deserialize leader slot v (?H n) (map (snd \<circ> snd) (filter (\<lambda>e. fst e < n) evs)))" for v
  proof -
    obtain self out where "?run v (length recs) = Inr (self, out)" using runs by blast
    then have all: "fold_out (push oc B hashv r deserialize) (map fr_packet recs) (deshredder_new (config_default\<lparr>c_recover := v\<rparr>), []) = Inr (self, out)" by simp
    obtain rec evs where evs: "batch_times_of oc B hashv r deserialize read_exact reader v = Some (Inr (self, rec, map_of (rev (map timed_entry evs))))"
        "\<forall>e\<in>set evs. timed_ok recs e" "\<forall>n\<le>length recs. \<exists>dn. ?run v n = Inr (dn, map (snd \<circ> snd) (filter (\<lambda>e. fst e < n) evs))"
      using timed_pass [OF src recs all] by blast
    have "exact_spec deserialize leader slot v (?H n) (map (snd \<circ> snd) (filter (\<lambda>e. fst e < n) evs))" if "n \<le> length recs" for n
      using runs [where v = v and n = n] evs(3) that by fastforce
    then show ?thesis using evs by blast
  qed
  obtain d1 n1 evs1 where one: "batch_times_of oc B hashv r deserialize read_exact reader True = Some (Inr (d1, n1, map_of (rev (map timed_entry evs1))))"
      "\<forall>e\<in>set evs1. timed_ok recs e" "\<forall>n\<le>length recs. exact_spec deserialize leader slot True (?H n) (map (snd \<circ> snd) (filter (\<lambda>e. fst e < n) evs1))"
    using timed [of True] by blast
  obtain d0 n0 evs0 where two: "batch_times_of oc B hashv r deserialize read_exact reader False = Some (Inr (d0, n0, map_of (rev (map timed_entry evs0))))"
      "\<forall>e\<in>set evs0. timed_ok recs e" "\<forall>n\<le>length recs. exact_spec deserialize leader slot False (?H n) (map (snd \<circ> snd) (filter (\<lambda>e. fst e < n) evs0))"
    using timed [of False] by blast
  have "filter (\<lambda>e. fst e < length recs) evs1 = evs1" using one(2) by (auto simp: filter_id_conv timed_ok_def)
  then have spec: "block_spec deserialize leader slot (?H (length recs)) (map (snd \<circ> snd) evs1)"
    using exact_block_spec [OF one(3) [rule_format, OF order_refl]] by simp
  have "b \<in> (snd \<circ> snd) ` {e\<in>set evs1. fst e < n}"
    if "n \<le> length recs" "b \<in> (snd \<circ> snd) ` {e\<in>set evs0. fst e < n}" "eb_slot b = slot" for n b
    using exact_mono [OF two(3) [rule_format, OF that(1)] one(3) [rule_format, OF that(1)]] that(2,3) by auto
  note later = timed_by_both [OF clock one(2) two(2) spec this]
  then show ?thesis using one(1) two(1) by blast
qed

text \<open>The capture of a small block, all of it received at one moment.\<close>

definition block_capture :: "fixture_record list" where
  "block_capture = map (\<lambda>p. \<lparr>fr_unix_nanos = 5, fr_packet = p\<rparr>) block_packets"

theorem eager_never_later_witness:
  "\<exists>d n eager d' n' waiting.
    batch_times_of True bits_model constant_hash (codeword_rs (block_codeword 0)) tiny_deserialize slice_read_exact
      (concat (map record_bytes block_capture)) True = Some (Inr (d, n, eager)) \<and>
    batch_times_of True bits_model constant_hash (codeword_rs (block_codeword 0)) tiny_deserialize slice_read_exact
      (concat (map record_bytes block_capture)) False = Some (Inr (d', n', waiting))"
proof -
  have packets: "map fr_packet block_capture = block_packets" by (simp add: block_capture_def comp_def)
  have tr: "\<forall>x\<in>set block_capture. nearby_traffic config_default 1000 (fr_packet x)"
    using block_packets_traffic by (auto simp: block_capture_def)
  have fits: "\<forall>x\<in>set block_capture. length (fr_packet x) < 65536 \<and> unat (fr_unix_nanos x) + 46000 < 2 ^ 64"
    using block_packets_fit by (fastforce simp: block_capture_def)
  have clock: "sorted (map fr_unix_nanos block_capture)" by (simp add: block_capture_def comp_def sorted_iff_nth_mono)
  show ?thesis
    using eager_never_later [OF block_instance block_packets_room(1) tr block_packets_signed [folded packets] slice.byte_source_axioms refl fits clock,
        of True tiny_deserialize] by blast
qed

text \<open>A listing of the values of a hash map: every key once, in any order.\<close>

definition lists_values :: "(('k \<rightharpoonup> 'v) \<Rightarrow> 'v list) \<Rightarrow> bool" where
  "lists_values f \<longleftrightarrow> (\<forall>table. finite (dom table) \<longrightarrow> (\<exists>keys. distinct keys \<and> set keys = dom table \<and> f table = map (\<lambda>k. the (table k)) keys))"

text \<open>The summary of a capture's sets, in whatever order the map lists them.\<close>

lemma capture_summary:
  assumes m: "\<And>key. set_entry_of m key = measured (arrivals_of key recs) set_state_default"
    "\<And>key. ms_sets m key = None \<longleftrightarrow> arrivals_of key recs = []" "\<And>key. state_ok (set_entry_of m key)"
    and states: "lists_values states"
  shows "\<exists>sm. summarize False (states (ms_sets m)) = Inr sm \<and> length (states (ms_sets m)) = card {key. arrivals_of key recs \<noteq> []} \<and>
    sm_data_first sm + length (sm_wait_us sm) + sm_never_complete sm + sm_never_recoverable sm = card {key. arrivals_of key recs \<noteq> []} \<and>
    sm_never_recoverable sm = card {key. arrivals_of key recs \<noteq> [] \<and> card (places (arrivals_of key recs)) < 32} \<and>
    length (sm_missing sm) = length (sm_wait_us sm) \<and> (\<forall>v\<in>set (sm_missing sm). 1 \<le> v \<and> v \<le> 32)"
proof -
  have dom: "dom (ms_sets m) = {key. arrivals_of key recs \<noteq> []}" unfolding dom_def m(2) ..
  obtain keys where keys: "distinct keys" "set keys = dom (ms_sets m)" "states (ms_sets m) = map (\<lambda>k. the (ms_sets m k)) keys"
    using states arrived_keys_finite unfolding lists_values_def dom by (metis dom)
  have sets: "length keys = card {key. arrivals_of key recs \<noteq> []}" using keys(1,2) dom distinct_card by metis
  obtain sm where sm: "summarize False (map (\<lambda>k. the (ms_sets m k)) keys) = Inr sm"
    "sm_data_first sm + length (sm_wait_us sm) + sm_never_complete sm + sm_never_recoverable sm = length keys"
    "sm_never_recoverable sm = length (filter (\<lambda>k. card (places (arrivals_of k recs)) < 32) keys)"
    "length (sm_missing sm) = length (sm_wait_us sm)" "\<forall>v\<in>set (sm_missing sm). 1 \<le> v \<and> v \<le> 32"
    using summary_of_sets [OF m keys(2)] by blast
  have "length (filter (\<lambda>k. card (places (arrivals_of k recs)) < 32) keys) =
      card {key. arrivals_of key recs \<noteq> [] \<and> card (places (arrivals_of key recs)) < 32}"
    using distinct_card [OF distinct_filter [OF keys(1)], of "\<lambda>k. card (places (arrivals_of k recs)) < 32"]
    by (simp add: keys(2) dom)
  then show ?thesis using sm keys(3) sets by simp
qed

text \<open>The comparison of the two policies ends and counts every transaction in one class, whenever both passes succeed.\<close>

lemma latency_total:
  assumes opened: "reader_open open_file read_exact path = Inr reader"
    and pass: "\<And>v. \<exists>d n table. batch_times_of False B hashv r deserialize read_exact reader v = Some (Inr (d, n, table))"
  shows "\<exists>la. transaction_latency False B hashv r deserialize open_file read_exact order path = Some (Inr la) \<and>
    la_total la = la_ties la + la_only_with_recovery la + word_of_nat (length (la_deltas la))"
proof -
  obtain d1 n1 eager where eager: "batch_times_of False B hashv r deserialize read_exact reader True = Some (Inr (d1, n1, eager))"
    using pass by blast
  obtain d0 n0 waiting where waiting: "batch_times_of False B hashv r deserialize read_exact reader False = Some (Inr (d0, n0, waiting))"
    using pass by blast
  obtain la where la: "compare_policies False (order eager) waiting = Inr la"
    "la_total la = la_ties la + la_only_with_recovery la + word_of_nat (length (la_deltas la))"
    using compare_policies_total by blast
  have "transaction_latency False B hashv r deserialize open_file read_exact order path = Some (Inr la)"
    by (simp add: transaction_latency_def Let_def opened eager waiting la(1))
  with la(2) show ?thesis by blast
qed

text \<open>
  C24. The study reports. Take a capture of a leader's block in the scope of \<open>block_exactly\<close> (shreds of slots within the default lookback
  of the block's, none with an FEC set index of 32768 or more, for which the passes may panic as in C30), with receive times that leave 46 microseconds below the end
  of \<open>u64\<close>. In a build without overflow
  checks the study ends normally, whatever order its hash maps iterate in, as long as each key comes once, and prints, in this order, the summary
  with the number of packets and of FEC sets, the three distributions, the latency line, the distribution of
  the latencies and the policy sweep. Every FEC set of the capture is in one class of the summary, never
  recoverable are exactly the sets with fewer than 32 distinct places, every window comes with 1 to 32
  missing shreds, and every transaction is counted as unaffected, as faster or as delivered only with recovery.
\<close>

theorem study_reports:
  assumes env: "bit_set B" "digest32 hashv" "rs_in_place r" "\<forall>k<K. rs_decodes r (cw k)"
    and block: "leader_block slot version K leader cw" and room: "room config_default slot"
    and tr: "\<forall>x\<in>set recs. nearby_traffic config_default slot (fr_packet x)"
    and arr: "\<forall>x\<in>arrived config_default slot (map fr_packet recs). of_leader slot version K leader cw x \<and> signed_by hashv root sg x"
    and src: "byte_source read_exact left" "open_file path = Inr f" "left f = fixture_bytes recs"
    and recs: "\<forall>x\<in>set recs. length (fr_packet x) < 65536 \<and> unat (fr_unix_nanos x) + 46000 < 2 ^ 64"
    and states: "lists_values states"
  shows "\<exists>sm la wait missing span faster.
    study_main False B hashv r deserialize open_file read_exact states order percent path stdout = Some (Inr (), stdout @
      summary_lines percent (length recs) (card {key. arrivals_of key recs \<noteq> []}) sm @ wait @ missing @ span @
      latency_lines percent la @ faster @ sweep_lines percent (sm_wait_us sm)) \<and>
    print_distribution False ''eager recovery saves (us waited for the last data shred)'' (sm_wait_us sm) [] = Inr wait \<and>
    print_distribution False ''data shreds reconstructed when eager'' (sm_missing sm) [] = Inr missing \<and>
    print_distribution False ''whole set arrival span (us)'' (sm_span_us sm) [] = Inr span \<and>
    print_distribution False ''  us earlier per accelerated transaction (46us recovery cost included)'' (la_deltas la) [] = Inr faster \<and>
    sm_data_first sm + length (sm_wait_us sm) + sm_never_complete sm + sm_never_recoverable sm = card {key. arrivals_of key recs \<noteq> []} \<and>
    sm_never_recoverable sm = card {key. arrivals_of key recs \<noteq> [] \<and> card (places (arrivals_of key recs)) < 32} \<and>
    length (sm_missing sm) = length (sm_wait_us sm) \<and> (\<forall>v\<in>set (sm_missing sm). 1 \<le> v \<and> v \<le> 32) \<and>
    la_total la = la_ties la + la_only_with_recovery la + word_of_nat (length (la_deltas la))"
proof -
  obtain reader where reader: "reader_new read_exact f = (reader, Inr ())" "left reader = concat (map record_bytes recs)"
    using byte_source.reader_new_ok [OF src(1,3) [unfolded fixture_bytes_def]] by blast
  have opened: "reader_open open_file read_exact path = Inr reader" by (simp add: reader_open_def src(2) reader(1))
  have fits: "\<forall>x\<in>set recs. length (fr_packet x) < 65536" using recs by blast
  obtain m where m: "measure_capture read_exact reader = Some (Inr m)" "ms_packets m = length recs"
    "\<And>key. set_entry_of m key = measured (arrivals_of key recs) set_state_default"
    "\<And>key. ms_sets m key = None \<longleftrightarrow> arrivals_of key recs = []" "\<And>key. state_ok (set_entry_of m key)"
    using measure_bytes [OF src(1) reader(2) fits] by blast
  obtain sm where sm: "summarize False (states (ms_sets m)) = Inr sm" "length (states (ms_sets m)) = card {key. arrivals_of key recs \<noteq> []}"
    "sm_data_first sm + length (sm_wait_us sm) + sm_never_complete sm + sm_never_recoverable sm = card {key. arrivals_of key recs \<noteq> []}"
    "sm_never_recoverable sm = card {key. arrivals_of key recs \<noteq> [] \<and> card (places (arrivals_of key recs)) < 32}"
    "length (sm_missing sm) = length (sm_wait_us sm)" "\<forall>v\<in>set (sm_missing sm). 1 \<le> v \<and> v \<le> 32"
    using capture_summary [OF m(3-5) states] by blast
  have pass: "\<exists>d n table. batch_times_of False B hashv r deserialize read_exact reader v = Some (Inr (d, n, table))" for v
    using capture_runs [OF env block room tr arr, of False deserialize "length recs" v] timed_pass [OF src(1) reader(2) recs] by fastforce
  obtain la where la: "transaction_latency False B hashv r deserialize open_file read_exact order path = Some (Inr la)"
    "la_total la = la_ties la + la_only_with_recovery la + word_of_nat (length (la_deltas la))"
    using latency_total [OF opened pass] by blast
  obtain line where line: "\<And>name ws stdout. print_distribution False name ws stdout = Inr (stdout @ [line name ws])"
    using print_distribution_total by metis
  show ?thesis
    by (intro exI [of _ sm] exI [of _ la] exI conjI, unfold line append_Nil)
      (simp_all add: study_main_def opened m(1,2) sm(1,2) and_then_def line la(1) Let_def sm(3,5,6) sm(4) [symmetric] la(2))
qed

text \<open>The keys of a table of sets by slot and index, one of the orders a hash map may iterate in.\<close>

definition keys_in_order :: "(u64 \<times> u32 \<rightharpoonup> 'v) \<Rightarrow> (u64 \<times> u32) list" where
  "keys_in_order table = map (\<lambda>n. (word_of_nat (n div 2 ^ 32), word_of_nat (n mod 2 ^ 32)))
     (sorted_list_of_set ((\<lambda>(slot, i). unat slot * 2 ^ 32 + unat i) ` dom table))"

lemma keys_in_order:
  fixes table :: "u64 \<times> u32 \<rightharpoonup> 'v"
  assumes fin: "finite (dom table)"
  shows "distinct (keys_in_order table)" and "set (keys_in_order table) = dom table"
proof -
  let ?enc = "\<lambda>(slot :: u64, i :: u32). unat slot * 2 ^ 32 + unat i"
  let ?dec = "\<lambda>n. (word_of_nat (n div 2 ^ 32) :: u64, word_of_nat (n mod 2 ^ 32) :: u32)"
  have keys: "keys_in_order table = map ?dec (sorted_list_of_set (?enc ` dom table))" by (simp add: keys_in_order_def)
  have dec: "?dec (?enc k) = k" for k
  proof (cases k)
    case (Pair slot i)
    have "unat i < 2 ^ 32" using unsigned_less [of i] by simp
    then show ?thesis by (simp add: Pair)
  qed
  have "set (keys_in_order table) = (\<lambda>k. ?dec (?enc k)) ` dom table"
    using fin by (simp only: keys set_map set_sorted_list_of_set finite_imageI image_image)
  then show "set (keys_in_order table) = dom table" unfolding dec by simp
  have "inj_on ?dec (?enc ` dom table)"
  proof (rule inj_on_inverseI)
    fix x assume "x \<in> ?enc ` dom table"
    then obtain k where "x = ?enc k" by blast
    then show "?enc (?dec x) = x" using dec [of k] by (simp only:)
  qed
  then show "distinct (keys_in_order table)" using fin by (simp add: keys distinct_map)
qed

lemma lists_values_in_order: "lists_values (\<lambda>table :: u64 \<times> u32 \<rightharpoonup> 'v. map (\<lambda>k. the (table k)) (keys_in_order table))"
  unfolding lists_values_def using keys_in_order by blast

theorem study_reports_witness:
  "\<exists>printed. study_main False bits_model constant_hash (codeword_rs (block_codeword 0)) tiny_deserialize (\<lambda>_. Inr (fixture_bytes block_capture))
    slice_read_exact (\<lambda>table. map (\<lambda>k. the (table k)) (keys_in_order table)) (\<lambda>table. map (\<lambda>k. (k, the (table k))) (keys_in_order table))
    (\<lambda>n total. decimal (n * 100 div total)) () [] = Some (Inr (), printed)"
proof -
  have packets: "map fr_packet block_capture = block_packets" by (simp add: block_capture_def comp_def)
  have tr: "\<forall>x\<in>set block_capture. nearby_traffic config_default 1000 (fr_packet x)"
    using block_packets_traffic by (auto simp: block_capture_def)
  have fits: "\<forall>x\<in>set block_capture. length (fr_packet x) < 65536 \<and> unat (fr_unix_nanos x) + 46000 < 2 ^ 64"
    using block_packets_fit by (fastforce simp: block_capture_def)
  show ?thesis
    using study_reports [OF block_instance block_packets_room(1) tr block_packets_signed [folded packets] slice.byte_source_axioms,
        of "\<lambda>_. Inr (fixture_bytes block_capture)" "()" _ _ tiny_deserialize "\<lambda>table. map (\<lambda>k. (k, the (table k))) (keys_in_order table)" "\<lambda>n total. decimal (n * 100 div total)" "[]"]
      fits lists_values_in_order by blast
qed

end
