(* ===== verification/Socket.thy ===== *)
theory Socket
  imports Shred Io
begin

text \<open>
  Binding a socket and receiving datagrams in batches (\<open>src/socket.rs\<close>). The calls into the kernel are
  arguments: \<open>recvmmsg\<close> gets the packet-sized buffers and returns an error, or the buffers with the datagrams
  stored at their start and the length of each datagram; \<open>recv\<close>, for systems other than Linux, gets one
  buffer. The calls that set a socket up are the fields of \<open>socket_calls\<close>; \<open>'s\<close> is the socket's state.
\<close>

section \<open>Definitions\<close>

definition BATCH :: nat where
  "BATCH = 64"

datatype socket_addr = is_V4: V4 u32 u16 | V6 "128 word" u16 u32 u32

record 's socket_calls =
  so_new :: "bool \<Rightarrow> io_error + 's"
  so_set_recv_buffer_size :: "nat \<Rightarrow> 's \<Rightarrow> io_error + 's"
  so_bind :: "socket_addr \<Rightarrow> 's \<Rightarrow> io_error + 's"
  so_recv_buffer_size :: "'s \<Rightarrow> io_error + nat"
  so_set_read_timeout :: "nat \<Rightarrow> 's \<Rightarrow> io_error + 's"
  so_local_addr :: "'s \<Rightarrow> io_error + socket_addr"

text \<open>\<open>?\<close> on a result of the standard library.\<close>

definition try_io :: "'e + 'a \<Rightarrow> ('a \<Rightarrow> 'e + 'b) \<Rightarrow> 'e + 'b" where
  "try_io r f = (case r of Inl e \<Rightarrow> Inl e | Inr x \<Rightarrow> f x)"

text \<open>\<open>bind\<close>; the flag of the result says whether the warning about a capped buffer is logged.\<close>

definition bind_socket :: "'s socket_calls \<Rightarrow> socket_addr \<Rightarrow> nat \<Rightarrow> io_error + 's \<times> bool" where
  "bind_socket K addr recv_buffer_bytes =
     (let ipv4 = is_V4 addr in
      try_io (so_new K ipv4) (\<lambda>socket.
      try_io (so_set_recv_buffer_size K recv_buffer_bytes socket) (\<lambda>socket.
      try_io (so_bind K addr socket) (\<lambda>socket.
      try_io (so_recv_buffer_size K socket) (\<lambda>effective.
      Inr (socket, effective < recv_buffer_bytes))))))"

type_synonym recvmmsg = "bytes list \<Rightarrow> io_error + bytes list \<times> nat list"

text \<open>The loop that stores the length of message \<open>n\<close> in \<open>lens[n]\<close>.\<close>

fun store_lens :: "nat \<Rightarrow> nat list \<Rightarrow> nat list \<Rightarrow> ('e, nat \<times> nat list) outcome" where
  "store_lens n [] lens = Inr (n, lens)"
| "store_lens n (m # ms) lens = bind_out (store_at lens n m) (\<lambda>lens. store_lens (n + 1) ms lens)"

text \<open>The buffer is a whole number of packets, so \<open>chunks_mut\<close> has no short chunk.\<close>

definition recv_into :: "recvmmsg \<Rightarrow> bytes \<Rightarrow> nat list \<Rightarrow> (io_error, nat \<times> bytes \<times> nat list) outcome" where
  "recv_into recvmmsg buf lens =
     (let chunks = chunks_exact MAX_PACKET_SIZE buf in
      if length chunks < BATCH then Inl (Panic UnwrapNone)
      else case recvmmsg (take BATCH chunks) of
        Inl e \<Rightarrow> Inl (Err e)
      | Inr (filled, msgs) \<Rightarrow>
        bind_out (store_lens 0 msgs lens) (\<lambda>(n, lens).
        Inr (n, concat (filled @ drop BATCH chunks), lens)))"

text \<open>The variant for other systems; \<open>recv\<close> gives the buffer back with the datagram at its start, and its length.\<close>

type_synonym recv_one = "bytes \<Rightarrow> io_error + bytes \<times> nat"

definition recv_into_one :: "recv_one \<Rightarrow> bytes \<Rightarrow> nat list \<Rightarrow> (io_error, nat \<times> bytes \<times> nat list) outcome" where
  "recv_into_one recv buf lens =
     bind_out (slice buf 0 MAX_PACKET_SIZE) (\<lambda>chunk.
     case recv chunk of
       Inl e \<Rightarrow> Inl (Err e)
     | Inr (filled, len) \<Rightarrow> bind_out (store_at lens 0 len) (\<lambda>lens. Inr (1, filled @ drop MAX_PACKET_SIZE buf, lens)))"

text \<open>\<open>split_to\<close> panics when the buffer is shorter than a packet.\<close>

fun split_packets :: "nat list \<Rightarrow> bytes \<Rightarrow> bytes list \<Rightarrow> ('e, bytes list) outcome" where
  "split_packets [] buf out = Inr out"
| "split_packets (len # lens) buf out =
     (if length buf < MAX_PACKET_SIZE then Inl (Panic SliceOutOfBounds)
      else let packet = take MAX_PACKET_SIZE buf in
        split_packets lens (drop MAX_PACKET_SIZE buf) (out @ [take len packet]))"

text \<open>\<open>recv_batch\<close> over either variant of \<open>recv_into\<close>; \<open>recv_batch\<close> is the one of Linux.\<close>

definition recv_batch_from :: "(bytes \<Rightarrow> nat list \<Rightarrow> (io_error, nat \<times> bytes \<times> nat list) outcome) \<Rightarrow> bytes list \<Rightarrow>
    (io_error, nat \<times> bytes list) outcome" where
  "recv_batch_from into out =
     (let buf = replicate (BATCH * MAX_PACKET_SIZE) 0; lens = replicate BATCH 0 in
      case into buf lens of
        Inl (Err e) \<Rightarrow> if e \<in> {WouldBlock, TimedOut} then Inr (0, out) else Inl (Err e)
      | Inl (Panic p) \<Rightarrow> Inl (Panic p)
      | Inr (received, buf, lens) \<Rightarrow>
        bind_out (slice lens 0 received) (\<lambda>ls.
        bind_out (split_packets ls buf out) (\<lambda>out. Inr (received, out))))"

definition recv_batch :: "recvmmsg \<Rightarrow> bytes list \<Rightarrow> (io_error, nat \<times> bytes list) outcome" where
  "recv_batch recvmmsg = recv_batch_from (recv_into recvmmsg)"

section \<open>The kernel's part\<close>

text \<open>The call delivered the datagrams \<open>ds\<close>: each at the start of its buffer, none longer than one.\<close>

definition delivers :: "recvmmsg \<Rightarrow> bytes list \<Rightarrow> bool" where
  "delivers recvmmsg ds \<longleftrightarrow> (\<forall>bufs. length ds \<le> length bufs \<and> (\<forall>b\<in>set bufs. length b = MAX_PACKET_SIZE) \<longrightarrow> (\<exists>filled.
     recvmmsg bufs = Inr (filled, map length ds) \<and> length filled = length bufs \<and>
     (\<forall>i<length bufs. length (filled ! i) = length (bufs ! i)) \<and>
     (\<forall>i<length ds. take (length (ds ! i)) (filled ! i) = ds ! i)))"

lemma store_lens_all:
  "n + length ms \<le> length lens \<Longrightarrow> store_lens n ms lens = Inr (n + length ms, take n lens @ ms @ drop (n + length ms) lens)"
proof (induction ms arbitrary: n lens)
  case (Cons m ms)
  then have "n < length lens" by simp
  then have "take (Suc n) (lens[n := m]) = take n lens @ [m]" by (simp add: take_Suc_conv_app_nth)
  with Cons show ?case by (simp add: store_at_def)
qed simp

lemma split_packets_all:
  assumes "length ls \<le> length fs" and "\<forall>f\<in>set fs. length f = MAX_PACKET_SIZE"
  shows "split_packets ls (concat fs) out = Inr (out @ map2 take ls fs)"
  using assms
proof (induction ls arbitrary: fs out)
  case (Cons l ls)
  then obtain f fs' where fs: "fs = f # fs'" by (cases fs) auto
  with Cons show ?case by simp
qed simp

lemma split_packets_length: "split_packets ls buf out = Inr out' \<Longrightarrow> length out' = length out + length ls"
  by (induction ls buf out rule: split_packets.induct) (auto simp: Let_def split: if_splits)

lemma store_lens_length: "store_lens n ms lens = Inr (m, lens') \<Longrightarrow> length lens' = length lens"
  by (induction ms arbitrary: n lens) (auto simp: store_at_def split: if_splits)

lemma recv_batch_bound:
  assumes "recv_batch recvmmsg [] = Inr (n, ps)"
  shows "length ps = n" and "n \<le> 64"
proof -
  let ?buf = "replicate (BATCH * MAX_PACKET_SIZE) 0" and ?lens = "replicate BATCH 0"
  have "length ps = n \<and> n \<le> 64"
  proof (cases "recv_into recvmmsg ?buf ?lens")
    case (Inl f)
    then show ?thesis using assms by (cases f) (auto simp: recv_batch_def recv_batch_from_def Let_def split: if_splits)
  next
    case (Inr r)
    obtain m buf lens where r: "r = (m, buf, lens)" by (cases r)
    have "length lens = 64"
      using Inr store_lens_length [of 0 _ ?lens m lens]
      by (auto simp: r recv_into_def Let_def bind_out_Inr_iff BATCH_def split: if_splits sum.splits)
    moreover have "slice lens 0 n = (Inr (sub_list lens 0 n) :: (io_error, nat list) outcome)" "n \<le> length lens"
        and "split_packets (sub_list lens 0 n) buf [] = (Inr ps :: (io_error, bytes list) outcome)"
      using assms Inr by (auto simp: recv_batch_def recv_batch_from_def Let_def r bind_out_Inr_iff slice_def split: if_splits)
    ultimately show ?thesis using split_packets_length [of "sub_list lens 0 n" buf "[]" ps] by (simp add: sub_list_def)
  qed
  then show "length ps = n" and "n \<le> 64" by simp_all
qed

lemma split_packets_sizes:
  assumes "split_packets ls buf out = (Inr out' :: ('e, bytes list) outcome)" and "\<forall>p\<in>set out. length p \<le> MAX_PACKET_SIZE"
  shows "\<forall>p\<in>set out'. length p \<le> MAX_PACKET_SIZE"
  using assms
proof (induction ls arbitrary: buf out)
  case (Cons len ls)
  have run: "split_packets ls (drop MAX_PACKET_SIZE buf) (out @ [take len (take MAX_PACKET_SIZE buf)]) =
      (Inr out' :: ('e, bytes list) outcome)"
    using Cons.prems(1) by (simp add: Let_def split: if_splits)
  have "\<forall>p\<in>set (out @ [take len (take MAX_PACKET_SIZE buf)]). length p \<le> MAX_PACKET_SIZE"
    using Cons.prems(2) by simp
  with run show ?case by (rule Cons.IH)
qed simp

text \<open>No packet of a batch is longer than a packet buffer, whatever lengths the kernel reports.\<close>

lemma recv_batch_sizes:
  assumes "recv_batch recvmmsg [] = Inr (n, ps)"
  shows "\<forall>p\<in>set ps. length p \<le> MAX_PACKET_SIZE"
proof -
  let ?into = "recv_into recvmmsg (replicate (BATCH * MAX_PACKET_SIZE) 0) (replicate BATCH 0)"
  show ?thesis
  proof (cases ?into)
    case (Inl f)
    then show ?thesis using assms by (cases f) (auto simp: recv_batch_def recv_batch_from_def Let_def split: if_splits)
  next
    case (Inr r)
    obtain m buf lens where r: "r = (m, buf, lens)" by (cases r)
    have "\<exists>ls. split_packets ls buf [] = (Inr ps :: (io_error, bytes list) outcome)"
      using assms Inr by (auto simp: recv_batch_def recv_batch_from_def Let_def r bind_out_Inr_iff)
    then show ?thesis using split_packets_sizes by fastforce
  qed
qed

lemma recv_chunks: "chunks_exact MAX_PACKET_SIZE (replicate (BATCH * MAX_PACKET_SIZE) 0 :: bytes) = replicate BATCH (replicate MAX_PACKET_SIZE 0)"
proof -
  have "replicate (n * MAX_PACKET_SIZE) 0 = concat (replicate n (replicate MAX_PACKET_SIZE (0::u8)))" for n
    by (induction n) (simp_all add: replicate_add)
  then show ?thesis using chunks_exact_concat [of MAX_PACKET_SIZE "replicate BATCH (replicate MAX_PACKET_SIZE (0::u8))"]
    by simp
qed

lemma recv_batch_errors:
  "recv_batch (\<lambda>_. Inl e) out = (if e \<in> {WouldBlock, TimedOut} then Inr (0, out) else Inl (Err e))"
  by (simp add: recv_batch_def recv_batch_from_def recv_into_def recv_chunks)

lemma recv_batch_delivers:
  assumes "delivers recvmmsg ds" and "length ds \<le> 64"
  shows "recv_batch recvmmsg out = Inr (length ds, out @ ds)"
proof -
  let ?buf = "replicate (BATCH * MAX_PACKET_SIZE) 0 :: bytes" and ?lens = "replicate BATCH 0"
  have b: "length ds \<le> BATCH" using assms(2) by (simp add: BATCH_def)
  note chunks = recv_chunks
  obtain filled where filled: "recvmmsg (replicate BATCH (replicate MAX_PACKET_SIZE 0)) = Inr (filled, map length ds)"
      "length filled = BATCH" "\<forall>i<BATCH. length (filled ! i) = MAX_PACKET_SIZE" "\<forall>i<length ds. take (length (ds ! i)) (filled ! i) = ds ! i"
    using assms(1) [unfolded delivers_def, rule_format, of "replicate BATCH (replicate MAX_PACKET_SIZE 0)"] assms(2)
    by (auto simp: BATCH_def)
  have fs: "\<forall>f\<in>set filled. length f = MAX_PACKET_SIZE" using filled(2,3) by (auto simp: in_set_conv_nth)
  let ?ls = "map length ds @ replicate (BATCH - length ds) 0"
  have into: "recv_into recvmmsg ?buf ?lens = Inr (length ds, concat filled, ?ls)"
    using filled(1) b by (simp add: recv_into_def chunks store_lens_all)
  have "map2 take (map length ds) filled = ds"
    by (rule nth_equalityI) (use filled(2,4) assms(2) in \<open>auto simp: BATCH_def\<close>)
  then have "split_packets (map length ds) (concat filled) out = (Inr (out @ ds) :: (io_error, bytes list) outcome)"
    using split_packets_all [of "map length ds" filled out] fs filled(2) assms(2) by (simp add: BATCH_def)
  moreover have "slice ?ls 0 (length ds) = (Inr (map length ds) :: (io_error, nat list) outcome)"
    by (simp add: slice_def sub_list_def)
  ultimately show ?thesis by (simp add: recv_batch_def recv_batch_from_def into)
qed

text \<open>A kernel that has these datagrams queued.\<close>

definition kernel_of :: "bytes list \<Rightarrow> recvmmsg" where
  "kernel_of ds bufs = Inr (map2 (\<lambda>d b. d @ drop (length d) b) ds bufs @ drop (length ds) bufs, map length ds)"

lemma kernel_of_delivers:
  assumes "\<forall>d\<in>set ds. length d \<le> MAX_PACKET_SIZE"
  shows "delivers (kernel_of ds) ds"
proof -
  have "length ((map2 (\<lambda>d b. d @ drop (length d) b) ds bufs @ drop (length ds) bufs) ! i) = length (bufs ! i)"
    if "length ds \<le> length bufs" "\<forall>b\<in>set bufs. length b = MAX_PACKET_SIZE" "i < length bufs" for bufs :: "bytes list" and i
    using that assms by (cases "i < length ds") (auto simp: nth_append)
  then show ?thesis by (auto simp: delivers_def kernel_of_def nth_append)
qed

text \<open>The other systems' call stored the datagram \<open>d\<close> at the start of the buffer.\<close>

definition delivers_one :: "recv_one \<Rightarrow> bytes \<Rightarrow> bool" where
  "delivers_one recv d \<longleftrightarrow> length d \<le> MAX_PACKET_SIZE \<and>
     (\<forall>buf. length buf = MAX_PACKET_SIZE \<longrightarrow> recv buf = Inr (d @ drop (length d) buf, length d))"

lemma recv_batch_one:
  assumes "delivers_one recv d"
  shows "recv_batch_from (recv_into_one recv) out = Inr (1, out @ [d])"
proof -
  let ?buf = "replicate (BATCH * MAX_PACKET_SIZE) 0 :: bytes" and ?lens = "replicate BATCH 0 :: nat list"
  let ?chunk = "replicate MAX_PACKET_SIZE 0 :: bytes"
  have len: "length d \<le> MAX_PACKET_SIZE" and recv: "recv ?chunk = Inr (d @ drop (length d) ?chunk, length d)"
    using assms by (simp_all add: delivers_one_def)
  have fits: "MAX_PACKET_SIZE \<le> BATCH * MAX_PACKET_SIZE" by (simp add: BATCH_def)
  have chunk: "slice ?buf 0 MAX_PACKET_SIZE = (Inr ?chunk :: (io_error, bytes) outcome)"
    using fits by (simp add: slice_def sub_list_def min_absorb2)
  let ?filled = "(d @ drop (length d) ?chunk) @ drop MAX_PACKET_SIZE ?buf"
  have "recv_into_one recv ?buf ?lens = Inr (1, ?filled, ?lens[0 := length d])"
    by (simp add: recv_into_one_def chunk recv store_at_def BATCH_def)
  moreover have "slice (?lens[0 := length d]) 0 1 = (Inr [length d] :: (io_error, nat list) outcome)"
    by (simp add: slice_def sub_list_def BATCH_def numeral_eq_Suc)
  moreover have "split_packets [length d] ?filled out = (Inr (out @ [d]) :: (io_error, bytes list) outcome)"
    using len by (simp add: Let_def)
  ultimately show ?thesis by (simp add: recv_batch_from_def)
qed

text \<open>
  What Linux documents of the receive buffer: a request is capped at \<open>rmem_max\<close>, doubled, and raised to a
  least size; this is the size that is reported afterwards.
\<close>

definition caps_buffer :: "'s socket_calls \<Rightarrow> nat \<Rightarrow> nat \<Rightarrow> bool" where
  "caps_buffer K rmem_max least \<longleftrightarrow> (\<forall>n addr s1 s2 s3. so_set_recv_buffer_size K n s1 = Inr s2 \<and> so_bind K addr s2 = Inr s3 \<longrightarrow>
     so_recv_buffer_size K s3 = Inr (max (2 * min n rmem_max) least))"

section \<open>Properties\<close>

text \<open>
  C37. A batch is received intact: when the kernel delivers at most 64 datagrams into its
  packet-sized buffers, \<open>recv_batch\<close> does not panic, appends exactly these datagrams in their order to the output and returns
  their number; a timeout is a batch of none, and any other error is returned. On other systems a batch is
  the one datagram that \<open>recv\<close> delivers.
\<close>

theorem recv_batch_intact:
  assumes "delivers recvmmsg ds" and "length ds \<le> 64" and "e \<notin> {WouldBlock, TimedOut}" and "delivers_one recv d"
  shows "recv_batch recvmmsg out = Inr (length ds, out @ ds) \<and>
    recv_batch_from (recv_into_one recv) out = Inr (1, out @ [d]) \<and>
    recv_batch (\<lambda>_. Inl TimedOut) out = Inr (0, out) \<and> recv_batch (\<lambda>_. Inl WouldBlock) out = Inr (0, out) \<and>
    recv_batch (\<lambda>_. Inl e) out = Inl (Err e)"
  using assms(1-3) recv_batch_delivers recv_batch_errors recv_batch_one [OF assms(4)] by simp

text \<open>A kernel that delivers two small datagrams.\<close>

definition sample_kernel :: recvmmsg where
  "sample_kernel bufs = Inr (map (\<lambda>b. [7, 8] @ drop 2 b) (take 2 bufs) @ drop 2 bufs, [2, 2])"

lemma sample_kernel_delivers: "delivers sample_kernel [[7, 8], [7, 8]]"
  by (auto simp: delivers_def sample_kernel_def nth_append less_Suc_eq numeral_2_eq_2 nth_Cons split: nat.splits)

definition sample_recv_one :: recv_one where
  "sample_recv_one buf = Inr ([7, 8, 9] @ drop 3 buf, 3)"

lemma sample_delivers_one: "delivers_one sample_recv_one [7, 8, 9]"
  by (simp add: delivers_one_def sample_recv_one_def numeral_3_eq_3)

theorem recv_batch_intact_witness:
  "recv_batch sample_kernel [] = Inr (2, [[7, 8], [7, 8]]) \<and> recv_batch (\<lambda>_. Inl (OtherIo 1)) [] = Inl (Err (OtherIo 1)) \<and>
    recv_batch_from (recv_into_one sample_recv_one) [] = Inr (1, [[7, 8, 9]])"
  using recv_batch_intact [OF sample_kernel_delivers _ _ sample_delivers_one, of "OtherIo 1" "[]"] by simp

text \<open>
  C36. Binding: the calls are made in their order, each on the socket the one before has returned, and the error of the first that fails is
  the result. If none fails, on a Linux that caps requests at \<open>rmem_max\<close>, and for a request above the
  least size the kernel sets, the bound socket is returned and the warning that the buffer was capped is
  logged exactly when less than half of the request was granted: the reported size is the doubled one,
  so a request between \<open>rmem_max\<close> and twice that is capped without a warning.
\<close>

theorem bind_warns_below_half:
  "(\<forall>e. so_new K (is_V4 addr) = Inl e \<longrightarrow> bind_socket K addr n = Inl e) \<and>
    (\<forall>s1. so_new K (is_V4 addr) = Inr s1 \<longrightarrow>
      (\<forall>e. so_set_recv_buffer_size K n s1 = Inl e \<longrightarrow> bind_socket K addr n = Inl e) \<and>
      (\<forall>s2. so_set_recv_buffer_size K n s1 = Inr s2 \<longrightarrow>
        (\<forall>e. so_bind K addr s2 = Inl e \<longrightarrow> bind_socket K addr n = Inl e) \<and>
        (\<forall>s3. so_bind K addr s2 = Inr s3 \<longrightarrow>
          (\<forall>e. so_recv_buffer_size K s3 = Inl e \<longrightarrow> bind_socket K addr n = Inl e) \<and>
          (\<forall>effective. so_recv_buffer_size K s3 = Inr effective \<longrightarrow> (\<exists>warned. bind_socket K addr n = Inr (s3, warned) \<and>
             (caps_buffer K rmem_max least \<and> least < n \<longrightarrow> (warned \<longleftrightarrow> 2 * rmem_max < n)))))))"
proof -
  have "effective < n \<longleftrightarrow> 2 * rmem_max < n"
    if "so_new K (is_V4 addr) = Inr s1" "so_set_recv_buffer_size K n s1 = Inr s2" "so_bind K addr s2 = Inr s3"
      "so_recv_buffer_size K s3 = Inr effective" "caps_buffer K rmem_max least" "least < n" for s1 s2 s3 effective
  proof -
    have "effective = max (2 * min n rmem_max) least" using that by (fastforce simp: caps_buffer_def)
    then show ?thesis using that(6) by auto
  qed
  then show ?thesis by (simp add: bind_socket_def try_io_def)
qed

text \<open>A kernel that caps buffers at 100 bytes; the state of a socket is its buffer size.\<close>

definition capped_calls :: "nat socket_calls" where
  "capped_calls = \<lparr>so_new = \<lambda>_. Inr 0, so_set_recv_buffer_size = \<lambda>n _. Inr (max (2 * min n 100) 8),
     so_bind = \<lambda>_ s. Inr s, so_recv_buffer_size = Inr, so_set_read_timeout = \<lambda>_ s. Inr s, so_local_addr = \<lambda>_. Inr (V4 0 20000)\<rparr>"

theorem bind_warns_below_half_witness:
  "bind_socket capped_calls (V4 0 20000) 150 = Inr (200, False) \<and> bind_socket capped_calls (V4 0 20000) 201 = Inr (200, True) \<and>
    bind_socket (capped_calls\<lparr>so_bind := \<lambda>_ _. Inl (OtherIo 98)\<rparr>) (V4 0 20000) 150 = Inl (OtherIo 98)"
proof -
  let ?taken = "capped_calls\<lparr>so_bind := \<lambda>_ _. Inl (OtherIo 98)\<rparr>"
  have caps: "caps_buffer capped_calls 100 8" by (auto simp: caps_buffer_def capped_calls_def)
  show ?thesis
    using bind_warns_below_half [of capped_calls "V4 0 20000" 150 100 8] bind_warns_below_half [of capped_calls "V4 0 20000" 201 100 8]
      bind_warns_below_half [of ?taken "V4 0 20000" 150 100 8] caps
    by (auto simp: capped_calls_def)
qed

end
