(* ===== verification/Pipeline.thy ===== *)
theory Pipeline
  imports Deshredder Socket Fixture "HOL-Library.Sublist"
begin

text \<open>
  The two threads (\<open>src/pipeline.rs\<close>): the receiver pulls batches off the socket and offers each datagram
  to a bounded channel; the worker pushes what it takes from the channel through the deshredder and hands
  the batches to the sink. Each thread is a program counter and one function that makes its next step, and
  the pipeline interleaves their steps, in any order, with the environment: what the kernel delivers and the
  request to stop. The channel is \<open>crossbeam_channel::bounded\<close> with a capacity of at least one. The counter
  \<open>dropped\<close> is an atomic of its own that only the receiver writes, so it is a field beside the other counters.
\<close>

section \<open>Definitions\<close>

record 'a pipeline_config =
  pc_bind :: 'a
  pc_recv_buffer_bytes :: nat
  pc_channel_capacity :: nat
  pc_deshredder :: config

definition pipeline_config_new :: "'a \<Rightarrow> 'a pipeline_config" where
  "pipeline_config_new bind = \<lparr>pc_bind = bind, pc_recv_buffer_bytes = push_bit 20 64, pc_channel_capacity = push_bit 16 1,
     pc_deshredder = config_default\<rparr>"

text \<open>The sink that forwards to a channel; when its receiver is gone the batch is dropped. Waiting for room is not modelled.\<close>

record 'tx channel_sink =
  cs_queue :: "'tx entry_batch list"
  cs_closed :: bool

definition channel_sink_on_batch :: "'tx entry_batch \<Rightarrow> 'tx channel_sink \<Rightarrow> 'tx channel_sink" where
  "channel_sink_on_batch batch self = (if cs_closed self then self else self\<lparr>cs_queue := cs_queue self @ [batch]\<rparr>)"

text \<open>The program counters: the receiver checks \<open>stop\<close>, receives, or drains its batch; the worker runs until it exits or panics.\<close>

datatype rx_pc = RxCheck | RxRecv | RxSend "bytes list" | RxExit

datatype worker_pc = WorkerRun | WorkerExit | WorkerPanicked

record ('b, 'k) pipeline =
  p_stop :: bool
  p_rx :: rx_pc
  p_chan :: "bytes list"
  p_dropped :: u64
  p_worker :: worker_pc
  p_state :: "('b, 'k) replay_state"
  p_tapped :: "bytes list"
  p_received :: "bytes list"

text \<open>\<open>p_received\<close> is the history of what the kernel has delivered; no thread reads it.\<close>

definition pipeline_spawn :: "'a pipeline_config \<Rightarrow> 'k \<Rightarrow> ('b, 'k) pipeline" where
  "pipeline_spawn config sink = \<lparr>p_stop = False, p_rx = RxCheck, p_chan = [], p_dropped = 0, p_worker = WorkerRun,
     p_state = \<lparr>rp_deshredder = with_stats (pc_deshredder config) stats_default, rp_sink = sink\<rparr>,
     p_tapped = [], p_received = []\<rparr>"

text \<open>
  \<open>spawn_with_tap\<close> up to the start of the threads, which is assumed to succeed. The address is only asked for
  when the log level lets the message through (\<open>info\<close>). The tap's effect is part of the worker's body.
\<close>

definition spawn_with_tap :: "'s socket_calls \<Rightarrow> bool \<Rightarrow> socket_addr pipeline_config \<Rightarrow> 'k \<Rightarrow> io_error + 's \<times> ('b, 'k) pipeline" where
  "spawn_with_tap K info config sink =
     try_io (bind_socket K (pc_bind config) (pc_recv_buffer_bytes config)) (\<lambda>(socket, warned).
     try_io (so_set_read_timeout K 100 socket) (\<lambda>socket.
     try_io (if info then so_local_addr K socket else Inr (pc_bind config)) (\<lambda>addr.
     Inr (socket, pipeline_spawn config sink))))"

text \<open>Without a tap, there is no tap state beside the sink's.\<close>

definition spawn :: "'s socket_calls \<Rightarrow> bool \<Rightarrow> socket_addr pipeline_config \<Rightarrow> 'k \<Rightarrow> io_error + 's \<times> ('b, 't option \<times> 'k) pipeline" where
  "spawn K info config sink = spawn_with_tap K info config (None, sink)"

text \<open>\<open>Pipeline::stats\<close>.\<close>

definition pipeline_stats :: "('b, 'k) pipeline \<Rightarrow> stats" where
  "pipeline_stats s = (d_stats (rp_deshredder (p_state s)))(dropped := p_dropped s)"

text \<open>One step of \<open>receive_loop\<close>; the channel is disconnected once the worker is gone.\<close>

definition receive_step :: "nat \<Rightarrow> recvmmsg \<Rightarrow> ('b, 'k) pipeline \<Rightarrow> ('b, 'k) pipeline option" where
  "receive_step cap recvmmsg s =
     (case p_rx s of
        RxCheck \<Rightarrow> Some (s\<lparr>p_rx := if p_stop s then RxExit else RxRecv\<rparr>)
      | RxRecv \<Rightarrow>
        (case recv_batch recvmmsg [] of
           Inr (n, batch) \<Rightarrow> Some (s\<lparr>p_rx := RxSend batch, p_received := p_received s @ batch\<rparr>)
         | Inl (Err e) \<Rightarrow> Some (s\<lparr>p_rx := RxCheck\<rparr>)
         | Inl (Panic p) \<Rightarrow> Some (s\<lparr>p_rx := RxExit\<rparr>))
      | RxSend [] \<Rightarrow> Some (s\<lparr>p_rx := RxCheck\<rparr>)
      | RxSend (packet # batch) \<Rightarrow>
        if p_worker s \<noteq> WorkerRun then Some (s\<lparr>p_rx := RxExit\<rparr>)
        else if length (p_chan s) < cap then Some (s\<lparr>p_rx := RxSend batch, p_chan := p_chan s @ [packet]\<rparr>)
        else Some (s\<lparr>p_rx := RxSend batch, p_dropped := p_dropped s + 1\<rparr>)
      | RxExit \<Rightarrow> None)"

text \<open>One turn of the worker's loop; a panic drops its end of the channel with everything in it.\<close>

definition worker_step :: "(bytes \<Rightarrow> ('b, 'k) replay_state \<Rightarrow> ('b, 'k) replay_state run) \<Rightarrow> ('b, 'k) pipeline \<Rightarrow> ('b, 'k) pipeline option" where
  "worker_step work s =
     (if p_worker s \<noteq> WorkerRun then None
      else case p_chan s of
        [] \<Rightarrow> if p_rx s = RxExit then Some (s\<lparr>p_worker := WorkerExit\<rparr>) else None
      | packet # chan \<Rightarrow>
        let s = s\<lparr>p_tapped := p_tapped s @ [packet]\<rparr> in
        (case work packet (p_state s) of
           Inr st \<Rightarrow> Some (s\<lparr>p_chan := chan, p_state := st\<rparr>)
         | Inl f \<Rightarrow> Some (s\<lparr>p_chan := [], p_worker := WorkerPanicked\<rparr>)))"

text \<open>The steps of the two threads, and with them the request to stop.\<close>

inductive thread_step for cap :: nat and work where
  receiver: "receive_step cap recvmmsg s = Some s' \<Longrightarrow> thread_step cap work s s'"
| worker: "worker_step work s = Some s' \<Longrightarrow> thread_step cap work s s'"

inductive pipeline_step for cap :: nat and work where
  thread: "thread_step cap work s s' \<Longrightarrow> pipeline_step cap work s s'"
| shutdown: "pipeline_step cap work s (s\<lparr>p_stop := True\<rparr>)"

inductive_simps thread_step_iff: "thread_step cap work s s'"

inductive_simps pipeline_step_iff: "pipeline_step cap work s s'"

text \<open>What the worker does with a packet: \<open>push\<close> it and give the batches to the sink.\<close>

definition worker_body :: "bool \<Rightarrow> 'b bitset_ops \<Rightarrow> hasher \<Rightarrow> 'r reconstructor \<Rightarrow> ('w, 'tx) deserializer \<Rightarrow>
    ('tx entry_batch \<Rightarrow> 'k \<Rightarrow> 'k) \<Rightarrow> bytes \<Rightarrow> ('b, 'k) replay_state \<Rightarrow> ('b, 'k) replay_state run" where
  "worker_body oc B hashv rs deserialize on_batch packet s =
     bind_out (push oc B hashv rs deserialize packet (rp_deshredder s, [])) (\<lambda>(deshredder, out).
     Inr \<lparr>rp_deshredder = deshredder, rp_sink = fold on_batch out (rp_sink s)\<rparr>)"

text \<open>The worker with a tap: the sink's state is paired with the tap's, and the tap sees the datagram first.\<close>

definition worker_body_tap :: "bool \<Rightarrow> 'b bitset_ops \<Rightarrow> hasher \<Rightarrow> 'r reconstructor \<Rightarrow> ('w, 'tx) deserializer \<Rightarrow> (bytes \<Rightarrow> 't \<Rightarrow> 't) \<Rightarrow>
    ('tx entry_batch \<Rightarrow> 'k \<Rightarrow> 'k) \<Rightarrow> bytes \<Rightarrow> ('b, 't option \<times> 'k) replay_state \<Rightarrow> ('b, 't option \<times> 'k) replay_state run" where
  "worker_body_tap oc B hashv rs deserialize tap on_batch packet s =
     (let (t, k) = rp_sink s in
      worker_body oc B hashv rs deserialize (\<lambda>batch (t, k). (t, on_batch batch k)) packet
        (s\<lparr>rp_sink := (map_option (tap packet) t, k)\<rparr>))"

text \<open>Without a tap, the worker does with a packet what \<open>push\<close> and the sink do.\<close>

lemma fold_second: "fold (\<lambda>x (t, k). (t, f x k)) xs (t, k) = (t, fold f xs k)"
  by (induction xs arbitrary: k) simp_all

lemma worker_body_untapped:
  "worker_body_tap oc B hashv rs deserialize tap on_batch packet \<lparr>rp_deshredder = d, rp_sink = (None, k)\<rparr> =
     map_sum id (\<lambda>s. \<lparr>rp_deshredder = rp_deshredder s, rp_sink = (None, rp_sink s)\<rparr>)
       (worker_body oc B hashv rs deserialize on_batch packet \<lparr>rp_deshredder = d, rp_sink = k\<rparr>)"
  by (cases "push oc B hashv rs deserialize packet (d, [])")
    (simp_all add: worker_body_tap_def worker_body_def fold_second split: prod.split)

section \<open>Invariant\<close>

definition pending :: "rx_pc \<Rightarrow> bytes list" where
  "pending pc = (case pc of RxSend batch \<Rightarrow> batch | _ \<Rightarrow> [])"

text \<open>
  Nothing is lost unaccounted: while the worker has not panicked, what was delivered and is not among the
  packets taken by the worker, in the channel or in the receiver's batch, in this order, was dropped and counted.
\<close>

definition conserved :: "('b, 'k) pipeline \<Rightarrow> bool" where
  "conserved s \<longleftrightarrow> subseq (p_tapped s @ p_chan s @ pending (p_rx s)) (p_received s) \<and>
     p_dropped s = word_of_nat (length (p_received s) - length (p_tapped s @ p_chan s @ pending (p_rx s)))"

definition pipeline_ok :: "nat \<Rightarrow> (bytes \<Rightarrow> ('b, 'k) replay_state \<Rightarrow> ('b, 'k) replay_state run) \<Rightarrow>
    ('b, 'k) replay_state \<Rightarrow> ('b, 'k) pipeline \<Rightarrow> bool" where
  "pipeline_ok cap work init s \<longleftrightarrow> length (p_chan s) \<le> cap \<and> length (pending (p_rx s)) \<le> 64 \<and>
     (p_worker s \<noteq> WorkerPanicked \<longrightarrow> conserved s \<and> fold_out work (p_tapped s) init = Inr (p_state s)) \<and>
     (p_worker s = WorkerExit \<longrightarrow> p_chan s = [] \<and> p_rx s = RxExit)"

lemma subseq_drop_mid: "subseq (xs @ y # ys) zs \<Longrightarrow> subseq (xs @ ys) zs"
  by (meson list_emb_append_mono list_emb_Cons subseq_order.order_refl subseq_order.trans)

lemma fold_out_snoc: "fold_out f xs s = Inr t \<Longrightarrow> fold_out f (xs @ [x]) s = f x t"
  by (simp add: fold_out_append) (cases "f x t"; simp)

lemma spawn_ok: "pipeline_ok cap work (p_state (pipeline_spawn config sink)) (pipeline_spawn config sink)"
  by (simp add: pipeline_ok_def pipeline_spawn_def pending_def conserved_def)

lemma receive_step_ok:
  assumes "pipeline_ok cap work init s" and "receive_step cap recvmmsg s = Some s'"
  shows "pipeline_ok cap work init s'"
proof (cases "p_rx s")
  case (RxSend batch)
  show ?thesis
  proof (cases batch)
    case (Cons packet rest)
    let ?old = "p_tapped s @ p_chan s @ packet # rest" and ?new = "p_tapped s @ p_chan s @ rest"
    consider "p_worker s = WorkerPanicked" | "p_worker s = WorkerRun" "length (p_chan s) < cap" | (full) "p_worker s = WorkerRun" "\<not> length (p_chan s) < cap"
      using assms(1) RxSend by (cases "p_worker s") (auto simp: pipeline_ok_def)
    then show ?thesis
    proof cases
      case full
      have old: "subseq ?old (p_received s)" "p_dropped s = word_of_nat (length (p_received s) - length ?old)"
        using assms(1) RxSend Cons full by (simp_all add: pipeline_ok_def conserved_def pending_def receive_step_def worker_step_def)
      have "subseq ?new (p_received s)" using subseq_drop_mid [of "p_tapped s @ p_chan s" packet rest] old(1) by simp
      moreover have "length (p_received s) - length ?new = Suc (length (p_received s) - length ?old)"
        using list_emb_length [OF old(1)] by simp
      ultimately show ?thesis
        using assms RxSend Cons full old(2) by (auto simp: pipeline_ok_def conserved_def pending_def receive_step_def worker_step_def)
    qed (use assms RxSend Cons in \<open>auto simp: pipeline_ok_def conserved_def pending_def receive_step_def worker_step_def\<close>)
  qed (use assms RxSend in \<open>auto simp: pipeline_ok_def conserved_def pending_def receive_step_def worker_step_def\<close>)
next
  case RxRecv
  show ?thesis
  proof (cases "recv_batch recvmmsg []")
    case (Inl f)
    then show ?thesis using assms RxRecv by (cases f) (auto simp: pipeline_ok_def conserved_def pending_def receive_step_def worker_step_def)
  next
    case (Inr r)
    obtain n batch where r: "r = (n, batch)" by (cases r)
    have b: "length batch \<le> 64" using recv_batch_bound Inr r by metis
    have "subseq (xs @ zs @ batch) (ys @ batch)" if "subseq (xs @ zs) ys" for xs zs ys
      using list_emb_append_mono [OF that subseq_order.order_refl [of batch]] by simp
    then show ?thesis
      using assms RxRecv Inr r b by (auto simp: pipeline_ok_def conserved_def pending_def receive_step_def worker_step_def)
  qed
qed (use assms in \<open>auto simp: pipeline_ok_def conserved_def pending_def receive_step_def worker_step_def\<close>)

lemma worker_step_ok:
  assumes "pipeline_ok cap work init s" and "worker_step work s = Some s'"
  shows "pipeline_ok cap work init s'"
proof (cases "p_chan s")
  case Nil
  then show ?thesis using assms by (auto simp: pipeline_ok_def conserved_def pending_def receive_step_def worker_step_def split: if_splits)
next
  case (Cons packet chan)
  then have run: "p_worker s = WorkerRun" and inv: "fold_out work (p_tapped s) init = Inr (p_state s)"
    using assms by (auto simp: pipeline_ok_def worker_step_def split: if_splits)
  show ?thesis
  proof (cases "work packet (p_state s)")
    case (Inr st)
    then have "fold_out work (p_tapped s @ [packet]) init = Inr st" by (simp add: fold_out_snoc [OF inv])
    then show ?thesis using assms Cons run Inr by (auto simp: pipeline_ok_def conserved_def worker_step_def Let_def)
  qed (use assms Cons run in \<open>auto simp: pipeline_ok_def worker_step_def Let_def\<close>)
qed

lemma pipeline_step_ok:
  assumes "pipeline_step cap work s s'" and "pipeline_ok cap work init s"
  shows "pipeline_ok cap work init s'"
proof -
  consider recvmmsg where "receive_step cap recvmmsg s = Some s'" | "worker_step work s = Some s'" | "s' = s\<lparr>p_stop := True\<rparr>"
    using assms(1) unfolding pipeline_step_iff thread_step_iff by blast
  then show ?thesis
  proof cases
    case 3
    then show ?thesis using assms(2) by (simp add: pipeline_ok_def conserved_def)
  qed (rule receive_step_ok [OF assms(2)] worker_step_ok [OF assms(2)], assumption)+
qed

lemma reachable_ok:
  "(pipeline_step cap work)\<^sup>*\<^sup>* (pipeline_spawn config sink) s \<Longrightarrow>
    pipeline_ok cap work (p_state (pipeline_spawn config sink)) s"
  by (induction rule: rtranclp_induct) (auto intro: spawn_ok pipeline_step_ok)

text \<open>Every datagram received fits a packet buffer.\<close>

lemma received_sizes:
  "(pipeline_step cap work)\<^sup>*\<^sup>* (pipeline_spawn config sink) s \<Longrightarrow> \<forall>p\<in>set (p_received s). length p \<le> MAX_PACKET_SIZE"
proof (induction rule: rtranclp_induct)
  case base
  then show ?case by (simp add: pipeline_spawn_def)
next
  case (step s s')
  from step.hyps(2) consider recvmmsg where "receive_step cap recvmmsg s = Some s'" | "worker_step work s = Some s'" | "s' = s\<lparr>p_stop := True\<rparr>"
    unfolding pipeline_step_iff thread_step_iff by blast
  then show ?case
  proof cases
    case (1 recvmmsg)
    then have "p_received s' = p_received s \<or> (\<exists>n batch. recv_batch recvmmsg [] = Inr (n, batch) \<and> p_received s' = p_received s @ batch)"
      by (auto simp: receive_step_def split: rx_pc.splits sum.splits fault.splits list.splits if_splits)
    then show ?thesis using step.IH recv_batch_sizes by fastforce
  next
    case 2
    then have "p_received s' = p_received s" by (auto simp: worker_step_def Let_def split: if_splits list.splits sum.splits)
    then show ?thesis using step.IH by simp
  qed (use step.IH in simp)
qed

text \<open>If pushing any of the received datagrams succeeds, the worker does not panic.\<close>

lemma never_panics:
  assumes "(pipeline_step cap work)\<^sup>*\<^sup>* (pipeline_spawn config sink) s"
    and "\<And>ps. set ps \<subseteq> set (p_received s) \<Longrightarrow> \<exists>t. fold_out work ps (p_state (pipeline_spawn config sink)) = Inr t"
  shows "p_worker s \<noteq> WorkerPanicked"
  using assms
proof (induction rule: rtranclp_induct)
  case base
  then show ?case by (simp add: pipeline_spawn_def)
next
  case (step s s')
  let ?init = "p_state (pipeline_spawn config sink)"
  note inv = reachable_ok [OF step.hyps(1), unfolded pipeline_ok_def conserved_def]
  consider recvmmsg where "receive_step cap recvmmsg s = Some s'" | "worker_step work s = Some s'" | "s' = s\<lparr>p_stop := True\<rparr>"
    using step.hyps(2) unfolding pipeline_step_iff thread_step_iff by blast
  then show ?case
  proof cases
    case (1 recvmmsg)
    then have "set (p_received s) \<subseteq> set (p_received s') \<and> p_worker s' = p_worker s"
      by (auto simp: receive_step_def split: rx_pc.splits sum.splits fault.splits list.splits if_splits)
    then show ?thesis using step.IH step.prems by auto
  next
    case 2
    then have received: "p_received s' = p_received s"
      by (auto simp: worker_step_def Let_def split: if_splits list.splits sum.splits)
    then have run: "p_worker s \<noteq> WorkerPanicked" using step.IH step.prems by simp
    show ?thesis
    proof (cases "p_chan s")
      case Nil
      then show ?thesis using 2 run by (auto simp: worker_step_def split: if_splits)
    next
      case (Cons packet chan)
      have "subseq (p_tapped s @ p_chan s @ pending (p_rx s)) (p_received s)" "fold_out work (p_tapped s) ?init = Inr (p_state s)"
        using inv run by blast+
      then have "set (p_tapped s @ [packet]) \<subseteq> set (p_received s')"
        unfolding received using Cons by (auto elim: list_emb_set)
      then obtain t where "fold_out work (p_tapped s @ [packet]) ?init = Inr t" using step.prems by blast
      then have "work packet (p_state s) = Inr t" using \<open>fold_out work (p_tapped s) ?init = Inr (p_state s)\<close> by (simp add: fold_out_snoc)
      then show ?thesis using 2 Cons run by (auto simp: worker_step_def Let_def split: if_splits)
    qed
  qed (use step in simp)
qed

section \<open>Shutdown\<close>

text \<open>How many thread steps are left once stop has been requested.\<close>

definition steps_left :: "('b, 'k) pipeline \<Rightarrow> nat" where
  "steps_left s = (case p_rx s of RxExit \<Rightarrow> 0 | RxCheck \<Rightarrow> 1 | RxSend batch \<Rightarrow> 2 + 2 * length batch | RxRecv \<Rightarrow> 131) +
     length (p_chan s) + (if p_worker s = WorkerRun then 1 else 0)"

lemma thread_step_left:
  assumes "p_stop s" and "thread_step cap work s s'"
  shows "p_stop s' \<and> steps_left s' < steps_left s"
  using assms(2) unfolding thread_step_iff
proof (elim disjE exE)
  fix recvmmsg assume receiver: "receive_step cap recvmmsg s = Some s'"
  show ?thesis
  proof (cases "p_rx s")
    case RxRecv
    then show ?thesis
    proof (cases "recv_batch recvmmsg []")
      case (Inl f)
      then show ?thesis using receiver RxRecv assms(1) by (cases f) (auto simp: steps_left_def receive_step_def worker_step_def)
    next
      case (Inr r)
      obtain n batch where r: "r = (n, batch)" by (cases r)
      have "length batch \<le> 64" using recv_batch_bound Inr r by metis
      then show ?thesis using receiver RxRecv Inr r assms(1) by (auto simp: steps_left_def receive_step_def worker_step_def)
    qed
  next
    case (RxSend batch)
    then show ?thesis using receiver assms(1) by (cases batch) (auto simp: steps_left_def receive_step_def worker_step_def split: if_splits)
  qed (use receiver assms(1) in \<open>auto simp: steps_left_def receive_step_def worker_step_def\<close>)
next
  assume "worker_step work s = Some s'"
  then show ?thesis using assms(1)
    by (auto simp: steps_left_def receive_step_def worker_step_def Let_def split: if_splits list.splits sum.splits)
qed

lemma thread_steps_left:
  assumes "p_stop s" and "(thread_step cap work ^^ n) s s'"
  shows "n + steps_left s' \<le> steps_left s"
  using assms
proof (induction n arbitrary: s)
  case (Suc n)
  then obtain s1 where s1: "thread_step cap work s s1" "(thread_step cap work ^^ n) s1 s'"
    by (meson relpowp_Suc_D2)
  from thread_step_left [OF Suc.prems(1) s1(1)] Suc.IH [OF _ s1(2)] show ?case by simp
qed simp

text \<open>A thread that has not exited can make a step, or waits for the other.\<close>

lemma threads_progress:
  assumes "\<nexists>s'. thread_step cap work s s'"
  shows "p_rx s = RxExit" and "p_worker s \<noteq> WorkerRun"
proof -
  show rx: "p_rx s = RxExit"
  proof (rule ccontr)
    assume "p_rx s \<noteq> RxExit"
    then have "\<exists>s'. receive_step cap (\<lambda>_. Inl TimedOut) s = Some s'"
      by (auto simp: receive_step_def split: rx_pc.splits list.splits sum.splits fault.splits)
    then show False using assms thread_step.receiver by blast
  qed
  show "p_worker s \<noteq> WorkerRun"
  proof
    assume "p_worker s = WorkerRun"
    then have "\<exists>s'. worker_step work s = Some s'"
      using rx by (auto simp: worker_step_def Let_def split: list.splits sum.splits)
    then show False using assms thread_step.worker by blast
  qed
qed

lemma worker_body_replay: "worker_body oc B hashv rs deserialize on_batch = replay_packet oc B hashv rs deserialize on_batch"
  by (rule ext, rule ext) (simp add: worker_body_def replay_packet_def)

text \<open>What the worker has done is the fold of \<open>push\<close>, and the sink has seen the batches in their order.\<close>

lemma worker_fold:
  assumes "fold_out (worker_body oc B hashv rs deserialize on_batch) ps s = Inr s'"
  shows "\<exists>bs. fold_out (push oc B hashv rs deserialize) ps (rp_deshredder s, []) = Inr (rp_deshredder s', bs) \<and>
    rp_sink s' = fold on_batch bs (rp_sink s)"
proof (cases "fold_out (push oc B hashv rs deserialize) ps (rp_deshredder s, [])")
  case (Inr r)
  obtain d bs where r: "r = (d, bs)" by (cases r)
  from replay_packets [of oc B hashv rs deserialize ps s d bs on_batch] Inr r assms show ?thesis
    unfolding worker_body_replay by auto
next
  case (Inl f)
  have "\<exists>g. fold_out (replay_packet oc B hashv rs deserialize on_batch) ps s = Inl g"
    using Inl
  proof (induction ps arbitrary: s f)
    case (Cons p ps)
    show ?case
    proof (cases "push oc B hashv rs deserialize p (rp_deshredder s, [])")
      case (Inr r)
      obtain d new where r: "r = (d, new)" by (cases r)
      have "\<exists>g. fold_out (push oc B hashv rs deserialize) ps (d, []) = Inl g"
        using Cons.prems Inr r pushes_append [of oc B hashv rs deserialize ps d new]
        by (cases "fold_out (push oc B hashv rs deserialize) ps (d, [])") auto
      then obtain g where "fold_out (push oc B hashv rs deserialize) ps (d, []) = Inl g" by blast
      then show ?thesis using Cons.IH [of "\<lparr>rp_deshredder = d, rp_sink = fold on_batch new (rp_sink s)\<rparr>" g] Inr r
        by (auto simp: replay_packet_def)
    qed (simp add: replay_packet_def)
  qed simp
  then show ?thesis using assms unfolding worker_body_replay by simp
qed

text \<open>A batch can flow through: the run in which the receiver sends all of it before the worker takes it.\<close>

lemma receiver_steps: "receive_step cap recvmmsg s = Some s' \<Longrightarrow> (pipeline_step cap work)\<^sup>*\<^sup>* s' t \<Longrightarrow> (pipeline_step cap work)\<^sup>*\<^sup>* s t"
  by (meson converse_rtranclp_into_rtranclp pipeline_step.thread thread_step.receiver)

lemma worker_steps: "worker_step work s = Some s' \<Longrightarrow> (pipeline_step cap work)\<^sup>*\<^sup>* s' t \<Longrightarrow> (pipeline_step cap work)\<^sup>*\<^sup>* s t"
  by (meson converse_rtranclp_into_rtranclp pipeline_step.thread thread_step.worker)

lemma sends:
  assumes "p_rx s = RxSend ps" and "p_worker s = WorkerRun" and "length (p_chan s) + length ps \<le> cap"
  shows "(pipeline_step cap work)\<^sup>*\<^sup>* s (s\<lparr>p_rx := RxSend [], p_chan := p_chan s @ ps\<rparr>)"
  using assms
proof (induction ps arbitrary: s)
  case Nil
  then have "s\<lparr>p_rx := RxSend [], p_chan := p_chan s @ []\<rparr> = s" by simp
  then show ?case by simp
next
  case (Cons p ps)
  let ?s = "s\<lparr>p_rx := RxSend ps, p_chan := p_chan s @ [p]\<rparr>"
  have "receive_step cap recvmmsg s = Some ?s" for recvmmsg using Cons.prems by (simp add: receive_step_def)
  from receiver_steps [OF this Cons.IH [of ?s]] Cons.prems show ?case by simp
qed

lemma works:
  assumes "p_chan s = ps" and "p_worker s = WorkerRun" and "fold_out work ps (p_state s) = Inr t"
  shows "(pipeline_step cap work)\<^sup>*\<^sup>* s (s\<lparr>p_chan := [], p_tapped := p_tapped s @ ps, p_state := t\<rparr>)"
  using assms
proof (induction ps arbitrary: s)
  case Nil
  then have "s\<lparr>p_chan := [], p_tapped := p_tapped s @ [], p_state := t\<rparr> = s" by simp
  then show ?case by simp
next
  case (Cons p ps)
  then obtain st where st: "work p (p_state s) = Inr st" "fold_out work ps st = Inr t" by (auto simp: bind_out_Inr_iff)
  let ?s = "s\<lparr>p_chan := ps, p_tapped := p_tapped s @ [p], p_state := st\<rparr>"
  have "worker_step work s = Some ?s" using Cons.prems st(1) by (simp add: worker_step_def Let_def)
  from worker_steps [OF this Cons.IH [of ?s]] Cons.prems st(2) show ?case by simp
qed

lemma batch_flows:
  fixes work :: "bytes \<Rightarrow> ('b, 'k) replay_state \<Rightarrow> ('b, 'k) replay_state run"
  assumes "delivers recvmmsg ds" and "length ds \<le> 64" and "length ds \<le> cap"
    and "fold_out work ds (p_state (pipeline_spawn config sink)) = Inr t"
  shows "\<exists>s. (pipeline_step cap work)\<^sup>*\<^sup>* (pipeline_spawn config sink) s \<and> p_state s = t \<and> p_received s = ds \<and> p_tapped s = ds \<and>
    p_dropped s = 0 \<and> p_worker s = WorkerExit"
proof -
  let ?s0 = "pipeline_spawn config sink :: ('b, 'k) pipeline"
  let ?s1 = "?s0\<lparr>p_rx := RxRecv\<rparr>"
  let ?s2 = "?s0\<lparr>p_rx := RxSend ds, p_received := ds\<rparr>"
  let ?s3 = "?s2\<lparr>p_rx := RxSend [], p_chan := p_chan ?s2 @ ds\<rparr>"
  let ?s4 = "?s3\<lparr>p_chan := [], p_tapped := p_tapped ?s3 @ ds, p_state := t\<rparr>"
  let ?s5 = "?s4\<lparr>p_rx := RxCheck\<rparr>"
  let ?s6 = "?s5\<lparr>p_stop := True\<rparr>"
  let ?s7 = "?s6\<lparr>p_rx := RxExit\<rparr>"
  let ?s8 = "?s7\<lparr>p_worker := WorkerExit\<rparr>"
  have recv: "recv_batch recvmmsg [] = Inr (length ds, ds)" using recv_batch_delivers [OF assms(1,2), of "[]"] by simp
  have "receive_step cap recvmmsg ?s0 = Some ?s1" "receive_step cap recvmmsg ?s1 = Some ?s2"
    by (simp_all add: receive_step_def pipeline_spawn_def recv)
  moreover have "(pipeline_step cap work)\<^sup>*\<^sup>* ?s2 ?s3" by (rule sends) (use assms(3) in \<open>simp_all add: pipeline_spawn_def\<close>)
  moreover have "(pipeline_step cap work)\<^sup>*\<^sup>* ?s3 ?s4" by (rule works) (use assms(4) in \<open>simp_all add: pipeline_spawn_def\<close>)
  moreover have "receive_step cap recvmmsg ?s4 = Some ?s5" "receive_step cap recvmmsg ?s6 = Some ?s7" "worker_step work ?s7 = Some ?s8"
    by (simp_all add: receive_step_def worker_step_def pipeline_spawn_def)
  moreover have "pipeline_step cap work ?s5 ?s6" by (rule pipeline_step.shutdown)
  ultimately have "(pipeline_step cap work)\<^sup>*\<^sup>* ?s0 ?s8"
    by (meson converse_rtranclp_into_rtranclp receiver_steps rtranclp.rtrancl_refl rtranclp_trans worker_steps)
  then show ?thesis by (intro exI [of _ ?s8]) (simp add: pipeline_spawn_def)
qed

text \<open>The tap and the sink do not disturb each other.\<close>

lemma fold_pair: "fold (\<lambda>x (t, k). (t, f x k)) xs (t, k) = (t, fold f xs k)"
  by (induction xs arbitrary: k) simp_all

lemma worker_body_tap_push:
  "worker_body_tap oc B hashv rs deserialize tap on_batch p s =
    bind_out (push oc B hashv rs deserialize p (rp_deshredder s, [])) (\<lambda>(d, new).
    Inr \<lparr>rp_deshredder = d, rp_sink = (map_option (tap p) (fst (rp_sink s)), fold on_batch new (snd (rp_sink s)))\<rparr>)"
  by (simp add: worker_body_tap_def worker_body_def fold_pair split: prod.split)

lemma worker_fold_tap:
  assumes "fold_out (worker_body_tap oc B hashv rs deserialize tap on_batch) ps s = Inr s'"
  shows "fst (rp_sink s') = map_option (fold tap ps) (fst (rp_sink s)) \<and>
    (\<exists>bs. fold_out (push oc B hashv rs deserialize) ps (rp_deshredder s, []) = Inr (rp_deshredder s', bs) \<and>
      snd (rp_sink s') = fold on_batch bs (snd (rp_sink s)))"
  using assms
proof (induction ps arbitrary: s)
  case Nil
  then show ?case by (cases "fst (rp_sink s)") auto
next
  case (Cons p ps)
  obtain t k where tk: "rp_sink s = (t, k)" by fastforce
  obtain d new where push: "push oc B hashv rs deserialize p (rp_deshredder s, []) = Inr (d, new)"
      and rest: "fold_out (worker_body_tap oc B hashv rs deserialize tap on_batch) ps
        \<lparr>rp_deshredder = d, rp_sink = (map_option (tap p) t, fold on_batch new k)\<rparr> = Inr s'"
    using Cons.prems tk unfolding fold_out.simps worker_body_tap_push by (auto simp: bind_out_Inr_iff)
  from Cons.IH [OF rest] obtain bs where ih: "fst (rp_sink s') = map_option (fold tap ps) (map_option (tap p) t)"
      "fold_out (push oc B hashv rs deserialize) ps (d, []) = Inr (rp_deshredder s', bs)"
      "snd (rp_sink s') = fold on_batch bs (fold on_batch new k)"
    by auto
  have "fold_out (push oc B hashv rs deserialize) (p # ps) (rp_deshredder s, []) = Inr (rp_deshredder s', new @ bs)"
    using pushes_append [of oc B hashv rs deserialize ps d new] ih(2) by (simp add: push)
  then show ?case using ih(1,3) tk by (cases t) auto
qed

section \<open>Properties\<close>

text \<open>
  C14. Whatever the kernel delivers and however the two threads interleave, with or without a shutdown: the
  channel never exceeds its capacity, and as long as the worker has not panicked, the datagrams the worker
  has taken, those in the channel and those in the receiver's batch are, in this order, a subsequence of
  what was delivered; the rest was dropped and is counted exactly; the worker's deshredder is in the state
  that pushing the taken datagrams in this order produces, and the sink has got exactly the batches of
  these pushes in their order.
\<close>

theorem pipeline_conserves:
  assumes "(pipeline_step cap (worker_body oc B hashv rs deserialize on_batch))\<^sup>*\<^sup>* (pipeline_spawn config sink) s"
  shows "length (p_chan s) \<le> cap \<and> (p_worker s \<noteq> WorkerPanicked \<longrightarrow>
    subseq (p_tapped s @ p_chan s @ pending (p_rx s)) (p_received s) \<and>
    pipeline_stats s dropped = word_of_nat (length (p_received s) - length (p_tapped s @ p_chan s @ pending (p_rx s))) \<and>
    (\<exists>bs. fold_out (push oc B hashv rs deserialize) (p_tapped s) (with_stats (pc_deshredder config) stats_default, []) =
        Inr (rp_deshredder (p_state s), bs) \<and> rp_sink (p_state s) = fold on_batch bs sink))"
proof -
  note ok = reachable_ok [OF assms, unfolded pipeline_ok_def]
  have "\<exists>bs. fold_out (push oc B hashv rs deserialize) (p_tapped s) (with_stats (pc_deshredder config) stats_default, []) =
        Inr (rp_deshredder (p_state s), bs) \<and> rp_sink (p_state s) = fold on_batch bs sink" if "p_worker s \<noteq> WorkerPanicked"
    using worker_fold [of oc B hashv rs deserialize on_batch "p_tapped s" "p_state (pipeline_spawn config sink)" "p_state s"] ok that
    by (simp add: pipeline_spawn_def)
  then show ?thesis using ok by (simp add: conserved_def pipeline_stats_def)
qed

text \<open>
  C21. Shutdown terminates and drains: once stop is requested, any run of the two threads has at most
  \<open>steps_left\<close> steps, whatever the kernel still delivers; and when neither thread can make a step, the receiver has
  exited and the worker has exited or panicked; and if it exited, the channel and the receiver's batch are empty, so every
  datagram ever delivered was pushed or is counted as dropped. (A worker that panicked, as in C30, leaves the datagrams that were
  in its channel uncounted.)
\<close>

theorem shutdown_drains:
  assumes "(pipeline_step cap work)\<^sup>*\<^sup>* (pipeline_spawn config sink) s" and "p_stop s"
    and "(thread_step cap work ^^ n) s s'"
  shows "n \<le> steps_left s \<and> ((\<nexists>s2. thread_step cap work s' s2) \<longrightarrow>
    p_rx s' = RxExit \<and> p_worker s' \<noteq> WorkerRun \<and> (p_worker s' = WorkerExit \<longrightarrow> p_chan s' = [] \<and>
      subseq (p_tapped s') (p_received s') \<and>
      p_dropped s' = word_of_nat (length (p_received s') - length (p_tapped s'))))"
proof -
  have "(pipeline_step cap work)\<^sup>*\<^sup>* s s'"
    using assms(3) by (auto dest!: relpowp_imp_rtranclp elim: rtranclp_mono [THEN predicate2D, rotated] intro: pipeline_step.thread)
  with assms(1) have "(pipeline_step cap work)\<^sup>*\<^sup>* (pipeline_spawn config sink) s'" by (rule rtranclp_trans)
  note ok = reachable_ok [OF this, unfolded pipeline_ok_def conserved_def]
  have "n \<le> steps_left s" using thread_steps_left [OF assms(2,3)] by simp
  moreover have "p_rx s' = RxExit \<and> p_worker s' \<noteq> WorkerRun" if "\<nexists>s2. thread_step cap work s' s2"
    using threads_progress [OF that] by simp
  ultimately show ?thesis using ok by (auto simp: pending_def)
qed

text \<open>A run: the receiver receives two datagrams, the channel of one takes the first and the second is dropped.\<close>

abbreviation sample_work :: "bytes \<Rightarrow> (nat \<times> nat set, unit entry_batch list) replay_state \<Rightarrow> (nat \<times> nat set, unit entry_batch list) replay_state run" where
  "sample_work \<equiv> worker_body True bits_model sample_hash (codeword_rs sample_codeword) (\<lambda>_. Inl ()) (\<lambda>b k. b # k)"

definition sample_spawn :: "(nat \<times> nat set, unit entry_batch list) pipeline" where
  "sample_spawn = pipeline_spawn (pipeline_config_new ()) []"

definition sample_dropped :: "(nat \<times> nat set, unit entry_batch list) pipeline" where
  "sample_dropped = sample_spawn\<lparr>p_rx := RxSend [], p_chan := [[7, 8]], p_dropped := 1, p_received := [[7, 8], [7, 8]]\<rparr>"

lemma sample_recv: "recv_batch sample_kernel [] = Inr (2, [[7, 8], [7, 8]])"
  using recv_batch_delivers [OF sample_kernel_delivers] by simp

lemma sample_run: "(pipeline_step 1 sample_work)\<^sup>*\<^sup>* sample_spawn sample_dropped"
proof -
  let ?s1 = "sample_spawn\<lparr>p_rx := RxRecv\<rparr>"
  let ?s2 = "sample_spawn\<lparr>p_rx := RxSend [[7, 8], [7, 8]], p_received := [[7, 8], [7, 8]]\<rparr>"
  let ?s3 = "sample_spawn\<lparr>p_rx := RxSend [[7, 8]], p_chan := [[7, 8]], p_received := [[7, 8], [7, 8]]\<rparr>"
  have step: "pipeline_step 1 sample_work s s'" if "receive_step 1 sample_kernel s = Some s'" for s s'
    using that by (intro pipeline_step.thread thread_step.receiver)
  have "pipeline_step 1 sample_work sample_spawn ?s1" "pipeline_step 1 sample_work ?s1 ?s2"
    "pipeline_step 1 sample_work ?s2 ?s3" "pipeline_step 1 sample_work ?s3 sample_dropped"
    by (rule step, simp add: receive_step_def sample_spawn_def sample_dropped_def pipeline_spawn_def sample_recv; fail)+
  then show ?thesis by (meson converse_rtranclp_into_rtranclp rtranclp.rtrancl_refl)
qed

theorem pipeline_conserves_witness:
  "(pipeline_step 1 sample_work)\<^sup>*\<^sup>* (pipeline_spawn (pipeline_config_new ()) []) sample_dropped \<and>
    subseq (p_tapped sample_dropped @ p_chan sample_dropped @ pending (p_rx sample_dropped)) (p_received sample_dropped) \<and>
    pipeline_stats sample_dropped dropped = 1"
  using pipeline_conserves [OF sample_run [unfolded sample_spawn_def]] sample_run [unfolded sample_spawn_def]
  by (simp add: sample_dropped_def sample_spawn_def pipeline_spawn_def pending_def pipeline_stats_def)

text \<open>Stopped there, the threads make four more steps: the receiver exits, the worker pushes the one datagram and exits.\<close>

lemma sample_work_short:
  "sample_work [7, 8] t = Inr \<lparr>rp_deshredder = (rp_deshredder t)\<lparr>d_stats := inc invalid (inc packets (d_stats (rp_deshredder t)))\<rparr>, rp_sink = rp_sink t\<rparr>"
proof -
  have "parse [7, 8] = Inl (Err (TooShort 2))" by (simp add: parse_def get_at_def)
  then show ?thesis by (simp add: worker_body_def push_def push_raw_early)
qed

theorem shutdown_drains_witness:
  "\<exists>s'. (thread_step 1 sample_work ^^ 4) (sample_dropped\<lparr>p_stop := True\<rparr>) s' \<and> 4 \<le> steps_left (sample_dropped\<lparr>p_stop := True\<rparr>) \<and>
    (\<nexists>s2. thread_step 1 sample_work s' s2) \<and> p_rx s' = RxExit \<and> p_worker s' = WorkerExit \<and> p_chan s' = [] \<and>
    p_tapped s' = [[7, 8]] \<and> p_received s' = [[7, 8], [7, 8]] \<and> p_dropped s' = 1"
proof -
  let ?s = "sample_dropped\<lparr>p_stop := True\<rparr>" and ?t = "p_state sample_spawn"
  let ?t' = "\<lparr>rp_deshredder = (rp_deshredder ?t)\<lparr>d_stats := inc invalid (inc packets (d_stats (rp_deshredder ?t)))\<rparr>, rp_sink = rp_sink ?t\<rparr>"
  let ?s1 = "?s\<lparr>p_rx := RxCheck\<rparr>" and ?s2 = "?s\<lparr>p_rx := RxExit\<rparr>"
  let ?s3 = "?s2\<lparr>p_tapped := [[7, 8]], p_chan := [], p_state := ?t'\<rparr>"
  let ?s4 = "?s3\<lparr>p_worker := WorkerExit\<rparr>"
  have start: "(pipeline_step 1 sample_work)\<^sup>*\<^sup>* (pipeline_spawn (pipeline_config_new ()) []) ?s"
    using sample_run [unfolded sample_spawn_def] pipeline_step.shutdown by (rule rtranclp.rtrancl_into_rtrancl)
  have fields: "p_worker sample_dropped = WorkerRun" "p_chan sample_dropped = [[7, 8]]" "p_tapped sample_dropped = []"
      "p_state sample_dropped = ?t" "p_rx sample_dropped = RxSend []"
    by (simp_all add: sample_dropped_def sample_spawn_def pipeline_spawn_def)
  have rx: "thread_step 1 sample_work ?s ?s1" "thread_step 1 sample_work ?s1 ?s2"
    by (rule thread_step.receiver [of _ sample_kernel], simp add: receive_step_def fields)+
  have worker: "thread_step 1 sample_work ?s2 ?s3" "thread_step 1 sample_work ?s3 ?s4"
    by (rule thread_step.worker, simp add: worker_step_def fields sample_work_short)+
  have "(thread_step 1 sample_work ^^ Suc (Suc (Suc (Suc 0)))) ?s ?s4"
    by (rule relpowp_Suc_I, rule relpowp_Suc_I, rule relpowp_Suc_I, rule relpowp_Suc_I, rule relpowp_0_I,
        rule rx(1), rule rx(2), rule worker(1), rule worker(2))
  moreover have "Suc (Suc (Suc (Suc 0))) = 4" by simp
  ultimately have run: "(thread_step 1 sample_work ^^ 4) ?s ?s4" by metis
  have stuck: "\<nexists>s2. thread_step 1 sample_work ?s4 s2"
    by (auto simp: thread_step_iff receive_step_def worker_step_def)
  from shutdown_drains [OF start _ run] stuck have "4 \<le> steps_left ?s" "p_dropped ?s4 = word_of_nat (length (p_received ?s4) - length (p_tapped ?s4))"
    by simp_all
  moreover have "p_received ?s4 = [[7, 8], [7, 8]]" by (simp add: sample_dropped_def)
  ultimately show ?thesis using run stuck by (intro exI [of _ ?s4]) simp
qed

end
