(* ===== verification/Cli.thy ===== *)
theory Cli
  imports Pipeline Text
begin

text \<open>
  The command line front end (\<open>src/bin/deshred.rs\<close>): what it prints of batches and counters, the command that
  replays a fixture, and the command that listens on a port, whose main thread polls a stop flag beside the two
  threads of the pipeline. Standard output is the list of the lines printed to it. The texts of a transaction's
  version and signature are \<open>solana_transaction\<close>'s, so they are arguments; parsing the command line is left out.
\<close>

section \<open>Printing\<close>

datatype print = Batches | Transactions | PrintNone

record ('tx, 'sg) transaction_text =
  tt_version :: "'tx \<Rightarrow> string"
  tt_signatures :: "'tx \<Rightarrow> 'sg list"
  tt_signature :: "'sg \<Rightarrow> string"

definition batch_line :: "'tx entry_batch \<Rightarrow> string" where
  "batch_line batch =
     ''slot '' @ decimal (unat (eb_slot batch)) @ '' shreds '' @ decimal (unat (eb_start batch)) @ ''..='' @
     decimal (unat (eb_end batch)) @ '' entries '' @ decimal (length (eb_entries batch)) @ '' txs '' @
     decimal (num_transactions batch) @ (if eb_last_in_slot batch then '' (last in slot)'' else [])"

definition transaction_line :: "('tx, 'sg) transaction_text \<Rightarrow> 'tx \<Rightarrow> string" where
  "transaction_line T tx =
     (let signature = (case tt_signatures T tx of [] \<Rightarrow> [] | first # _ \<Rightarrow> tt_signature T first) in
      ''  '' @ tt_version T tx @ '' '' @ signature)"

definition print_batch :: "('tx, 'sg) transaction_text \<Rightarrow> print \<Rightarrow> 'tx entry_batch \<Rightarrow> string list \<Rightarrow> string list" where
  "print_batch T print batch stdout =
     (if print = PrintNone then stdout
      else let stdout = stdout @ [batch_line batch] in
        if print = Transactions
        then fold (\<lambda>entry. fold (\<lambda>tx stdout. stdout @ [transaction_line T tx]) (en_transactions entry)) (eb_entries batch) stdout
        else stdout)"

definition stats_line :: "stats \<Rightarrow> string" where
  "stats_line st =
     (let s = snapshot st in
      ''stats: packets '' @ decimal (unat (s packets)) @ '' invalid '' @ decimal (unat (s invalid)) @
      '' wrong_version '' @ decimal (unat (s wrong_version)) @ '' stale '' @ decimal (unat (s stale)) @
      '' dup '' @ decimal (unat (s duplicates)) @ '' unneeded '' @ decimal (unat (s unneeded)) @
      '' rejected '' @ decimal (unat (s rejected)) @ '' recovered '' @ decimal (unat (s recovered)) @
      '' recovery_failures '' @ decimal (unat (s recovery_failures)) @ '' batches '' @ decimal (unat (s batches)) @
      '' markers '' @ decimal (unat (s block_markers)) @ '' decode_errors '' @ decimal (unat (s decode_errors)) @
      '' entries '' @ decimal (unat (s entries_count)) @ '' txs '' @ decimal (unat (s transactions_count)) @
      '' dropped '' @ decimal (unat (s dropped)))"

definition print_stats :: "stats \<Rightarrow> string list \<Rightarrow> string list" where
  "print_stats st stdout = stdout @ [stats_line st]"

section \<open>The replay command\<close>

definition main_replay :: "bool \<Rightarrow> 'b bitset_ops \<Rightarrow> hasher \<Rightarrow> 'r reconstructor \<Rightarrow> ('w, 'tx) deserializer \<Rightarrow>
    ('tx, 'sg) transaction_text \<Rightarrow> ('p \<Rightarrow> io_error + 'f) \<Rightarrow> 'f read_exact \<Rightarrow> ('p \<Rightarrow> string) \<Rightarrow>
    'p \<Rightarrow> u16 option \<Rightarrow> print \<Rightarrow> string list \<Rightarrow> ((io_error, unit) outcome \<times> string list) option" where
  "main_replay oc B hashv rs deserialize T open_file read_exact display path shred_version print stdout =
     (let config = config_default\<lparr>c_shred_version := shred_version\<rparr>; deshredder = deshredder_new config in
      case reader_open open_file read_exact path of
        Inl e \<Rightarrow> Some (Inl (Err e), stdout)
      | Inr reader \<Rightarrow>
        (case replay oc B hashv rs deserialize read_exact (print_batch T print) reader
            \<lparr>rp_deshredder = deshredder, rp_sink = stdout\<rparr> of
           None \<Rightarrow> None
         | Some (Inl f, s) \<Rightarrow> Some (Inl f, rp_sink s)
         | Some (Inr count, s) \<Rightarrow>
           let stdout = rp_sink s @ [''replayed '' @ decimal count @ '' packets from '' @ display path] in
           Some (Inr (), print_stats (d_stats (rp_deshredder s)) stdout)))"

section \<open>The listen command\<close>

text \<open>\<open><<\<close> on a \<open>usize\<close> drops the high bits.\<close>

definition listen_config :: "socket_addr \<Rightarrow> u16 option \<Rightarrow> u64 \<Rightarrow> socket_addr pipeline_config" where
  "listen_config bind shred_version rcvbuf_mib =
     (let config = pipeline_config_new bind in
      config\<lparr>pc_recv_buffer_bytes := unat (push_bit 20 rcvbuf_mib),
        pc_deshredder := (pc_deshredder config)\<lparr>c_shred_version := shred_version\<rparr>\<rparr>)"

text \<open>
  The tap writes each datagram with the current time; a failed write is only logged. Its state is the writer
  and the number of times the system clock was read: \<open>clock i\<close> is what it says the \<open>i\<close>-th time.
\<close>

definition record_tap :: "'w write_all \<Rightarrow> (nat \<Rightarrow> nat option) \<Rightarrow> bytes \<Rightarrow> 'w \<times> nat \<Rightarrow> 'w \<times> nat" where
  "record_tap write_all clock packet t =
     (let (writer, i) = t in (fst (write_now write_all (clock i) packet writer), Suc i))"

datatype main_error = IoError io_error | HandlerError

text \<open>The main thread: it polls, has slept, prints for the last time, requests the shutdown, and waits for both threads.\<close>

datatype main_pc = MainPoll | MainSlept | MainFinal | MainShutdown | MainJoin | MainExit | MainPanicked

record ('b, 'k) listen =
  li_pipeline :: "('b, 'k) pipeline"
  li_stop :: bool
  li_main :: main_pc
  li_since :: nat
  li_stdout :: "string list"
  li_polls :: nat

text \<open>
  \<open>li_since\<close> is \<open>since_stats\<close> in milliseconds; \<open>li_polls\<close> counts the turns of the loop, no thread reads it. What the
  main thread prints is kept apart from what the sink prints: a line is printed whole, and the two threads'
  lines mix in any way. \<open>set_handler\<close> is an error or not.
\<close>

definition listen_start :: "'s socket_calls \<Rightarrow> bool \<Rightarrow> ('p \<Rightarrow> io_error + 'd) \<Rightarrow> 'd file_write \<Rightarrow> bool \<Rightarrow>
    socket_addr pipeline_config \<Rightarrow> 'p option \<Rightarrow> main_error + ('b, ('d buf_writer \<times> nat) option \<times> string list) listen" where
  "listen_start K info create file_write set_handler config record =
     try_io (case record of
         Some path \<Rightarrow> map_sum IoError (\<lambda>writer. Some (writer, 0)) (writer_create create file_write path)
       | None \<Rightarrow> Inr None) (\<lambda>tap.
     try_io (map_sum IoError id (spawn_with_tap K info config (tap, []))) (\<lambda>(socket, pipeline).
     if set_handler
     then Inr \<lparr>li_pipeline = pipeline, li_stop = False, li_main = MainPoll, li_since = 0, li_stdout = [], li_polls = 0\<rparr>
     else Inl HandlerError))"

text \<open>\<open>Duration\<close> addition panics when the seconds do not fit \<open>u64\<close>.\<close>

definition main_step :: "u64 \<Rightarrow> ('b, 'k) listen \<Rightarrow> ('b, 'k) listen option" where
  "main_step stats_every l =
     (case li_main l of
        MainPoll \<Rightarrow> Some (l\<lparr>li_main := if li_stop l then MainFinal else MainSlept\<rparr>)
      | MainSlept \<Rightarrow>
        let since = li_since l + 200 in
        if 2 ^ 64 * 1000 \<le> since then Some (l\<lparr>li_main := MainPanicked\<rparr>)
        else let l = l\<lparr>li_main := MainPoll, li_since := since, li_polls := li_polls l + 1\<rparr> in
          if 0 < unat stats_every \<and> unat stats_every * 1000 \<le> since
          then Some (l\<lparr>li_stdout := print_stats (pipeline_stats (li_pipeline l)) (li_stdout l), li_since := 0\<rparr>)
          else Some l
      | MainFinal \<Rightarrow> Some (l\<lparr>li_main := MainShutdown, li_stdout := print_stats (pipeline_stats (li_pipeline l)) (li_stdout l)\<rparr>)
      | MainShutdown \<Rightarrow> Some (l\<lparr>li_main := MainJoin, li_pipeline := (li_pipeline l)\<lparr>p_stop := True\<rparr>\<rparr>)
      | MainJoin \<Rightarrow>
        if p_rx (li_pipeline l) = RxExit \<and> p_worker (li_pipeline l) \<noteq> WorkerRun then Some (l\<lparr>li_main := MainExit\<rparr>) else None
      | MainExit \<Rightarrow> None
      | MainPanicked \<Rightarrow> None)"

inductive listen_step for cap :: nat and work and stats_every where
  main: "main_step stats_every l = Some l' \<Longrightarrow> listen_step cap work stats_every l l'"
| threads: "thread_step cap work (li_pipeline l) p \<Longrightarrow> listen_step cap work stats_every l (l\<lparr>li_pipeline := p\<rparr>)"
| ctrl_c: "listen_step cap work stats_every l (l\<lparr>li_stop := True\<rparr>)"

inductive_cases listen_stepE: "listen_step cap work stats_every l l'"

text \<open>
  What the fixture file holds, for a worker that has not panicked: the tap belongs to the worker's thread, which drops it, and with it the
  buffered writer, when it exits. Until then the file lags behind by what is in the buffer.
\<close>

definition recorded_file :: "'d file_write \<Rightarrow> ('b, ('d buf_writer \<times> nat) option \<times> string list) listen \<Rightarrow> 'd option" where
  "recorded_file file_write l = map_option
     (\<lambda>(writer, i). if p_worker (li_pipeline l) = WorkerExit then buf_drop file_write writer else bw_file writer)
     (fst (rp_sink (p_state (li_pipeline l))))"

section \<open>The commands\<close>

datatype 'p command =
    Listen socket_addr "u16 option" u64 "'p option" print u64
  | Replay 'p "u16 option" print

text \<open>What the parser fills in for an option that is not given; a path has no default.\<close>

definition listen_default :: "'p command" where
  "listen_default = Listen (V4 0 20000) None 64 None Batches 5"

definition replay_default :: "'p \<Rightarrow> 'p command" where
  "replay_default path = Replay path None Batches"

text \<open>
  \<open>main\<close>: \<open>Replay\<close> runs to its end; \<open>Listen\<close> starts the threads, which then take the steps of \<open>listen_step\<close> with the
  period and the worker's body that come with the start state.
\<close>

datatype ('b, 'w) session =
    Listening "('b, ('w \<times> nat) option \<times> string list) listen" u64
      "bytes \<Rightarrow> ('b, ('w \<times> nat) option \<times> string list) replay_state \<Rightarrow> ('b, ('w \<times> nat) option \<times> string list) replay_state run"
  | Replayed "((io_error, unit) outcome \<times> string list) option"

fun main_command :: "'s socket_calls \<Rightarrow> bool \<Rightarrow> ('p \<Rightarrow> io_error + 'd) \<Rightarrow> 'd file_write \<Rightarrow> (nat \<Rightarrow> nat option) \<Rightarrow> bool \<Rightarrow>
    ('p \<Rightarrow> io_error + 'f) \<Rightarrow> 'f read_exact \<Rightarrow> ('p \<Rightarrow> string) \<Rightarrow>
    bool \<Rightarrow> 'b bitset_ops \<Rightarrow> hasher \<Rightarrow> 'r reconstructor \<Rightarrow> ('w', 'tx) deserializer \<Rightarrow> ('tx, 'sg) transaction_text \<Rightarrow>
    'p command \<Rightarrow> main_error + ('b, 'd buf_writer) session" where
  "main_command K info create file_write clock set_handler open_file read_exact display oc B hashv rs deserialize T
     (Listen bind shred_version rcvbuf_mib record print stats_every) =
     try_io (listen_start K info create file_write set_handler (listen_config bind shred_version rcvbuf_mib) record) (\<lambda>l.
     Inr (Listening l stats_every (worker_body_tap oc B hashv rs deserialize (record_tap (buf_write_all file_write) clock) (print_batch T print))))"
| "main_command K info create file_write clock set_handler open_file read_exact display oc B hashv rs deserialize T
     (Replay path shred_version print) =
     Inr (Replayed (main_replay oc B hashv rs deserialize T open_file read_exact display path shred_version print []))"

text \<open>The defaults of the command line are those of \<open>PipelineConfig::new\<close> and \<open>Config::default\<close>.\<close>

lemma listen_default_config: "listen_config bind None 64 = pipeline_config_new bind"
  by (simp add: listen_config_def pipeline_config_new_def config_default_def push_bit_eq_mult)

lemma map_sum_Inr_iff: "map_sum f g x = Inr y \<longleftrightarrow> (\<exists>z. x = Inr z \<and> y = g z)"
  by (cases x) auto

section \<open>What is printed\<close>

lemma print_loop: "fold (\<lambda>tx stdout. stdout @ [f tx]) txs stdout = stdout @ map f txs"
  by (induction txs arbitrary: stdout) simp_all

lemma print_loops: "fold (\<lambda>entry. fold (\<lambda>tx stdout. stdout @ [f tx]) (g entry)) es stdout = stdout @ map f (concat (map g es))"
  by (induction es arbitrary: stdout) (simp_all add: print_loop)

text \<open>The lines of a batch.\<close>

definition batch_lines :: "('tx, 'sg) transaction_text \<Rightarrow> print \<Rightarrow> 'tx entry_batch \<Rightarrow> string list" where
  "batch_lines T print batch = (case print of
     PrintNone \<Rightarrow> []
   | Batches \<Rightarrow> [batch_line batch]
   | Transactions \<Rightarrow> batch_line batch # map (transaction_line T) (concat (map en_transactions (eb_entries batch))))"

lemma print_batch_lines: "print_batch T print batch stdout = stdout @ batch_lines T print batch"
  by (cases print) (simp_all add: print_batch_def batch_lines_def print_loops)

lemma print_batches_lines: "fold (print_batch T print) bs stdout = stdout @ concat (map (batch_lines T print) bs)"
  by (induction bs arbitrary: stdout) (simp_all add: print_batch_lines)

lemma numbers_of_batch_line: "numbers_of (batch_line batch) =
    [unat (eb_slot batch), unat (eb_start batch), unat (eb_end batch), length (eb_entries batch), num_transactions batch]"
  unfolding numbers_of_def batch_line_def by (simp add: scan_decimal is_digit_def)

lemma numbers_of_stats_line: "numbers_of (stats_line st) = map (\<lambda>c. unat (st c))
    [packets, invalid, wrong_version, stale, duplicates, unneeded, rejected, recovered, recovery_failures, batches,
     block_markers, decode_errors, entries_count, transactions_count, dropped]"
  unfolding numbers_of_def stats_line_def snapshot_def by (simp add: scan_decimal scan_decimal [of _ "[]", simplified] is_digit_def)

section \<open>Replaying\<close>

lemma main_replay_records:
  assumes "byte_source read_exact left" and "open_file path = Inr r" and "left r = fixture_bytes recs"
    and "\<forall>r\<in>set recs. length (fr_packet r) < 65536"
    and "fold_out (push oc B hashv rs deserialize) (map fr_packet recs)
      (deshredder_new (config_default\<lparr>c_shred_version := shred_version\<rparr>), []) = Inr (d', bs)"
  shows "main_replay oc B hashv rs deserialize T open_file read_exact display path shred_version print stdout =
    Some (Inr (), stdout @ concat (map (batch_lines T print) bs) @
      [''replayed '' @ decimal (length recs) @ '' packets from '' @ display path, stats_line (d_stats d')])"
proof -
  let ?s = "\<lparr>rp_deshredder = deshredder_new (config_default\<lparr>c_shred_version := shred_version\<rparr>), rp_sink = stdout\<rparr>"
  have run: "fold_out (push oc B hashv rs deserialize) (map fr_packet recs) (rp_deshredder ?s, []) = Inr (d', bs)"
    using assms(5) by simp
  from replay_bytes [OF assms(1,3,4) run, of "print_batch T print"] obtain reader where
    "reader_new read_exact r = (reader, Inr ())"
    "replay oc B hashv rs deserialize read_exact (print_batch T print) reader ?s =
      Some (Inr (length recs), \<lparr>rp_deshredder = d', rp_sink = fold (print_batch T print) bs stdout\<rparr>)"
    by auto
  then show ?thesis by (simp add: main_replay_def reader_open_def assms(2) print_batches_lines print_stats_def)
qed

section \<open>Listening\<close>

text \<open>Whatever the main thread does, the pipeline only makes its own steps.\<close>

lemma main_step_pipeline:
  "main_step stats_every l = Some l' \<Longrightarrow>
    li_pipeline l' = li_pipeline l \<or> li_pipeline l' = (li_pipeline l)\<lparr>p_stop := True\<rparr>"
  by (auto simp: main_step_def Let_def split: main_pc.splits if_splits)

lemma listen_steps_pipeline:
  "(listen_step cap work stats_every)\<^sup>*\<^sup>* l0 l \<Longrightarrow> (pipeline_step cap work)\<^sup>*\<^sup>* (li_pipeline l0) (li_pipeline l)"
proof (induction rule: rtranclp_induct)
  case (step l l')
  from step.hyps(2) have "li_pipeline l' = li_pipeline l \<or> pipeline_step cap work (li_pipeline l) (li_pipeline l')"
  proof (cases rule: listen_step.cases)
    case main
    from main_step_pipeline [OF this] show ?thesis using pipeline_step.shutdown by metis
  qed (auto intro: pipeline_step.thread)
  with step.IH show ?case by auto
qed simp

text \<open>The main thread exits after the two others.\<close>

definition exits_last :: "('b, 'k) listen \<Rightarrow> bool" where
  "exits_last l \<longleftrightarrow> (li_main l = MainExit \<longrightarrow> p_rx (li_pipeline l) = RxExit \<and> p_worker (li_pipeline l) \<noteq> WorkerRun)"

lemma exits_last_step:
  assumes "listen_step cap work stats_every l l'" and "exits_last l"
  shows "exits_last l'"
  using assms(1)
proof (cases rule: listen_step.cases)
  case main
  then show ?thesis by (auto simp: exits_last_def main_step_def Let_def split: main_pc.splits if_splits)
next
  case (threads p)
  have "\<not> (p_rx (li_pipeline l) = RxExit \<and> p_worker (li_pipeline l) \<noteq> WorkerRun)"
    using threads(2) by (auto simp: thread_step_iff receive_step_def worker_step_def split: if_splits)
  then have "li_main l \<noteq> MainExit" using assms(2) by (auto simp: exits_last_def)
  then show ?thesis using threads(1) by (simp add: exits_last_def)
qed (use assms(2) in \<open>simp add: exits_last_def\<close>)

text \<open>The stats lines keep time: \<open>since_stats\<close> is what is left of the polls since the last line.\<close>

definition keeps_time :: "u64 \<Rightarrow> ('b, 'k) listen \<Rightarrow> bool" where
  "keeps_time stats_every l \<longleftrightarrow> li_main l \<noteq> MainPanicked \<and>
     li_since l = 200 * (li_polls l mod (5 * unat stats_every)) \<and>
     length (li_stdout l) = li_polls l div (5 * unat stats_every) + (if li_main l \<in> {MainShutdown, MainJoin, MainExit} then 1 else 0)"

lemma keeps_time_step:
  assumes "listen_step cap work stats_every l l'" and "keeps_time stats_every l" and "0 < stats_every"
  shows "keeps_time stats_every l'"
  using assms(1)
proof (cases rule: listen_step.cases)
  case main
  let ?k = "5 * unat stats_every"
  have k: "0 < ?k" using assms(3) by (simp add: word_greater_zero_iff unat_gt_0)
  show ?thesis
  proof (cases "li_main l")
    case MainSlept
    have since: "li_since l = 200 * (li_polls l mod ?k)" using assms(2) by (simp add: keeps_time_def)
    have "li_polls l mod ?k < ?k" using k by simp
    then have "li_since l + 200 \<le> 200 * ?k" unfolding since by linarith
    moreover have "200 * ?k < 2 ^ 64 * 1000" using unsigned_less [of stats_every, where 'a = nat] by simp
    ultimately have no: "\<not> 2 ^ 64 * 1000 \<le> li_since l + 200" by linarith
    show ?thesis
    proof (cases "Suc (li_polls l mod ?k) = ?k")
      case True
      then have "li_since l + 200 = 200 * ?k" unfolding since by linarith
      then have "l' = l\<lparr>li_main := MainPoll, li_polls := li_polls l + 1,
          li_stdout := print_stats (pipeline_stats (li_pipeline l)) (li_stdout l), li_since := 0\<rparr>"
        using main MainSlept no k by (simp add: main_step_def Let_def)
      then show ?thesis using assms(2) MainSlept True by (simp add: keeps_time_def print_stats_def mod_Suc div_Suc)
    next
      case False
      then have less: "Suc (li_polls l mod ?k) < ?k" using k by (simp add: Suc_lessI)
      then have "li_since l + 200 < 200 * ?k" unfolding since by linarith
      then have "l' = l\<lparr>li_main := MainPoll, li_since := li_since l + 200, li_polls := li_polls l + 1\<rparr>"
        using main MainSlept no by (simp add: main_step_def Let_def)
      then show ?thesis using assms(2) MainSlept False by (simp add: keeps_time_def mod_Suc div_Suc)
    qed
  qed (use main assms(2) in \<open>auto simp: keeps_time_def main_step_def print_stats_def split: if_splits\<close>)
qed (use assms(2) in \<open>simp_all add: keeps_time_def\<close>)

lemma listen_start_pipeline:
  assumes "listen_start K info create file_write handler config path = Inr l0"
  shows "\<exists>tap. li_pipeline l0 = pipeline_spawn config (tap, []) \<and> li_main l0 = MainPoll \<and> li_since l0 = 0 \<and>
    li_stdout l0 = [] \<and> li_polls l0 = 0 \<and> li_stop l0 = False \<and>
    (case path of None \<Rightarrow> tap = None | Some f \<Rightarrow> \<exists>w. writer_create create file_write f = Inr w \<and> tap = Some (w, 0))"
  using assms by (cases path) (auto simp: listen_start_def try_io_def spawn_with_tap_def map_sum_Inr_iff split: sum.splits if_splits)

text \<open>A \<open>Listen\<close> command that starts is in the start state of its threads, with a tap exactly if it records.\<close>

lemma listening_starts:
  assumes "main_command K info create file_write clock handler open_file read_exact display oc B hashv rs deserialize T
      (Listen bind shred_version mib record print stats_every) = Inr (Listening l every work)"
  shows "listen_start K info create file_write handler (listen_config bind shred_version mib) record = Inr l" "every = stats_every"
    and "\<exists>tap. li_pipeline l = pipeline_spawn (listen_config bind shred_version mib) (tap, []) \<and> (tap = None \<longleftrightarrow> record = None)"
proof -
  show start: "listen_start K info create file_write handler (listen_config bind shred_version mib) record = Inr l" "every = stats_every"
    using assms by (auto simp: try_io_def split: sum.splits)
  show "\<exists>tap. li_pipeline l = pipeline_spawn (listen_config bind shred_version mib) (tap, []) \<and> (tap = None \<longleftrightarrow> record = None)"
  proof -
    obtain tap where "li_pipeline l = pipeline_spawn (listen_config bind shred_version mib) (tap, [])"
        "case record of None \<Rightarrow> tap = None | Some f \<Rightarrow> \<exists>w. writer_create create file_write f = Inr w \<and> tap = Some (w, 0)"
      using listen_start_pipeline [OF start(1)] by blast
    moreover from this(2) have "tap = None \<longleftrightarrow> record = None" by (cases "record") auto
    ultimately show ?thesis by blast
  qed
qed

text \<open>What the tap has written.\<close>

definition tap_record :: "(nat \<Rightarrow> nat option) \<Rightarrow> nat \<Rightarrow> bytes \<Rightarrow> fixture_record" where
  "tap_record clock i packet = \<lparr>fr_unix_nanos = (case clock i of None \<Rightarrow> 0 | Some nanos \<Rightarrow> word_of_nat nanos), fr_packet = packet\<rparr>"

lemma record_taps:
  assumes sink: "byte_sink write_all written" and "\<forall>p\<in>set ps. length p < 65536"
  shows "\<exists>w'. fold (record_tap write_all clock) ps (w, i) = (w', i + length ps) \<and>
    written w' = written w @ concat (map record_bytes (map2 (tap_record clock) [i..<i + length ps] ps))"
  using assms(2)
proof (induction ps arbitrary: w i)
  case (Cons p ps)
  have "length (fr_packet (tap_record clock i p)) < 65536" using Cons.prems by (simp add: tap_record_def)
  from byte_sink.write_at_ok [OF sink this, of w] obtain w1 where w1: "write_now write_all (clock i) p w = (w1, None)"
      "written w1 = written w @ record_bytes (tap_record clock i p)"
    by (auto simp: write_now_def tap_record_def)
  obtain w2 where w2: "fold (record_tap write_all clock) ps (w1, Suc i) = (w2, Suc i + length ps)"
      "written w2 = written w1 @ concat (map record_bytes (map2 (tap_record clock) [Suc i..<Suc i + length ps] ps))"
    using Cons.IH [of w1 "Suc i"] Cons.prems by auto
  have upt: "[i..<i + length (p # ps)] = i # [Suc i..<Suc i + length ps]" by (rule trans [OF upt_conv_Cons]) simp_all
  have "record_tap write_all clock p (w, i) = (w1, Suc i)" by (simp add: record_tap_def w1(1))
  then have "fold (record_tap write_all clock) (p # ps) (w, i) = (w2, i + length (p # ps))" using w2(1) by simp
  moreover have "written w2 = written w @ concat (map record_bytes (map2 (tap_record clock) [i..<i + length (p # ps)] (p # ps)))"
    unfolding upt w2(2) w1(2) by simp
  ultimately show ?case by blast
qed simp

lemma tap_records_packets: "map fr_packet (map2 (tap_record clock) [i..<i + length ps] ps) = ps"
  by (rule nth_equalityI) (simp_all add: tap_record_def)

section \<open>A session\<close>

text \<open>
  Two datagrams of two bytes are received, the user interrupts, and the main thread prints its last line before
  the worker has taken them.
\<close>

definition sample_text :: "(unit, unit) transaction_text" where
  "sample_text = \<lparr>tt_version = \<lambda>_. [], tt_signatures = \<lambda>_. [], tt_signature = \<lambda>_. []\<rparr>"

definition session_work :: "bytes \<Rightarrow> (nat \<times> nat set, (bytes buf_writer \<times> nat) option \<times> string list) replay_state \<Rightarrow>
    (nat \<times> nat set, (bytes buf_writer \<times> nat) option \<times> string list) replay_state run" where
  "session_work = worker_body_tap True bits_model sample_hash (codeword_rs sample_codeword) (\<lambda>_. Inl () :: unit + unit entry list)
     (record_tap (buf_write_all file_append) Some) (print_batch sample_text Batches)"

definition session_start :: "(nat \<times> nat set, (bytes buf_writer \<times> nat) option \<times> string list) listen" where
  "session_start = \<lparr>li_pipeline = pipeline_spawn (listen_config (V4 0 20000) None 64) (Some (\<lparr>bw_file = [], bw_buf = MAGIC\<rparr>, 0), []),
     li_stop = False, li_main = MainPoll, li_since = 0, li_stdout = [], li_polls = 0\<rparr>"

definition session_receiver :: "('b, 'k) listen \<Rightarrow> ('b, 'k) listen option" where
  "session_receiver l = map_option (\<lambda>p. l\<lparr>li_pipeline := p\<rparr>) (receive_step 65536 sample_kernel (li_pipeline l))"

definition session_worker :: "(nat \<times> nat set, (bytes buf_writer \<times> nat) option \<times> string list) listen \<Rightarrow>
    (nat \<times> nat set, (bytes buf_writer \<times> nat) option \<times> string list) listen option" where
  "session_worker l = map_option (\<lambda>p. l\<lparr>li_pipeline := p\<rparr>) (worker_step session_work (li_pipeline l))"

fun session_run :: "('s \<Rightarrow> 's option) list \<Rightarrow> 's \<Rightarrow> 's option" where
  "session_run [] l = Some l"
| "session_run (f # fs) l = (case f l of None \<Rightarrow> None | Some l \<Rightarrow> session_run fs l)"

lemma session_run_steps:
  assumes "\<forall>f\<in>set fs. \<forall>l l'. f l = Some l' \<longrightarrow> R l l'" and "session_run fs l = Some l'"
  shows "R\<^sup>*\<^sup>* l l'"
  using assms by (induction fs arbitrary: l) (auto split: option.splits intro: converse_rtranclp_into_rtranclp)

lemma session_work_short:
  "session_work [7, 8] s = Inr \<lparr>rp_deshredder = (rp_deshredder s)\<lparr>d_stats := inc invalid (inc packets (d_stats (rp_deshredder s)))\<rparr>,
     rp_sink = (map_option (record_tap (buf_write_all file_append) Some [7, 8]) (fst (rp_sink s)), snd (rp_sink s))\<rparr>"
proof -
  have "parse [7, 8] = Inl (Err (TooShort 2))" by (simp add: parse_def get_at_def)
  then show ?thesis by (simp add: session_work_def worker_body_tap_push push_def push_raw_early)
qed

definition session_schedule :: "((nat \<times> nat set, (bytes buf_writer \<times> nat) option \<times> string list) listen \<Rightarrow>
    (nat \<times> nat set, (bytes buf_writer \<times> nat) option \<times> string list) listen option) list" where
  "session_schedule = [session_receiver, session_receiver, session_receiver, session_receiver, (\<lambda>l. Some (l\<lparr>li_stop := True\<rparr>)),
     main_step 5, main_step 5, main_step 5, session_receiver, session_receiver, session_worker, session_worker, session_worker, main_step 5]"

lemma session_ends:
  "\<exists>l. session_run session_schedule session_start = Some l \<and> li_main l = MainExit \<and>
    li_stdout l = [stats_line (pipeline_stats (li_pipeline session_start))] \<and> p_worker (li_pipeline l) = WorkerExit \<and>
    length (p_tapped (li_pipeline l)) = 2 \<and> d_stats (rp_deshredder (p_state (li_pipeline l))) packets = 2"
  unfolding session_schedule_def session_start_def
  by (simp add: session_receiver_def session_worker_def receive_step_def worker_step_def
      main_step_def pipeline_spawn_def sample_recv session_work_short print_stats_def pipeline_stats_def with_stats_def inc_def stats_default_def)

lemma session_started:
  "listen_start capped_calls True (\<lambda>_. Inr []) file_append True (listen_config (V4 0 20000) None 64) (Some ()) = Inr session_start"
  by (simp add: listen_start_def try_io_def spawn_with_tap_def bind_socket_def capped_calls_def writer_create_def writer_new_def
      buf_write_all_def buf_writer_new_def BUF_SIZE_def MAGIC_def session_start_def)

lemma session_steps:
  assumes "session_run session_schedule session_start = Some l"
  shows "(listen_step 65536 session_work 5)\<^sup>*\<^sup>* session_start l"
  using assms
  by (rule session_run_steps [rotated])
    (auto simp: session_schedule_def session_receiver_def session_worker_def
      intro: listen_step.intros thread_step.intros listen_step.threads [OF thread_step.receiver] listen_step.threads [OF thread_step.worker])

section \<open>Properties\<close>

text \<open>
  C22. A recorded session replays as it was listened to. Listen with \<open>--record\<close> to a file on a device that never fails, in any
  interleaving of the threads, whatever is delivered and dropped. At any moment at which the worker has not panicked the file holds an
  initial piece of the recording of the datagrams the worker has taken, each with the time the tap read; the rest is
  in the buffer of the writer. Once the worker has exited, which drops the tap, the file holds all of it, and
  replaying it with the same shred version prints exactly the lines its sink has printed for batches, the
  number of datagrams taken, and its counters. And when the main thread has exited, so has the worker, and it
  has taken all datagrams that were not counted as dropped.
\<close>

theorem recording_replays:
  assumes dev: "file_device file_write contents" "byte_source read_exact left"
    and start: "listen_start K info create file_write handler (listen_config addr shred_version mib) (Some path) = Inr l0"
    and created: "\<forall>f. create path = Inr f \<longrightarrow> contents f = []"
    and steps: "(listen_step cap (worker_body_tap oc B hashv rs deserialize (record_tap (buf_write_all file_write) clock) (print_batch T print)) stats_every)\<^sup>*\<^sup>* l0 l"
    and ok: "p_worker (li_pipeline l) \<noteq> WorkerPanicked"
  shows "\<exists>data recs. recorded_file file_write l = Some data \<and> map fr_packet recs = p_tapped (li_pipeline l) \<and>
    prefix (contents data) (fixture_bytes recs) \<and>
    (p_worker (li_pipeline l) = WorkerExit \<longrightarrow> contents data = fixture_bytes recs \<and>
      (\<forall>open_file r. open_file path = Inr r \<and> left r = contents data \<longrightarrow>
        main_replay oc B hashv rs deserialize T open_file read_exact display path shred_version print [] =
          Some (Inr (), snd (rp_sink (p_state (li_pipeline l))) @
            [''replayed '' @ decimal (length (p_tapped (li_pipeline l))) @ '' packets from '' @ display path,
             stats_line (d_stats (rp_deshredder (p_state (li_pipeline l))))]))) \<and>
    (li_main l = MainExit \<longrightarrow> p_worker (li_pipeline l) = WorkerExit \<and> subseq (p_tapped (li_pipeline l)) (p_received (li_pipeline l)) \<and>
      p_dropped (li_pipeline l) = word_of_nat (length (p_received (li_pipeline l)) - length (p_tapped (li_pipeline l))))"
proof -
  let ?config = "listen_config addr shred_version mib" and ?p = "li_pipeline l"
  let ?tap = "record_tap (buf_write_all file_write) clock"
  let ?work = "worker_body_tap oc B hashv rs deserialize ?tap (print_batch T print)"
  let ?written = "\<lambda>w. contents (bw_file w) @ bw_buf w"
  note sink = file_device.buffered_sink [OF dev(1)]
  obtain w0 where l0: "li_pipeline l0 = pipeline_spawn ?config (Some (w0, 0), [])" "exits_last l0"
    and w0: "writer_create create file_write path = Inr w0"
    using listen_start_pipeline [OF start] by (auto simp: exits_last_def)
  have written: "?written w0 = MAGIC"
  proof -
    obtain f where f: "create path = Inr f" "writer_new (buf_write_all file_write) (buf_writer_new f) = (w0, None)"
      using w0 by (auto simp: writer_create_def split: sum.splits option.splits prod.splits)
    then show ?thesis using created byte_sink.writer_new_ok [OF sink, of "buf_writer_new f"] by (auto simp: buf_writer_new_def)
  qed
  have reach: "(pipeline_step cap ?work)\<^sup>*\<^sup>* (pipeline_spawn ?config (Some (w0, 0), [])) ?p"
    using listen_steps_pipeline [OF steps] l0(1) by simp
  note inv = reachable_ok [OF reach, unfolded pipeline_ok_def conserved_def] and sizes = received_sizes [OF reach]
  have taken: "fold_out ?work (p_tapped ?p) (p_state (pipeline_spawn ?config (Some (w0, 0), []))) = Inr (p_state ?p)"
    using inv ok by blast
  from worker_fold_tap [OF taken] obtain bs where
    tap: "fst (rp_sink (p_state ?p)) = Some (fold ?tap (p_tapped ?p) (w0, 0))" and
    run: "fold_out (push oc B hashv rs deserialize) (p_tapped ?p) (with_stats (pc_deshredder ?config) stats_default, []) =
      Inr (rp_deshredder (p_state ?p), bs)" and
    out: "snd (rp_sink (p_state ?p)) = fold (print_batch T print) bs []"
    by (auto simp: pipeline_spawn_def)
  have "subseq (p_tapped ?p @ p_chan ?p @ pending (p_rx ?p)) (p_received ?p)" using inv ok by blast
  then have "set (p_tapped ?p) \<subseteq> set (p_received ?p)" by (auto elim: list_emb_set)
  then have small: "\<forall>p\<in>set (p_tapped ?p). length p < 65536" using sizes by fastforce
  let ?recs = "map2 (tap_record clock) [0..<length (p_tapped ?p)] (p_tapped ?p)"
  obtain w where w: "fold ?tap (p_tapped ?p) (w0, 0) = (w, length (p_tapped ?p))" "?written w = fixture_bytes ?recs"
    using record_taps [OF sink small, of clock w0 0] written by (auto simp: fixture_bytes_def)
  have packets: "map fr_packet ?recs = p_tapped ?p" using tap_records_packets [of clock 0 "p_tapped ?p"] by simp
  have recorded: "recorded_file file_write l = Some (if p_worker ?p = WorkerExit then buf_drop file_write w else bw_file w)"
    using tap w(1) by (simp add: recorded_file_def)
  have all: "contents (buf_drop file_write w) = fixture_bytes ?recs"
    unfolding file_device.contents_buf_drop [OF dev(1)] by (rule w(2))
  have "prefix (contents (bw_file w)) (fixture_bytes ?recs)" unfolding w(2) [symmetric] by simp
  moreover have same: "with_stats (pc_deshredder ?config) stats_default = deshredder_new (config_default\<lparr>c_shred_version := shred_version\<rparr>)"
    by (simp add: deshredder_new_def listen_config_def pipeline_config_new_def)
  have fit: "\<forall>x\<in>set ?recs. length (fr_packet x) < 65536"
    using small packets by (metis (no_types, lifting) image_eqI set_map)
  have "main_replay oc B hashv rs deserialize T open_file read_exact display path shred_version print [] =
      Some (Inr (), snd (rp_sink (p_state ?p)) @ [''replayed '' @ decimal (length (p_tapped ?p)) @ '' packets from '' @ display path,
         stats_line (d_stats (rp_deshredder (p_state ?p)))])" if "open_file path = Inr r" "left r = fixture_bytes ?recs" for open_file r
    using main_replay_records [where open_file = open_file and path = path, OF dev(2) that fit, of oc B hashv rs deserialize shred_version "rp_deshredder (p_state ?p)" bs T display print "[]"]
      run unfolding packets same out print_batches_lines by simp
  moreover have "exits_last l" using steps l0(2) by (induction rule: rtranclp_induct) (auto intro: exits_last_step)
  then have "li_main l = MainExit \<longrightarrow> p_worker ?p = WorkerExit \<and> subseq (p_tapped ?p) (p_received ?p) \<and>
      p_dropped ?p = word_of_nat (length (p_received ?p) - length (p_tapped ?p))"
    using inv ok by (auto simp: exits_last_def pending_def) (cases "p_worker ?p"; auto)+
  ultimately show ?thesis
    using recorded all packets by (intro exI [of _ "if p_worker ?p = WorkerExit then buf_drop file_write w else bw_file w"] exI [of _ ?recs]) auto
qed

text \<open>
  C40. The stats lines keep time: with an interval of \<open>stats_every\<close> seconds the main thread, however it interleaves with the
  others, never panics and has printed one line for every \<open>5 * stats_every\<close> polls of 200 milliseconds, plus a last one after
  the interrupt.
\<close>

theorem stats_lines_keep_time:
  assumes "listen_start K info create file_write handler config record = Inr l0"
    and "(listen_step cap work stats_every)\<^sup>*\<^sup>* l0 l" and "0 < stats_every"
  shows "li_main l \<noteq> MainPanicked \<and>
    length (li_stdout l) = li_polls l div (5 * unat stats_every) + (if li_main l \<in> {MainShutdown, MainJoin, MainExit} then 1 else 0)"
proof -
  have "keeps_time stats_every l0" using listen_start_pipeline [OF assms(1)] by (auto simp: keeps_time_def)
  with assms(2) have "keeps_time stats_every l" by (induction rule: rtranclp_induct) (auto intro: keeps_time_step assms(3))
  then show ?thesis by (simp add: keeps_time_def)
qed

text \<open>
  The last stats line is printed before the pipeline has drained: there is a session in which it says that no
  packet was handed to the deshredder, while two were by the time the program exits.
\<close>

lemma last_stats_line_early:
  "\<exists>l. (listen_step 65536 session_work 5)\<^sup>*\<^sup>* session_start l \<and> li_main l = MainExit \<and>
    li_stdout l = [stats_line stats_default] \<and> pipeline_stats (li_pipeline l) packets = 2"
proof -
  obtain l where l: "session_run session_schedule session_start = Some l" "li_main l = MainExit"
      "li_stdout l = [stats_line (pipeline_stats (li_pipeline session_start))]" "d_stats (rp_deshredder (p_state (li_pipeline l))) packets = 2"
    using session_ends by blast
  have "pipeline_stats (li_pipeline session_start) = stats_default"
    by (auto simp: session_start_def pipeline_stats_def pipeline_spawn_def with_stats_def stats_default_def)
  then show ?thesis using session_steps [OF l(1)] l by (auto simp: pipeline_stats_def)
qed

text \<open>The session above, to its end: its file replays with the two datagrams it has taken.\<close>

theorem recording_replays_witness:
  "\<exists>l data. (listen_step 65536 session_work 5)\<^sup>*\<^sup>* session_start l \<and> li_main l = MainExit \<and> recorded_file file_append l = Some data \<and>
    main_replay True bits_model sample_hash (codeword_rs sample_codeword) (\<lambda>_. Inl () :: unit + unit entry list) sample_text
      (\<lambda>_. Inr data) slice_read_exact (\<lambda>_. ''f'') () None Batches [] =
    Some (Inr (), snd (rp_sink (p_state (li_pipeline l))) @
      [''replayed '' @ decimal (length (p_tapped (li_pipeline l))) @ '' packets from f'', stats_line (d_stats (rp_deshredder (p_state (li_pipeline l))))]) \<and>
    length (p_tapped (li_pipeline l)) = 2 \<and> d_stats (rp_deshredder (p_state (li_pipeline l))) packets = 2"
proof -
  obtain l where l: "session_run session_schedule session_start = Some l" "li_main l = MainExit" "p_worker (li_pipeline l) = WorkerExit"
      "length (p_tapped (li_pipeline l)) = 2" "d_stats (rp_deshredder (p_state (li_pipeline l))) packets = 2"
    using session_ends by blast
  note steps = session_steps [OF l(1)]
  have "p_worker (li_pipeline l) \<noteq> WorkerPanicked" using l(3) by simp
  from recording_replays [OF grown.file_device_axioms slice.byte_source_axioms session_started _ steps [unfolded session_work_def] this,
      where display = "\<lambda>_. ''f''"] l(3) obtain data where
    replays: "recorded_file file_append l = Some data" "\<forall>open_file r. open_file () = Inr r \<and> r = data \<longrightarrow>
        main_replay True bits_model sample_hash (codeword_rs sample_codeword) (\<lambda>_. Inl () :: unit + unit entry list) sample_text
          open_file slice_read_exact (\<lambda>_. ''f'') () None Batches [] =
        Some (Inr (), snd (rp_sink (p_state (li_pipeline l))) @
          [''replayed '' @ decimal (length (p_tapped (li_pipeline l))) @ '' packets from '' @ ''f'',
           stats_line (d_stats (rp_deshredder (p_state (li_pipeline l))))])"
    by auto
  from replays(2) [rule_format, of "\<lambda>_. Inr data" data] show ?thesis
    using steps l(2,4,5) replays(1) by (intro exI [of _ l] exI [of _ data] conjI) simp_all
qed

theorem stats_lines_keep_time_witness:
  "\<exists>l. (listen_step 65536 session_work 5)\<^sup>*\<^sup>* session_start l \<and> length (li_stdout l) = li_polls l div 25 + 1"
proof -
  obtain l where l: "session_run session_schedule session_start = Some l" "li_main l = MainExit" using session_ends by blast
  from stats_lines_keep_time [OF session_started session_steps [OF l(1)]] show ?thesis
    using session_steps [OF l(1)] l(2) by auto
qed

end
