(* ===== verification/View.thy ===== *)
theory View
  imports Prelude
begin

text \<open>
  The zero-copy view of a deshredded run (\<open>src/view.rs\<close>): a cursor over the bytes, the scanners that
  find the boundaries of transactions and entries, and the two iterators over them. A scanner is a
  function from a cursor to an item and the cursor behind it. When a scanner fails its cursor is
  dropped: both iterators set their remaining count to zero on an error and never read it again.
\<close>

section \<open>Definitions\<close>

datatype view_error = Truncated nat | BadShortVec nat | UnknownVersion u8 | BadConfigMask

datatype tx_version = Legacy | V0 | V1

record tx_view =
  tv_bytes :: bytes
  tv_version :: tx_version
  tv_signatures_offset :: u16
  tv_num_signatures :: u8

record entry_view =
  ev_num_hashes :: u64
  ev_hash :: bytes
  ev_num_transactions :: u64
  ev_transactions :: bytes

record cursor =
  cu_bytes :: bytes
  cu_offset :: nat

type_synonym 'a scanner = "cursor \<Rightarrow> (view_error, 'a \<times> cursor) outcome"

text \<open>\<open>usize\<close> has 64 bits; \<open>checked_add\<close> fails past it.\<close>

definition cursor_take :: "nat \<Rightarrow> bytes scanner" where
  "cursor_take n self =
     (let end = cu_offset self + n in
      if end < 2 ^ 64 \<and> end \<le> length (cu_bytes self)
      then bind_out (slice (cu_bytes self) (cu_offset self) end) (\<lambda>taken. Inr (taken, self\<lparr>cu_offset := end\<rparr>))
      else Inl (Err (Truncated (cu_offset self))))"

definition cursor_u8 :: "u8 scanner" where
  "cursor_u8 self = bind_out (cursor_take 1 self) (\<lambda>(t, self). bind_out (index_at t 0) (\<lambda>b. Inr (b, self)))"

definition cursor_u64 :: "u64 scanner" where
  "cursor_u64 self = bind_out (cursor_take 8 self) (\<lambda>(t, self). Inr (word_of_nat (le_val t), self))"

text \<open>The loop of \<open>shortvec_len\<close> over the shifts 0, 7 and 14; the value stays below \<open>2^21\<close>.\<close>

fun shortvec_loop :: "nat \<Rightarrow> nat list \<Rightarrow> nat \<Rightarrow> nat scanner" where
  "shortvec_loop at [] value self = Inl (Err (BadShortVec at))"
| "shortvec_loop at (shift # shifts) value self =
     bind_out (cursor_u8 self) (\<lambda>(byte, self).
     let value' = value OR push_bit shift (unat (byte AND 0x7F)) in
     if byte AND 0x80 = 0 then Inr (value', self) else shortvec_loop at shifts value' self)"

definition shortvec_len :: "nat scanner" where
  "shortvec_len self = shortvec_loop (cu_offset self) [0, 7, 14] 0 self"

text \<open>\<open>bytes.get(offset).copied().ok_or(Truncated(offset))\<close>.\<close>

definition cursor_peek :: "cursor \<Rightarrow> (view_error, u8) outcome" where
  "cursor_peek self =
     (case get_at (cu_bytes self) (cu_offset self) of None \<Rightarrow> Inl (Err (Truncated (cu_offset self))) | Some b \<Rightarrow> Inr b)"

text \<open>A loop that runs a step a given number of times.\<close>

fun repeat_scan :: "nat \<Rightarrow> unit scanner \<Rightarrow> unit scanner" where
  "repeat_scan 0 step self = Inr ((), self)"
| "repeat_scan (Suc n) step self = bind_out (step self) (\<lambda>(_, self). repeat_scan n step self)"

definition scan_instruction :: "unit scanner" where
  "scan_instruction self =
     bind_out (cursor_u8 self) (\<lambda>(_, self).
     bind_out (shortvec_len self) (\<lambda>(num_accounts, self).
     bind_out (cursor_take num_accounts self) (\<lambda>(_, self).
     bind_out (shortvec_len self) (\<lambda>(data_len, self).
     bind_out (cursor_take data_len self) (\<lambda>(_, self). Inr ((), self))))))"

definition scan_lookup :: "unit scanner" where
  "scan_lookup self =
     bind_out (cursor_take 32 self) (\<lambda>(_, self).
     bind_out (shortvec_len self) (\<lambda>(writable, self).
     bind_out (cursor_take writable self) (\<lambda>(_, self).
     bind_out (shortvec_len self) (\<lambda>(readonly, self).
     bind_out (cursor_take readonly self) (\<lambda>(_, self). Inr ((), self))))))"

text \<open>The literal \<open>TxView { bytes: &cursor.bytes[start..cursor.offset], .. }\<close>.\<close>

definition tx_view_from :: "nat \<Rightarrow> tx_version \<Rightarrow> u16 \<Rightarrow> u8 \<Rightarrow> tx_view scanner" where
  "tx_view_from start version signatures_offset num_signatures self =
     bind_out (slice (cu_bytes self) start (cu_offset self)) (\<lambda>bytes.
     Inr (\<lparr>tv_bytes = bytes, tv_version = version, tv_signatures_offset = signatures_offset,
           tv_num_signatures = num_signatures\<rparr>, self))"

text \<open>The version test behind the signatures: legacy messages have no version byte.\<close>

definition scan_version :: "tx_version scanner" where
  "scan_version self =
     bind_out (cursor_peek self) (\<lambda>message_first.
     if message_first AND 0x80 = 0 then Inr (Legacy, self)
     else if message_first = 0x80 then bind_out (cursor_u8 self) (\<lambda>(_, self). Inr (V0, self))
     else Inl (Err (UnknownVersion message_first)))"

definition scan_lookups :: "tx_version \<Rightarrow> unit scanner" where
  "scan_lookups version self =
     (if version = V0
      then bind_out (shortvec_len self) (\<lambda>(num_lookups, self). repeat_scan num_lookups scan_lookup self)
      else Inr ((), self))"

definition scan_legacy_or_v0 :: "nat \<Rightarrow> tx_view scanner" where
  "scan_legacy_or_v0 start self =
     bind_out (shortvec_len self) (\<lambda>(num_signatures, self).
     let signatures_offset = word_of_nat (cu_offset self - start) in
     bind_out (cursor_take (num_signatures * 64) self) (\<lambda>(_, self).
     bind_out (scan_version self) (\<lambda>(version, self).
     bind_out (cursor_take 3 self) (\<lambda>(_, self).
     bind_out (shortvec_len self) (\<lambda>(num_keys, self).
     bind_out (cursor_take (num_keys * 32) self) (\<lambda>(_, self).
     bind_out (cursor_take 32 self) (\<lambda>(_, self).
     bind_out (shortvec_len self) (\<lambda>(num_instructions, self).
     bind_out (repeat_scan num_instructions scan_instruction self) (\<lambda>(_, self).
     bind_out (scan_lookups version self) (\<lambda>(_, self).
     tx_view_from start version signatures_offset (word_of_nat num_signatures) self))))))))))"

definition bad_mask :: "u32 \<Rightarrow> bool" where
  "bad_mask cfg_mask \<longleftrightarrow> cfg_mask AND NOT 0x1F \<noteq> 0 \<or> (cfg_mask AND 3 \<noteq> 0 \<and> cfg_mask AND 3 \<noteq> 3)"

definition config_len :: "u32 \<Rightarrow> nat" where
  "config_len cfg_mask = (if cfg_mask AND 3 \<noteq> 0 then 8 else 0) + (if cfg_mask AND 4 \<noteq> 0 then 4 else 0)
     + (if cfg_mask AND 8 \<noteq> 0 then 4 else 0) + (if cfg_mask AND 16 \<noteq> 0 then 4 else 0)"

text \<open>The sum over the four-byte instruction headers.\<close>

definition payloads_len :: "bytes \<Rightarrow> nat" where
  "payloads_len headers = sum_list (map (\<lambda>h. unat (h ! 1) + le_val [h ! 2, h ! 3]) (chunks_exact 4 headers))"

definition scan_v1 :: "nat \<Rightarrow> tx_view scanner" where
  "scan_v1 start self =
     bind_out (cursor_u8 self) (\<lambda>(_, self).
     bind_out (cursor_u8 self) (\<lambda>(num_signatures, self).
     bind_out (cursor_take 2 self) (\<lambda>(_, self).
     bind_out (cursor_take 4 self) (\<lambda>(mask_bytes, self).
     let cfg_mask = word_of_nat (le_val mask_bytes) in
     if bad_mask cfg_mask then Inl (Err BadConfigMask)
     else
     bind_out (cursor_take 32 self) (\<lambda>(_, self).
     bind_out (cursor_u8 self) (\<lambda>(num_instructions, self).
     bind_out (cursor_u8 self) (\<lambda>(num_keys, self).
     bind_out (cursor_take (unat num_keys * 32) self) (\<lambda>(_, self).
     bind_out (cursor_take (config_len cfg_mask) self) (\<lambda>(_, self).
     bind_out (cursor_take (unat num_instructions * 4) self) (\<lambda>(headers, self).
     bind_out (cursor_take (payloads_len headers) self) (\<lambda>(_, self).
     let signatures_offset = word_of_nat (cu_offset self - start) in
     bind_out (cursor_take (unat num_signatures * 64) self) (\<lambda>(_, self).
     tx_view_from start V1 signatures_offset num_signatures self))))))))))))"

definition scan_transaction :: "tx_view scanner" where
  "scan_transaction self =
     (let start = cu_offset self in
      bind_out (cursor_peek self) (\<lambda>first.
      if first < 0x80 then scan_legacy_or_v0 start self
      else if first = 0x81 then scan_v1 start self
      else Inl (Err (UnknownVersion first))))"

definition skip_transaction :: "unit scanner" where
  "skip_transaction self = bind_out (scan_transaction self) (\<lambda>(_, self). Inr ((), self))"

definition scan_entry :: "entry_view scanner" where
  "scan_entry self =
     bind_out (cursor_u64 self) (\<lambda>(num_hashes, self).
     bind_out (cursor_take 32 self) (\<lambda>(hash, self).
     bind_out (cursor_u64 self) (\<lambda>(num_transactions, self).
     let start = cu_offset self in
     bind_out (repeat_scan (unat num_transactions) skip_transaction self) (\<lambda>(_, self).
     bind_out (slice (cu_bytes self) start (cu_offset self)) (\<lambda>transactions.
     Inr (\<lparr>ev_num_hashes = num_hashes, ev_hash = hash, ev_num_transactions = num_transactions,
           ev_transactions = transactions\<rparr>, self))))))"

text \<open>The iterators: a cursor and the number of items announced and not yet scanned.\<close>

record iter =
  it_cursor :: cursor
  it_remaining :: u64

definition iter_next :: "'a scanner \<Rightarrow> iter \<Rightarrow> (view_error, 'a) outcome option \<times> iter" where
  "iter_next scan self =
     (if it_remaining self = 0 then (None, self)
      else let self = self\<lparr>it_remaining := it_remaining self - 1\<rparr> in
        case scan (it_cursor self) of
          Inr (x, c) \<Rightarrow> (Some (Inr x), self\<lparr>it_cursor := c\<rparr>)
        | Inl e \<Rightarrow> (Some (Inl e), self\<lparr>it_remaining := 0\<rparr>))"

definition tx_iter_next :: "iter \<Rightarrow> (view_error, tx_view) outcome option \<times> iter" where
  "tx_iter_next = iter_next scan_transaction"

definition entry_iter_next :: "iter \<Rightarrow> (view_error, entry_view) outcome option \<times> iter" where
  "entry_iter_next = iter_next scan_entry"

definition entries :: "bytes \<Rightarrow> (view_error, iter) outcome" where
  "entries segment =
     bind_out (cursor_u64 \<lparr>cu_bytes = segment, cu_offset = 0\<rparr>) (\<lambda>(remaining, c).
     Inr \<lparr>it_cursor = c, it_remaining = remaining\<rparr>)"

definition transactions :: "entry_view \<Rightarrow> iter" where
  "transactions self =
     \<lparr>it_cursor = \<lparr>cu_bytes = ev_transactions self, cu_offset = 0\<rparr>, it_remaining = ev_num_transactions self\<rparr>"

text \<open>The transaction id: \<open>split_at\<close> and \<open>split_first_chunk().unwrap()\<close> panic past the end.\<close>

definition tx_signature :: "tx_view \<Rightarrow> ('e, bytes) outcome" where
  "tx_signature self =
     (let offset = unat (tv_signatures_offset self) in
      if length (tv_bytes self) < offset then Inl (Panic SliceOutOfBounds)
      else let rest = drop offset (tv_bytes self) in
        if length rest < 64 then Inl (Panic UnwrapNone) else Inr (take 64 rest))"

text \<open>A consumer's \<open>for\<close> loop over an iterator: every item up to the first \<open>None\<close>.\<close>

function iter_items :: "'a scanner \<Rightarrow> iter \<Rightarrow> (view_error, 'a) outcome list" where
  "iter_items scan it =
     (case iter_next scan it of (None, _) \<Rightarrow> [] | (Some x, it') \<Rightarrow> x # iter_items scan it')"
  by pat_completeness auto
termination
proof (relation "measure (\<lambda>(scan, it). unat (it_remaining it))")
  fix scan :: "'a scanner" and it x it' y
  assume "(x, it') = iter_next scan it" and "x = Some y"
  then show "((scan, it'), scan, it) \<in> measure (\<lambda>(scan, it). unat (it_remaining it))"
    by (auto simp: iter_next_def Let_def unat_minus_one unat_gt_0 split: if_splits sum.splits)
qed simp

declare iter_items.simps [simp del]


section \<open>The contract of a scanner\<close>

text \<open>
  A scanner may know the offset where the item starts, so it is a family indexed by that offset. It
  reads \<open>w\<close> as \<open>x\<close> behind \<open>done\<close> if, wherever these bytes lie, it returns \<open>x\<close> and the cursor behind
  them. The contract: it never panics, and either fails or reads a piece of at least \<open>k\<close> bytes of what is
  left, independently of everything around that piece.
\<close>

definition at :: "bytes \<Rightarrow> nat \<Rightarrow> cursor" where
  "at bs i = \<lparr>cu_bytes = bs, cu_offset = i\<rparr>"

lemma at_simps [simp]: "cu_bytes (at bs i) = bs" "cu_offset (at bs i) = i" "(at bs i)\<lparr>cu_offset := j\<rparr> = at bs j"
  by (simp_all add: at_def)

definition reads :: "(nat \<Rightarrow> 'a scanner) \<Rightarrow> bytes \<Rightarrow> bytes \<Rightarrow> 'a \<Rightarrow> bool" where
  "reads m done w x \<longleftrightarrow> (\<forall>pre post. length (pre @ done @ w @ post) < 2 ^ 64 \<longrightarrow>
     m (length pre) (at (pre @ done @ w @ post) (length (pre @ done))) =
       Inr (x, at (pre @ done @ w @ post) (length (pre @ done @ w))))"

definition scans :: "nat \<Rightarrow> (nat \<Rightarrow> 'a scanner) \<Rightarrow> bool" where
  "scans k m \<longleftrightarrow> (\<forall>pre done rest. length (pre @ done @ rest) < 2 ^ 64 \<longrightarrow>
     (\<exists>e. m (length pre) (at (pre @ done @ rest) (length (pre @ done))) = Inl (Err e)) \<or>
     (\<exists>x w post. rest = w @ post \<and> k \<le> length w \<and> reads m done w x))"

named_theorems reads_intro \<open>rules for the scanner reads\<close>
named_theorems scans_intro \<open>rules for the contract scans\<close>

lemma reads_bind [reads_intro]:
  assumes "reads m done w x" and "reads (f x) (done @ w) v y"
  shows "reads (\<lambda>s c. bind_out (m s c) (\<lambda>(x, c). f x s c)) done (w @ v) y"
  unfolding reads_def
proof (intro allI impI)
  fix pre post :: bytes assume len: "length (pre @ done @ (w @ v) @ post) < 2 ^ 64"
  from assms(1) [unfolded reads_def, rule_format, of pre "v @ post"] len
  have "m (length pre) (at (pre @ done @ w @ v @ post) (length (pre @ done))) =
      Inr (x, at (pre @ done @ w @ v @ post) (length (pre @ done @ w)))" by simp
  moreover from assms(2) [unfolded reads_def, rule_format, of pre post] len
  have "f x (length pre) (at (pre @ done @ w @ v @ post) (length (pre @ done @ w))) =
      Inr (y, at (pre @ done @ w @ v @ post) (length (pre @ done @ w @ v)))" by (simp add: add.assoc)
  ultimately show "bind_out (m (length pre) (at (pre @ done @ (w @ v) @ post) (length (pre @ done)))) (\<lambda>(x, c). f x (length pre) c) =
      Inr (y, at (pre @ done @ (w @ v) @ post) (length (pre @ done @ w @ v)))" by simp
qed

lemma scans_bind:
  assumes "scans k m" and "\<And>x. scans l (f x)"
  shows "scans (k + l) (\<lambda>s c. bind_out (m s c) (\<lambda>(x, c). f x s c))"
  unfolding scans_def
proof (intro allI impI)
  fix pre don rest :: bytes
  let ?b = "\<lambda>s c. bind_out (m s c) (\<lambda>(x, c). f x s c)"
  assume len: "length (pre @ don @ rest) < 2 ^ 64"
  show "(\<exists>e. ?b (length pre) (at (pre @ don @ rest) (length (pre @ don))) = Inl (Err e)) \<or>
      (\<exists>y w post. rest = w @ post \<and> k + l \<le> length w \<and> reads ?b don w y)"
  proof (cases "\<exists>e. m (length pre) (at (pre @ don @ rest) (length (pre @ don))) = Inl (Err e)")
    case False
    then obtain x w post where w: "rest = w @ post" "k \<le> length w" "reads m don w x"
      using assms(1) len unfolding scans_def by blast
    then have mx: "m (length pre) (at (pre @ don @ rest) (length (pre @ don))) = Inr (x, at (pre @ don @ rest) (length (pre @ don @ w)))"
      using len unfolding reads_def by simp
    from assms(2) [of x, unfolded scans_def, rule_format, of pre "don @ w" post] len w(1)
    consider e where "f x (length pre) (at (pre @ don @ w @ post) (length (pre @ don @ w))) = Inl (Err e)"
      | y v post' where "post = v @ post'" "l \<le> length v" "reads (f x) (don @ w) v y" by auto
    then show ?thesis
    proof cases
      case 1
      with mx w(1) show ?thesis by simp
    next
      case (2 y v post')
      have "rest = (w @ v) @ post'" "k + l \<le> length (w @ v)" using w(1,2) 2(1,2) by auto
      with reads_bind [where f = f, OF w(3) 2(3)] show ?thesis by blast
    qed
  qed auto
qed

lemma scans_weaken: "scans k m \<Longrightarrow> l \<le> k \<Longrightarrow> scans l m"
  unfolding scans_def by (meson le_trans)

lemma scans_bind0 [scans_intro]:
  assumes "scans 0 m" and "\<And>x. scans 0 (f x)"
  shows "scans 0 (\<lambda>s c. bind_out (m s c) (\<lambda>(x, c). f x s c))"
  using scans_bind [OF assms] by simp

lemma scans_bind_first:
  assumes "scans k m" and "\<And>x. scans 0 (f x)"
  shows "scans k (\<lambda>s c. bind_out (m s c) (\<lambda>(x, c). f x s c))"
  using scans_bind [OF assms] by simp

lemma reads_return [reads_intro]: "reads (\<lambda>_ c. Inr (x, c)) done [] x"
  by (simp add: reads_def)

lemma reads_map: "reads m done w x \<Longrightarrow> reads (\<lambda>s c. bind_out (m s c) (\<lambda>(x, c). Inr (g x, c))) done w (g x)"
  by (simp add: reads_def)

lemma scans_return [scans_intro]: "scans 0 (\<lambda>_ c. Inr (x, c))"
  unfolding scans_def using reads_return by (metis append_Nil le0)

lemma scans_fail [scans_intro]: "scans k (\<lambda>_ _. Inl (Err e))"
  by (simp add: scans_def)

lemma scans_if [scans_intro]:
  "scans k m \<Longrightarrow> scans k n \<Longrightarrow> scans k (\<lambda>s c. if P then m s c else n s c)"
  by (cases P) simp_all

text \<open>A scanner that starts its item where the cursor stands.\<close>

lemma reads_here:
  assumes "\<And>c. n c = m (cu_offset c) c" and "reads m [] w x"
  shows "reads (\<lambda>_. n) done w x"
  unfolding reads_def
proof (intro allI impI)
  fix pre post :: bytes assume "length (pre @ done @ w @ post) < 2 ^ 64"
  then show "n (at (pre @ done @ w @ post) (length (pre @ done))) =
      Inr (x, at (pre @ done @ w @ post) (length (pre @ done @ w)))"
    using assms(2) [unfolded reads_def, rule_format, of "pre @ done" post] by (simp add: assms(1))
qed

lemma scans_here:
  assumes "\<And>c. n c = m (cu_offset c) c" and "scans k m"
  shows "scans k (\<lambda>_. n)"
  unfolding scans_def
proof (intro allI impI)
  fix pre don rest :: bytes assume "length (pre @ don @ rest) < 2 ^ 64"
  then have "(\<exists>e. n (at (pre @ don @ rest) (length (pre @ don))) = Inl (Err e)) \<or>
      (\<exists>x w post. rest = w @ post \<and> k \<le> length w \<and> reads m [] w x)"
    using assms(2) [unfolded scans_def, rule_format, of "pre @ don" "[]" rest] by (simp add: assms(1))
  then show "(\<exists>e. n (at (pre @ don @ rest) (length (pre @ don))) = Inl (Err e)) \<or>
      (\<exists>x w post. rest = w @ post \<and> k \<le> length w \<and> reads (\<lambda>_. n) don w x)"
    using reads_here [of n m, OF assms(1)] by blast
qed

section \<open>The scanners meet it\<close>

lemma cursor_take_at:
  assumes "length (p @ rest) < 2 ^ 64"
  shows "cursor_take n (at (p @ rest) (length p)) =
    (if n \<le> length rest then Inr (take n rest, at (p @ rest) (length p + n)) else Inl (Err (Truncated (length p))))"
  using assms by (simp add: cursor_take_def Let_def slice_def sub_list_def)

lemma reads_cursor_take [reads_intro]: "length w = n \<Longrightarrow> reads (\<lambda>_. cursor_take n) done w w"
  unfolding reads_def using cursor_take_at [of "_ @ _"] by auto

lemma scans_take [scans_intro]: "scans n (\<lambda>_. cursor_take n)"
  unfolding scans_def
proof (intro allI impI)
  fix pre don rest :: bytes assume len: "length (pre @ don @ rest) < 2 ^ 64"
  show "(\<exists>e. cursor_take n (at (pre @ don @ rest) (length (pre @ don))) = Inl (Err e)) \<or>
      (\<exists>x w post. rest = w @ post \<and> n \<le> length w \<and> reads (\<lambda>_. cursor_take n) don w x)"
  proof (cases "n \<le> length rest")
    case True
    then have "rest = take n rest @ drop n rest" "n \<le> length (take n rest)" "length (take n rest) = n" by auto
    with reads_cursor_take show ?thesis by blast
  next
    case False
    then show ?thesis using cursor_take_at [of "pre @ don" rest n] len by simp
  qed
qed

lemma scans_take0 [scans_intro]: "scans 0 (\<lambda>_. cursor_take n)"
  using scans_take by (rule scans_weaken) simp

lemma cursor_u8_at:
  assumes "length (p @ rest) < 2 ^ 64"
  shows "cursor_u8 (at (p @ rest) (length p)) =
    (case rest of [] \<Rightarrow> Inl (Err (Truncated (length p))) | b # _ \<Rightarrow> Inr (b, at (p @ rest) (length p + 1)))"
  using cursor_take_at [OF assms, of 1] by (cases rest) (simp_all add: cursor_u8_def index_at_def)

lemma reads_u8 [reads_intro]: "reads (\<lambda>_. cursor_u8) done [b] b"
  unfolding reads_def
proof (intro allI impI)
  fix pre post :: bytes assume "length (pre @ done @ [b] @ post) < 2 ^ 64"
  then show "cursor_u8 (at (pre @ done @ [b] @ post) (length (pre @ done))) =
      Inr (b, at (pre @ done @ [b] @ post) (length (pre @ done @ [b])))"
    using cursor_u8_at [of "pre @ done" "b # post"] by simp
qed

lemma scans_u8 [scans_intro]: "scans 1 (\<lambda>_. cursor_u8)"
  unfolding scans_def
proof (intro allI impI)
  fix pre don rest :: bytes assume len: "length (pre @ don @ rest) < 2 ^ 64"
  show "(\<exists>e. cursor_u8 (at (pre @ don @ rest) (length (pre @ don))) = Inl (Err e)) \<or>
      (\<exists>x w post. rest = w @ post \<and> 1 \<le> length w \<and> reads (\<lambda>_. cursor_u8) don w x)"
  proof (cases rest)
    case Nil
    then show ?thesis using cursor_u8_at [of "pre @ don" rest] len by simp
  next
    case (Cons b r)
    then have "rest = [b] @ r" "1 \<le> length [b]" by auto
    with reads_u8 show ?thesis by blast
  qed
qed

lemma scans_u80 [scans_intro]: "scans 0 (\<lambda>_. cursor_u8)"
  using scans_u8 by (rule scans_weaken) simp

lemma cursor_u64_bind: "(\<lambda>_. cursor_u64) = (\<lambda>_ c. bind_out (cursor_take 8 c) (\<lambda>(t, c). Inr (word_of_nat (le_val t), c)))"
  by (rule ext, rule ext) (simp add: cursor_u64_def)

lemma scans_u64 [scans_intro]: "scans 8 (\<lambda>_. cursor_u64)"
  unfolding cursor_u64_bind by (rule scans_bind_first [OF scans_take]) (rule scans_return)

lemma reads_u64 [reads_intro]: "reads (\<lambda>_. cursor_u64) done (le_bytes 8 (unat v)) v"
proof -
  have "le_val (le_bytes 8 (unat v)) = unat v"
    using unsigned_less [of v, where 'a = nat] by (intro le_val_le_bytes) simp
  then show ?thesis unfolding cursor_u64_bind
    using reads_map [OF reads_cursor_take [of "le_bytes 8 (unat v)" 8], of "\<lambda>t. word_of_nat (le_val t) :: u64" "done"] by simp
qed


text \<open>Lengths in base 128, the continuation bit on every byte but the last.\<close>

lemma byte_low: "unat (b AND 0x7F :: u8) = unat b mod 128"
proof -
  have "b AND mask 7 = b mod 2 ^ 7" by (simp only: take_bit_eq_mask [symmetric] take_bit_eq_mod)
  then show ?thesis by (simp add: mask_eq_exp_minus_1 unat_mod_distrib)
qed

lemma byte_high: "b AND 0x80 = 0 \<longleftrightarrow> unat (b::u8) < 128"
proof -
  have "b AND 0x80 = 0 \<longleftrightarrow> \<not> bit b 7" using and_exp_eq_0_iff_not_bit [of b 7] by simp
  also have "\<dots> \<longleftrightarrow> \<not> bit (unat b) 7" by (simp only: bit_unsigned_iff) simp
  also have "\<dots> \<longleftrightarrow> even (unat b div 128)" by (simp add: bit_iff_odd)
  also have "\<dots> \<longleftrightarrow> unat b div 128 = 0"
  proof -
    have "unat b div 128 < 2" using unsigned_less [of b, where 'a = nat] by (intro less_mult_imp_div_less) simp
    then show ?thesis by (auto simp: less_2_cases_iff)
  qed
  finally show ?thesis by auto
qed

lemma or_shift:
  assumes "v < 2 ^ k"
  shows "v OR push_bit k u = v + 2 ^ k * (u::nat)"
proof -
  have v: "take_bit k v = v" using assms by (simp add: take_bit_nat_eq_self)
  have "take_bit k v AND push_bit k u = 0" by (rule bit_eqI) (auto simp: bit_simps)
  then show ?thesis unfolding v by (simp add: disjunctive_add_eq_or [symmetric] push_bit_eq_mult)
qed

lemma shortvec_loop_bind:
  "(\<lambda>s. shortvec_loop s (shift # shifts) v) = (\<lambda>s c. bind_out (cursor_u8 c) (\<lambda>(byte, c).
     if unat byte < 128 then Inr (v OR push_bit shift (unat byte mod 128), c)
     else shortvec_loop s shifts (v OR push_bit shift (unat byte mod 128)) c))"
  by (rule ext, rule ext) (simp add: byte_low byte_high Let_def)

lemma scans_shortvec_loop: "scans 0 (\<lambda>s. shortvec_loop s shifts v)"
proof (induction shifts arbitrary: v)
  case Nil
  then show ?case by (simp add: scans_def)
next
  case (Cons shift shifts)
  then show ?case unfolding shortvec_loop_bind by (intro scans_intro)
qed

lemma scans_shortvec: "scans 1 (\<lambda>_. shortvec_len)"
proof (rule scans_here [where m = "\<lambda>s. shortvec_loop s [0, 7, 14] 0"])
  show "scans 1 (\<lambda>s. shortvec_loop s [0, 7, 14] 0)"
    unfolding shortvec_loop_bind by (intro scans_bind_first scans_u8 scans_if scans_return scans_shortvec_loop)
qed (simp add: shortvec_len_def)

lemma scans_shortvec0 [scans_intro]: "scans 0 (\<lambda>_. shortvec_len)"
  using scans_shortvec by (rule scans_weaken) simp

lemma reads_loop_last:
  "unat b < 128 \<Longrightarrow> v < 2 ^ shift \<Longrightarrow> n = v + 2 ^ shift * unat b \<Longrightarrow> reads (\<lambda>s. shortvec_loop s (shift # shifts) v) done [b] n"
  unfolding shortvec_loop_bind
  using reads_bind [OF reads_u8 reads_return, of _ "[]"] by (simp add: reads_def or_shift cursor_u8_at [of "_ @ _", simplified])

lemma reads_loop_more:
  assumes "128 \<le> unat b" and "v < 2 ^ shift" and "reads (\<lambda>s. shortvec_loop s shifts (v + 2 ^ shift * (unat b - 128))) (done @ [b]) w n"
  shows "reads (\<lambda>s. shortvec_loop s (shift # shifts) v) done (b # w) n"
proof -
  have "unat b mod 128 = unat b - 128" using assms(1) unsigned_less [of b, where 'a = nat] by (simp add: mod_if)
  then have "reads (\<lambda>s c. if unat b < 128 then Inr (v OR push_bit shift (unat b mod 128), c)
      else shortvec_loop s shifts (v OR push_bit shift (unat b mod 128)) c) (done @ [b]) w n"
    using assms by (simp add: or_shift)
  then have "reads (\<lambda>s c. bind_out (cursor_u8 c) (\<lambda>(byte, c). if unat byte < 128 then Inr (v OR push_bit shift (unat byte mod 128), c)
      else shortvec_loop s shifts (v OR push_bit shift (unat byte mod 128)) c)) done ([b] @ w) n"
    by (rule reads_bind [OF reads_u8])
  then show ?thesis unfolding shortvec_loop_bind by simp
qed

definition more_byte :: "nat \<Rightarrow> byte" where
  "more_byte d = word_of_nat (d + 128)"

definition short_vec :: "nat \<Rightarrow> bytes" where
  "short_vec n = (if n < 128 then [word_of_nat n]
     else if n < 16384 then [more_byte (n mod 128), word_of_nat (n div 128)]
     else [more_byte (n mod 128), more_byte (n div 128 mod 128), word_of_nat (n div 16384)])"

lemma unat_byte: "n < 256 \<Longrightarrow> unat (word_of_nat n :: u8) = n"
  by (simp add: unsigned_of_nat take_bit_nat_eq_self)

lemma reads_loop_digit:
  assumes "d < 128" and "v < 2 ^ shift" and "reads (\<lambda>s. shortvec_loop s shifts (v + 2 ^ shift * d)) (done @ [more_byte d]) w n"
  shows "reads (\<lambda>s. shortvec_loop s (shift # shifts) v) done (more_byte d # w) n"
proof -
  have "unat (more_byte d) = d + 128" using assms(1) unat_byte [of "d + 128"] unfolding more_byte_def by simp
  with assms show ?thesis by (intro reads_loop_more) simp_all
qed

lemma reads_shortvec [reads_intro]:
  assumes "n < 2097152"
  shows "reads (\<lambda>_. shortvec_len) done (short_vec n) n"
proof (rule reads_here [where m = "\<lambda>s. shortvec_loop s [0, 7, 14] 0"])
  consider "n < 128" | "128 \<le> n" "n < 16384" | "16384 \<le> n" by linarith
  then show "reads (\<lambda>s. shortvec_loop s [0, 7, 14] 0) [] (short_vec n) n"
  proof cases
    case 1
    then show ?thesis by (simp add: short_vec_def reads_loop_last unat_byte)
  next
    case 2
    then have "n div 128 < 128" by (intro less_mult_imp_div_less) simp
    with 2 show ?thesis
      by (auto simp: short_vec_def unat_byte intro!: reads_loop_digit reads_loop_last)
  next
    case 3
    have "n div 16384 < 128" using assms by (intro less_mult_imp_div_less) simp
    moreover have "n mod 128 + 128 * (n div 128 mod 128) < 16384"
      using mod_less_divisor [of 128 n] mod_less_divisor [of 128 "n div 128"] by linarith
    moreover have "n = n mod 128 + 128 * (n div 128 mod 128) + 16384 * (n div 16384)"
    proof -
      have "n div 16384 = n div 128 div 128" using div_mult2_eq [of n 128 128] by simp
      moreover have "n = n mod 128 + 128 * (n div 128)" "n div 128 = n div 128 mod 128 + 128 * (n div 128 div 128)"
        by simp_all
      ultimately show ?thesis by linarith
    qed
    ultimately show ?thesis using 3
      by (auto simp: short_vec_def unat_byte intro!: reads_loop_digit reads_loop_last)
  qed
qed (simp add: shortvec_len_def)


text \<open>Loops, the item literal, and what depends on the distance from the start.\<close>

lemma repeat_scan_0_return: "(\<lambda>s. repeat_scan 0 step) = (\<lambda>s c. Inr ((), c))"
  by (rule ext, rule ext) simp

lemma repeat_scan_Suc_bind:
  "(\<lambda>s. repeat_scan (Suc n) step) = (\<lambda>s c. bind_out (step c) (\<lambda>(_, c). repeat_scan n step c))"
  by (rule ext, rule ext) simp

lemma scans_repeat [scans_intro]:
  assumes "scans 0 (\<lambda>_. step)"
  shows "scans 0 (\<lambda>_. repeat_scan n step)"
proof (induction n)
  case 0
  show ?case unfolding repeat_scan_0_return by (rule scans_return)
next
  case (Suc n)
  then show ?case unfolding repeat_scan_Suc_bind by (intro scans_intro assms)
qed

lemma reads_repeat:
  assumes "\<forall>w\<in>set ws. \<forall>done. reads (\<lambda>_. step) done w ()"
  shows "reads (\<lambda>_. repeat_scan (length ws) step) done (concat ws) ()"
  using assms
proof (induction ws arbitrary: "done")
  case Nil
  show ?case using reads_return by (simp only: list.size concat.simps repeat_scan_0_return)
next
  case (Cons w ws)
  have "reads (\<lambda>_ c. bind_out (step c) (\<lambda>(_, c). repeat_scan (length ws) step c)) done (w @ concat ws) ()"
    by (rule reads_bind [where x = "()"]) (use Cons in auto)
  then show ?case by (simp only: list.size concat.simps add_Suc_right add_0_right repeat_scan_Suc_bind)
qed

lemma reads_here_offset:
  assumes "reads (h (word_of_nat (length done))) done w y"
  shows "reads (\<lambda>s c. let off = word_of_nat (cu_offset c - s) in h off s c) done w y"
  using assms by (simp add: reads_def Let_def)

lemma scans_here_offset [scans_intro]:
  assumes "\<And>off. scans k (h off)"
  shows "scans k (\<lambda>s c. let off = word_of_nat (cu_offset c - s) in h off s c)"
  unfolding scans_def
proof (intro allI impI)
  fix pre don rest :: bytes assume len: "length (pre @ don @ rest) < 2 ^ 64"
  from assms [of "word_of_nat (length don)", unfolded scans_def, rule_format, OF len]
  show "(\<exists>e. (let off = word_of_nat (cu_offset (at (pre @ don @ rest) (length (pre @ don))) - length pre)
        in h off (length pre) (at (pre @ don @ rest) (length (pre @ don)))) = Inl (Err e)) \<or>
      (\<exists>x w post. rest = w @ post \<and> k \<le> length w \<and>
        reads (\<lambda>s c. let off = word_of_nat (cu_offset c - s) in h off s c) don w x)"
    using reads_here_offset [where h = h] by (simp add: Let_def) blast
qed

lemma scans_let [scans_intro]: "scans k (h v) \<Longrightarrow> scans k (\<lambda>s c. let y = v in h y s c)"
  by simp

lemma reads_view [reads_intro]:
  "reads (\<lambda>s. tx_view_from s version off n) done []
     \<lparr>tv_bytes = done, tv_version = version, tv_signatures_offset = off, tv_num_signatures = n\<rparr>"
  by (simp add: reads_def tx_view_from_def slice_def sub_list_def)

lemma scans_view [scans_intro]: "scans 0 (\<lambda>s. tx_view_from s version off n)"
  unfolding scans_def using reads_view by (metis append_Nil le0)

lemma cursor_peek_at:
  "cursor_peek (at (p @ rest) (length p)) =
    (case rest of [] \<Rightarrow> Inl (Err (Truncated (length p))) | b # _ \<Rightarrow> Inr b)"
  by (cases rest) (simp_all add: cursor_peek_def get_at_def nth_append)

text \<open>A test of the next byte before a scanner that reads it.\<close>

lemma reads_peek:
  assumes "reads (f b) done (b # w) y"
  shows "reads (\<lambda>s c. bind_out (cursor_peek c) (\<lambda>b. f b s c)) done (b # w) y"
proof -
  have "cursor_peek (at (pre @ done @ (b # w) @ post) (length (pre @ done))) = Inr b" for pre post
    using cursor_peek_at [of "pre @ done" "(b # w) @ post"] by simp
  with assms show ?thesis by (simp add: reads_def)
qed

lemma scans_peek:
  assumes "\<And>b. scans (Suc k) (f b)"
  shows "scans (Suc k) (\<lambda>s c. bind_out (cursor_peek c) (\<lambda>b. f b s c))"
  unfolding scans_def
proof (intro allI impI)
  fix pre don rest :: bytes assume len: "length (pre @ don @ rest) < 2 ^ 64"
  let ?b = "\<lambda>s c. bind_out (cursor_peek c) (\<lambda>b. f b s c)"
  have peek: "cursor_peek (at (pre @ don @ rest) (length (pre @ don))) =
      (case rest of [] \<Rightarrow> Inl (Err (Truncated (length (pre @ don)))) | b # _ \<Rightarrow> Inr b)"
    using cursor_peek_at [of "pre @ don" rest] by simp
  show "(\<exists>e. ?b (length pre) (at (pre @ don @ rest) (length (pre @ don))) = Inl (Err e)) \<or>
      (\<exists>x w post. rest = w @ post \<and> Suc k \<le> length w \<and> reads ?b don w x)"
  proof (cases rest)
    case (Cons b r)
    from assms [of b, unfolded scans_def, rule_format, OF len] show ?thesis
    proof (elim disjE exE conjE)
      fix e assume "f b (length pre) (at (pre @ don @ rest) (length (pre @ don))) = Inl (Err e)"
      then show ?thesis using peek Cons by simp
    next
      fix x w post assume w: "rest = w @ post" "Suc k \<le> length w" "reads (f b) don w x"
      then obtain w' where "w = b # w'" using Cons by (cases w) auto
      with w show ?thesis using reads_peek [of f b don w' x] by blast
    qed
  qed (use peek in simp)
qed

lemma scan_version_take:
  "bind_out (scan_version c) (\<lambda>(v, c). bind_out (cursor_take 3 c) (\<lambda>(h, c). g v h s c)) =
   bind_out (cursor_peek c) (\<lambda>b. if b AND 0x80 = 0 then bind_out (cursor_take 3 c) (\<lambda>(h, c). g Legacy h s c)
     else if b = 0x80 then bind_out (cursor_u8 c) (\<lambda>(_, c). bind_out (cursor_take 3 c) (\<lambda>(h, c). g V0 h s c))
     else Inl (Err (UnknownVersion b)))"
  by (auto simp: scan_version_def bind_out_def split: sum.split)

lemma scans_version [scans_intro]:
  assumes "\<And>v h. scans 0 (g v h)"
  shows "scans 0 (\<lambda>s c. bind_out (scan_version c) (\<lambda>(v, c). bind_out (cursor_take 3 c) (\<lambda>(h, c). g v h s c)))"
  unfolding scan_version_take
proof (rule scans_weaken [OF scans_peek [where k = 0]])
  fix b :: u8
  have "scans 1 (\<lambda>s c. bind_out (cursor_take 3 c) (\<lambda>(h, c). g v h s c))" for v
    using scans_weaken [OF scans_bind_first [OF scans_take assms], of 1 3] by simp
  moreover have "scans 1 (\<lambda>s c. bind_out (cursor_u8 c) (\<lambda>(_, c). bind_out (cursor_take 3 c) (\<lambda>(h, c). g V0 h s c)))"
    by (intro scans_bind_first scans_u8 scans_intro assms)
  ultimately show "scans (Suc 0) (\<lambda>s c. if b AND 0x80 = 0 then bind_out (cursor_take 3 c) (\<lambda>(h, c). g Legacy h s c)
     else if b = 0x80 then bind_out (cursor_u8 c) (\<lambda>(_, c). bind_out (cursor_take 3 c) (\<lambda>(h, c). g V0 h s c))
     else Inl (Err (UnknownVersion b)))"
    unfolding One_nat_def by (intro scans_if scans_fail) simp_all
qed simp

lemma scans_instruction [scans_intro]: "scans 0 (\<lambda>_. scan_instruction)"
  unfolding scan_instruction_def [abs_def] by (intro scans_intro)

lemma scans_lookup [scans_intro]: "scans 0 (\<lambda>_. scan_lookup)"
  unfolding scan_lookup_def [abs_def] by (intro scans_intro)

lemma scans_lookups [scans_intro]: "scans 0 (\<lambda>_. scan_lookups version)"
  unfolding scan_lookups_def [abs_def] by (intro scans_intro)

lemma scans_legacy: "scans 1 scan_legacy_or_v0"
  unfolding scan_legacy_or_v0_def [abs_def]
  by (rule scans_bind_first [OF scans_shortvec]) (intro scans_intro)

lemma scans_v1: "scans 1 scan_v1"
  unfolding scan_v1_def [abs_def]
  by (rule scans_bind_first [OF scans_u8]) (intro scans_intro)

lemma scans_transaction: "scans 1 (\<lambda>_. scan_transaction)"
proof (rule scans_here)
  show "scan_transaction c = (\<lambda>s c. bind_out (cursor_peek c) (\<lambda>first.
      if first < 0x80 then scan_legacy_or_v0 s c else if first = 0x81 then scan_v1 s c
      else Inl (Err (UnknownVersion first)))) (cu_offset c) c" for c
    by (simp add: scan_transaction_def Let_def)
  show "scans 1 (\<lambda>s c. bind_out (cursor_peek c) (\<lambda>first.
      if first < 0x80 then scan_legacy_or_v0 s c else if first = 0x81 then scan_v1 s c
      else Inl (Err (UnknownVersion first))))"
    unfolding One_nat_def by (intro scans_peek scans_if scans_fail scans_legacy [unfolded One_nat_def] scans_v1 [unfolded One_nat_def])
qed


lemma reads_slice: "reads (\<lambda>s c. bind_out (slice (cu_bytes c) s (cu_offset c)) (\<lambda>b. Inr (g b, c))) done [] (g done)"
  by (simp add: reads_def slice_def sub_list_def)

lemma scans_slice [scans_intro]: "scans 0 (\<lambda>s c. bind_out (slice (cu_bytes c) s (cu_offset c)) (\<lambda>b. Inr (g b, c)))"
  unfolding scans_def by (intro allI impI disjI2) (use reads_slice in \<open>blast intro: append_Nil [symmetric]\<close>)

lemma scans_skip [scans_intro]: "scans 0 (\<lambda>_. skip_transaction)"
  unfolding skip_transaction_def [abs_def] by (intro scans_intro scans_weaken [OF scans_transaction]) simp

text \<open>The part of \<open>scan_entry\<close> behind the counts: the transactions and the slice over them.\<close>

definition entry_body :: "u64 \<Rightarrow> bytes \<Rightarrow> u64 \<Rightarrow> nat \<Rightarrow> entry_view scanner" where
  "entry_body h hash n s c = bind_out (repeat_scan (unat n) skip_transaction c) (\<lambda>(_, c).
     bind_out (slice (cu_bytes c) s (cu_offset c)) (\<lambda>txs.
     Inr (\<lparr>ev_num_hashes = h, ev_hash = hash, ev_num_transactions = n, ev_transactions = txs\<rparr>, c)))"

lemma scan_entry_eq:
  "scan_entry c = bind_out (cursor_u64 c) (\<lambda>(h, c). bind_out (cursor_take 32 c) (\<lambda>(hash, c).
     bind_out (cursor_u64 c) (\<lambda>(n, c). entry_body h hash n (cu_offset c) c)))"
  by (simp add: scan_entry_def entry_body_def Let_def)

lemma scan_entry_bind:
  "(\<lambda>_. scan_entry) = (\<lambda>_ c. bind_out (cursor_u64 c) (\<lambda>(h, c). bind_out (cursor_take 32 c) (\<lambda>(hash, c).
     bind_out (cursor_u64 c) (\<lambda>(n, c). entry_body h hash n (cu_offset c) c))))"
  by (rule ext, rule ext) (rule scan_entry_eq)

lemma scans_entry_body: "scans 0 (entry_body h hash n)"
  unfolding entry_body_def [abs_def] by (intro scans_intro)

lemma scans_entry: "scans 8 (\<lambda>_. scan_entry)"
  unfolding scan_entry_bind
  by (rule scans_bind_first [OF scans_u64], intro scans_intro scans_weaken [OF scans_u64] scans_here [OF _ scans_entry_body])
    simp_all

section \<open>Iterators\<close>

lemma unat_pred:
  assumes "Suc k = unat (n::u64)"
  shows "n \<noteq> 0" and "k = unat (n - 1)"
proof -
  show "n \<noteq> 0" using assms by (metis nat.distinct(1) unat_0)
  then show "k = unat (n - 1)" using assms by (simp add: unat_minus_one)
qed

text \<open>
  What an iterator may rely on: the contract of its scanner. The items come from consecutive pieces of
  the bytes, and the iteration ends with the announced count or with one error.
\<close>

locale item_scanner =
  fixes scan :: "'a scanner"
  assumes contract: "scans 1 (\<lambda>_. scan)"
begin

abbreviation pieces :: "bytes list \<Rightarrow> 'a list \<Rightarrow> bool" where
  "pieces \<equiv> list_all2 (\<lambda>w x. w \<noteq> [] \<and> length w < 2 ^ 64 \<and> reads (\<lambda>_. scan) [] w x)"

lemma scan_cases:
  assumes "length (p @ rest) < 2 ^ 64"
  obtains (err) e where "scan (at (p @ rest) (length p)) = Inl (Err e)"
    | (item) x w post where "rest = w @ post" and "w \<noteq> []" and "reads (\<lambda>_. scan) [] w x"
      and "scan (at (p @ rest) (length p)) = Inr (x, at (p @ rest) (length (p @ w)))"
proof -
  from contract [unfolded scans_def, rule_format, of p "[]" rest] assms
  consider (a) e where "scan (at (p @ rest) (length p)) = Inl (Err e)"
    | (b) x w post where "rest = w @ post" "1 \<le> length w" "reads (\<lambda>_. scan) [] w x" by auto
  then show thesis
  proof cases
    case a
    then show thesis by (rule err)
  next
    case (b x w post)
    have "scan (at (p @ w @ post) (length p)) = Inr (x, at (p @ w @ post) (length (p @ w)))"
      using b(3) [unfolded reads_def, rule_format, of p post] assms b(1) by simp
    with b show thesis by (intro item [of w post x]) auto
  qed
qed

lemma iter_items_shape:
  assumes "length (p @ rest) < 2 ^ 64"
  shows "\<exists>ws xs tl. iter_items scan \<lparr>it_cursor = at (p @ rest) (length p), it_remaining = n\<rparr> = map Inr xs @ tl \<and>
    pieces ws xs \<and> (\<exists>post. rest = concat ws @ post) \<and>
    (tl = [] \<and> length xs = unat n \<or> (\<exists>e. tl = [Inl (Err e)]) \<and> length xs < unat n)"
  using assms
proof (induction "unat n" arbitrary: n p rest)
  case 0
  then have "n = 0" by (simp add: unat_eq_0)
  then show ?case by (intro exI [of _ "[]"]) (simp add: iter_items.simps iter_next_def)
next
  case (Suc k)
  note n = unat_pred [OF Suc.hyps(2)]
  show ?case
  proof (cases rule: scan_cases [OF Suc.prems, case_names err item])
    case (err e)
    then have "iter_items scan \<lparr>it_cursor = at (p @ rest) (length p), it_remaining = n\<rparr> = map Inr [] @ [Inl (Err e)]"
      using n(1) by (simp add: iter_items.simps [of scan "\<lparr>it_cursor = _, it_remaining = n\<rparr>"] iter_next_def Let_def)
        (simp add: iter_items.simps iter_next_def)
    moreover have "0 < unat n" using Suc.hyps(2) by simp
    ultimately show ?thesis
      by (intro exI [of _ "[]"] exI [of _ "[Inl (Err e)]"]) (auto intro: list_all2_Nil [THEN iffD2])
  next
    case (item x w post)
    have len: "length ((p @ w) @ post) < 2 ^ 64" using Suc.prems item(1) by simp
    obtain ws xs tl where ih: "iter_items scan \<lparr>it_cursor = at ((p @ w) @ post) (length (p @ w)), it_remaining = n - 1\<rparr> = map Inr xs @ tl"
        "pieces ws xs" "\<exists>q. post = concat ws @ q"
        "tl = [] \<and> length xs = unat (n - 1) \<or> (\<exists>e. tl = [Inl (Err e)]) \<and> length xs < unat (n - 1)"
      using Suc.hyps(1) [OF n(2) len] by blast
    have "iter_items scan \<lparr>it_cursor = at (p @ rest) (length p), it_remaining = n\<rparr> = map Inr (x # xs) @ tl"
      using item(4) ih(1) n(1) item(1)
      by (simp add: iter_items.simps [of scan "\<lparr>it_cursor = _, it_remaining = n\<rparr>"] iter_next_def Let_def)
    moreover have "pieces (w # ws) (x # xs)" using ih(2) item(1-3) Suc.prems by simp
    moreover have "\<exists>q. rest = concat (w # ws) @ q" using item(1) ih(3) by auto
    moreover have "tl = [] \<and> length (x # xs) = unat n \<or> (\<exists>e. tl = [Inl (Err e)]) \<and> length (x # xs) < unat n"
      using ih(4) n(2) Suc.hyps(2) by auto
    ultimately show ?thesis by blast
  qed
qed

lemma pieces_map:
  assumes "\<forall>y\<in>set ys. enc y \<noteq> [] \<and> reads (\<lambda>_. scan) [] (enc y) (item y)" and "length (concat (map enc ys)) < 2 ^ 64"
  shows "pieces (map enc ys) (map item ys)"
  using assms by (induction ys) auto

lemma pieces_length: "pieces ws xs \<Longrightarrow> length xs \<le> length (concat ws)"
proof (induction rule: list_all2_induct)
  case (Cons w ws x xs)
  then have "1 \<le> length w" by (cases w) auto
  with Cons show ?case by simp
qed simp

lemma iter_items_reads:
  assumes "pieces ws xs" and "length (p @ concat ws @ post) < 2 ^ 64" and "length xs = unat n"
  shows "iter_items scan \<lparr>it_cursor = at (p @ concat ws @ post) (length p), it_remaining = n\<rparr> = map Inr xs"
  using assms
proof (induction arbitrary: p n rule: list_all2_induct)
  case Nil
  then have "n = 0" by (simp add: unat_eq_0)
  then show ?case by (simp add: iter_items.simps iter_next_def)
next
  case (Cons w ws x xs)
  note n = unat_pred [of "length xs" n, OF Cons.prems(2) [simplified]]
  have "scan (at (p @ w @ concat ws @ post) (length p)) = Inr (x, at (p @ w @ concat ws @ post) (length (p @ w)))"
    using Cons.hyps(1) [THEN conjunct2, THEN conjunct2, unfolded reads_def, rule_format, of p "concat ws @ post"] Cons.prems(1) by simp
  then show ?case
    using Cons.IH [of "p @ w" "n - 1"] Cons.prems(1) n
    by (simp add: iter_items.simps [of scan "\<lparr>it_cursor = _, it_remaining = n\<rparr>"] iter_next_def Let_def)
qed

lemma repeat_pieces:
  assumes "length (p @ rest) < 2 ^ 64"
    and "repeat_scan n (\<lambda>c. bind_out (scan c) (\<lambda>(_, c). Inr ((), c))) (at (p @ rest) (length p)) = Inr ((), c')"
  shows "\<exists>ws xs post. pieces ws xs \<and> length xs = n \<and> rest = concat ws @ post \<and> c' = at (p @ rest) (length (p @ concat ws))"
  using assms
proof (induction n arbitrary: p rest)
  case 0
  then show ?case by (intro exI [of _ "[]"] exI [of _ rest]) auto
next
  case (Suc n)
  show ?case
  proof (cases rule: scan_cases [OF Suc.prems(1), case_names err item])
    case (err e)
    then show ?thesis using Suc.prems(2) by simp
  next
    case (item x w post)
    have "length ((p @ w) @ post) < 2 ^ 64" using Suc.prems(1) item(1) by simp
    moreover have "repeat_scan n (\<lambda>c. bind_out (scan c) (\<lambda>(_, c). Inr ((), c))) (at ((p @ w) @ post) (length (p @ w))) = Inr ((), c')"
      using Suc.prems(2) item(1,4) by simp
    ultimately obtain ws xs q where ih: "pieces ws xs" "length xs = n" "post = concat ws @ q"
        "c' = at ((p @ w) @ post) (length ((p @ w) @ concat ws))"
      using Suc.IH [of "p @ w" post] by blast
    with item Suc.prems(1) have "pieces (w # ws) (x # xs)" "length (x # xs) = Suc n" "rest = concat (w # ws) @ q"
      "c' = at (p @ rest) (length (p @ concat (w # ws)))" by auto
    then show ?thesis by blast
  qed
qed

end

locale slice_scanner = item_scanner +
  fixes item_bytes :: "'a \<Rightarrow> bytes"
  assumes whole: "length w < 2 ^ 64 \<Longrightarrow> reads (\<lambda>_. scan) [] w x \<Longrightarrow> item_bytes x = w"
begin

lemma pieces_bytes: "pieces ws xs \<Longrightarrow> map item_bytes xs = ws"
  by (induction rule: list_all2_induct) (auto simp: whole)

lemma items_tile:
  assumes "length (p @ rest) < 2 ^ 64"
  shows "\<exists>xs tl post. iter_items scan \<lparr>it_cursor = at (p @ rest) (length p), it_remaining = n\<rparr> = map Inr xs @ tl \<and>
    rest = concat (map item_bytes xs) @ post \<and> length xs \<le> length (concat (map item_bytes xs)) \<and>
    (tl = [] \<and> length xs = unat n \<or> (\<exists>e. tl = [Inl (Err e)]) \<and> length xs < unat n)"
proof -
  obtain ws xs tl post where "iter_items scan \<lparr>it_cursor = at (p @ rest) (length p), it_remaining = n\<rparr> = map Inr xs @ tl"
      "pieces ws xs" "rest = concat ws @ post"
      "tl = [] \<and> length xs = unat n \<or> (\<exists>e. tl = [Inl (Err e)]) \<and> length xs < unat n"
    using iter_items_shape [OF assms, of n] by blast
  with pieces_bytes [of ws xs] pieces_length [of ws xs] show ?thesis by blast
qed

end

text \<open>The view of a transaction is the slice from its start to the cursor.\<close>

definition ends :: "(nat \<Rightarrow> tx_view scanner) \<Rightarrow> bool" where
  "ends m \<longleftrightarrow> (\<forall>s c x c'. m s c = Inr (x, c') \<longrightarrow>
     slice (cu_bytes c') s (cu_offset c') = (Inr (tv_bytes x) :: (view_error, bytes) outcome))"

named_theorems ends_intro \<open>rules for ends\<close>

lemma ends_bind [ends_intro]: "(\<And>x. ends (f x)) \<Longrightarrow> ends (\<lambda>s c. bind_out (m s c) (\<lambda>(x, c). f x s c))"
  by (auto simp: ends_def bind_out_def split: sum.splits)

lemma ends_let [ends_intro]: "(\<And>y. ends (h y)) \<Longrightarrow> ends (\<lambda>s c. let y = v s c in h y s c)"
  by (simp add: ends_def)

lemma ends_if [ends_intro]: "ends m \<Longrightarrow> ends n \<Longrightarrow> ends (\<lambda>s c. if P then m s c else n s c)"
  by (cases P) simp_all

lemma ends_fail [ends_intro]: "ends (\<lambda>_ _. Inl e)"
  by (simp add: ends_def)

lemma ends_view [ends_intro]: "ends (\<lambda>s. tx_view_from s version off n)"
  by (auto simp: ends_def tx_view_from_def bind_out_def slice_def split: sum.splits if_splits)

lemma ends_legacy: "ends scan_legacy_or_v0"
  unfolding scan_legacy_or_v0_def [abs_def] by (intro ends_intro)

lemma ends_v1: "ends scan_v1"
  unfolding scan_v1_def [abs_def] by (intro ends_intro)

interpretation txs: slice_scanner scan_transaction tv_bytes
proof
  show "scans 1 (\<lambda>_. scan_transaction)" by (rule scans_transaction)
  fix w :: bytes and x assume w: "length w < 2 ^ 64" and r: "reads (\<lambda>_. scan_transaction) [] w x"
  have "scan_transaction (at w 0) = Inr (x, at w (length w))"
    using r [unfolded reads_def, rule_format, of "[]" "[]"] w by simp
  then have "scan_legacy_or_v0 0 (at w 0) = Inr (x, at w (length w)) \<or> scan_v1 0 (at w 0) = Inr (x, at w (length w))"
    by (auto simp: scan_transaction_def Let_def bind_out_def split: sum.splits if_splits)
  then have "slice w 0 (length w) = (Inr (tv_bytes x) :: (view_error, bytes) outcome)"
    using ends_legacy ends_v1 by (fastforce simp: ends_def)
  then show "tv_bytes x = w" by (simp add: slice_def sub_list_def)
qed

text \<open>The bytes an entry view stands for.\<close>

definition entry_bytes :: "entry_view \<Rightarrow> bytes" where
  "entry_bytes ev = le_bytes 8 (unat (ev_num_hashes ev)) @ ev_hash ev @
     le_bytes 8 (unat (ev_num_transactions ev)) @ ev_transactions ev"

lemma cursor_u64_at:
  assumes "length (p @ rest) < 2 ^ 64" and "cursor_u64 (at (p @ rest) (length p)) = Inr (v, c)"
  obtains post where "rest = le_bytes 8 (unat v) @ post" and "c = at (p @ le_bytes 8 (unat v) @ post) (length (p @ le_bytes 8 (unat v)))"
proof -
  have "8 \<le> length rest" and v: "v = word_of_nat (le_val (take 8 rest))" and c: "c = at (p @ rest) (length p + 8)"
    using assms(2) cursor_take_at [OF assms(1), of 8] by (auto simp: cursor_u64_def split: if_splits)
  then have t: "length (take 8 rest) = 8" by simp
  have "le_val (take 8 rest) < 2 ^ 64" using le_val_bound [of "take 8 rest"] unfolding t by simp
  then have "unat v = le_val (take 8 rest)" unfolding v by (simp add: unsigned_of_nat take_bit_nat_eq_self)
  then have "le_bytes 8 (unat v) = take 8 rest" using le_bytes_le_val [of "take 8 rest"] t by simp
  then have "rest = le_bytes 8 (unat v) @ drop 8 rest" by simp
  with c show thesis using that by (metis length_append length_le_bytes)
qed

lemma entry_whole:
  assumes w: "length w < 2 ^ 64" and run: "scan_entry (at w 0) = Inr (ev, at w (length w))"
  shows "entry_bytes ev = w" and "length (ev_hash ev) = 32"
    and "\<exists>txs. txs.pieces (map tv_bytes txs) txs \<and> length txs = unat (ev_num_transactions ev) \<and>
      ev_transactions ev = concat (map tv_bytes txs)"
proof -
  obtain h c1 where h: "cursor_u64 (at w 0) = Inr (h, c1)"
      and run1: "bind_out (cursor_take 32 c1) (\<lambda>(hash, c). bind_out (cursor_u64 c) (\<lambda>(n, c). entry_body h hash n (cu_offset c) c)) =
        Inr (ev, at w (length w))"
    using run [unfolded scan_entry_eq] by (auto simp: bind_out_Inr_iff)
  let ?a = "le_bytes 8 (unat h)"
  obtain r1 where r1: "w = ?a @ r1" "c1 = at w (length ?a)" using cursor_u64_at [of "[]" w h c1] w h by auto
  from run1 cursor_take_at [of ?a r1 32] w r1 have t: "32 \<le> length r1"
    and run2: "bind_out (cursor_u64 (at w 40)) (\<lambda>(n, c). entry_body h (take 32 r1) n (cu_offset c) c) = Inr (ev, at w (length w))"
    by (auto split: if_splits)
  let ?p = "?a @ take 32 r1"
  have wp: "w = ?p @ drop 32 r1" "length ?p = 40" using r1(1) t by simp_all
  obtain n c3 where n: "cursor_u64 (at w 40) = Inr (n, c3)" and run3: "entry_body h (take 32 r1) n (cu_offset c3) c3 = Inr (ev, at w (length w))"
    using run2 by (auto simp: bind_out_def split: sum.splits)
  obtain r3 where r3: "drop 32 r1 = le_bytes 8 (unat n) @ r3" "c3 = at w 48"
    using cursor_u64_at [of ?p "drop 32 r1" n c3] w n wp by auto
  let ?q = "?p @ le_bytes 8 (unat n)"
  have wq: "w = ?q @ r3" "length ?q = 48" using wp r3(1) by simp_all
  obtain c4 where rep: "repeat_scan (unat n) skip_transaction (at w 48) = Inr ((), c4)"
    and fin: "bind_out (slice (cu_bytes c4) 48 (cu_offset c4)) (\<lambda>txs. Inr (\<lparr>ev_num_hashes = h, ev_hash = take 32 r1,
        ev_num_transactions = n, ev_transactions = txs\<rparr>, c4)) = (Inr (ev, at w (length w)) :: (view_error, _) outcome)"
    using run3 r3(2) by (auto simp: entry_body_def bind_out_def split: sum.splits)
  obtain ws xs post where ws: "txs.pieces ws xs" "length xs = unat n" "r3 = concat ws @ post" "c4 = at w (length (?q @ concat ws))"
    using txs.repeat_pieces [of ?q r3 "unat n" c4] rep w wq unfolding skip_transaction_def [abs_def] by auto
  have c4: "c4 = at w (length w)" and ev: "ev = \<lparr>ev_num_hashes = h, ev_hash = take 32 r1, ev_num_transactions = n,
      ev_transactions = sub_list w 48 (length w)\<rparr>"
    using fin by (auto simp: bind_out_def slice_def split: sum.splits if_splits)
  have "length (?q @ concat ws) = length w" using ws(4) c4 by (simp add: at_def)
  then have "post = []" using wq(1) ws(3) by simp
  then have body: "sub_list w 48 (length w) = concat ws" using wq ws(3) by (simp add: sub_list_def)
  have "entry_bytes ev = ?q @ concat ws" by (simp add: entry_bytes_def ev body)
  then show "entry_bytes ev = w" using wq(1) ws(3) \<open>post = []\<close> by simp
  show "length (ev_hash ev) = 32" using t by (simp add: ev)
  show "\<exists>txs. txs.pieces (map tv_bytes txs) txs \<and> length txs = unat (ev_num_transactions ev) \<and>
      ev_transactions ev = concat (map tv_bytes txs)"
    using ws(1,2) txs.pieces_bytes [OF ws(1)] by (auto simp: ev body)
qed

interpretation ents: slice_scanner scan_entry entry_bytes
proof
  show "scans 1 (\<lambda>_. scan_entry)" using scans_entry by (rule scans_weaken) simp
  fix w :: bytes and x assume w: "length w < 2 ^ 64" and r: "reads (\<lambda>_. scan_entry) [] w x"
  have "scan_entry (at w 0) = Inr (x, at w (length w))"
    using r [unfolded reads_def, rule_format, of "[]" "[]"] w by simp
  from entry_whole(1) [OF w this] show "entry_bytes x = w" .
qed

end
