(* ===== verification/ViewWire.thy ===== *)
theory ViewWire
  imports View
begin

text \<open>
  The wire layout that the documentation of \<open>src/view.rs\<close> gives for segments, entries and legacy, v0
  and v1 transactions, as a printer from abstract values to bytes; the proof that the scanners of theory
  \<open>View\<close> read exactly what it prints; and the properties of the view.
\<close>

section \<open>The documented wire layout\<close>

record wire_instruction =
  wi_program :: u8
  wi_accounts :: bytes
  wi_data :: bytes

record wire_lookup =
  wl_table :: bytes
  wl_writable :: bytes
  wl_readonly :: bytes

record wire_message =
  wm_header :: bytes
  wm_keys :: "bytes list"
  wm_blockhash :: bytes
  wm_instructions :: "wire_instruction list"

datatype wire_tx =
    LegacyTx "bytes list" wire_message
  | V0Tx "bytes list" wire_message "wire_lookup list"
  | V1Tx wire_message u32 bytes "bytes list"

definition counted :: "bytes \<Rightarrow> bytes" where
  "counted b = short_vec (length b) @ b"

definition counted_list :: "bytes list \<Rightarrow> bytes" where
  "counted_list bs = short_vec (length bs) @ concat bs"

definition instruction_wire :: "wire_instruction \<Rightarrow> bytes" where
  "instruction_wire ix = [wi_program ix] @ counted (wi_accounts ix) @ counted (wi_data ix)"

definition lookup_wire :: "wire_lookup \<Rightarrow> bytes" where
  "lookup_wire l = wl_table l @ counted (wl_writable l) @ counted (wl_readonly l)"

definition message_wire :: "wire_message \<Rightarrow> bytes" where
  "message_wire m = wm_header m @ counted_list (wm_keys m) @ wm_blockhash m @
     counted_list (map instruction_wire (wm_instructions m))"

definition v1_body :: "wire_message \<Rightarrow> u32 \<Rightarrow> bytes \<Rightarrow> bytes" where
  "v1_body m cfg_mask config = [0x81] @ wm_header m @ le_bytes 4 (unat cfg_mask) @ wm_blockhash m @
     [word_of_nat (length (wm_instructions m))] @ [word_of_nat (length (wm_keys m))] @ concat (wm_keys m) @ config @
     concat (map (\<lambda>ix. [wi_program ix, word_of_nat (length (wi_accounts ix))] @ le_bytes 2 (length (wi_data ix))) (wm_instructions m)) @
     concat (map (\<lambda>ix. wi_accounts ix @ wi_data ix) (wm_instructions m))"

fun tx_wire :: "wire_tx \<Rightarrow> bytes" where
  "tx_wire (LegacyTx sigs m) = counted_list sigs @ message_wire m"
| "tx_wire (V0Tx sigs m ls) = counted_list sigs @ [0x80] @ message_wire m @ counted_list (map lookup_wire ls)"
| "tx_wire (V1Tx m cfg_mask config sigs) = v1_body m cfg_mask config @ concat sigs"

text \<open>Field sizes the layout allows: lengths fit their prefixes, at most 127 signatures before the message.\<close>

definition message_ok :: "wire_message \<Rightarrow> bool" where
  "message_ok m \<longleftrightarrow> length (wm_header m) = 3 \<and> length (wm_blockhash m) = 32 \<and> (\<forall>k\<in>set (wm_keys m). length k = 32)"

definition short_ok :: "wire_message \<Rightarrow> bool" where
  "short_ok m \<longleftrightarrow> length (wm_keys m) < 2097152 \<and> length (wm_instructions m) < 2097152 \<and>
     (\<forall>ix\<in>set (wm_instructions m). length (wi_accounts ix) < 2097152 \<and> length (wi_data ix) < 2097152)"

definition sigs_ok :: "bytes list \<Rightarrow> bool" where
  "sigs_ok sigs \<longleftrightarrow> length sigs < 128 \<and> (\<forall>s\<in>set sigs. length s = 64)"

definition lookup_ok :: "wire_lookup \<Rightarrow> bool" where
  "lookup_ok l \<longleftrightarrow> length (wl_table l) = 32 \<and> length (wl_writable l) < 2097152 \<and> length (wl_readonly l) < 2097152"

fun tx_ok :: "wire_tx \<Rightarrow> bool" where
  "tx_ok (LegacyTx sigs m) \<longleftrightarrow> sigs_ok sigs \<and> message_ok m \<and> short_ok m \<and> unat (hd (wm_header m)) < 128"
| "tx_ok (V0Tx sigs m ls) \<longleftrightarrow> sigs_ok sigs \<and> message_ok m \<and> short_ok m \<and> length ls < 2097152 \<and> (\<forall>l\<in>set ls. lookup_ok l)"
| "tx_ok (V1Tx m cfg_mask config sigs) \<longleftrightarrow> message_ok m \<and> length (wm_keys m) < 256 \<and> length (wm_instructions m) < 256 \<and>
     (\<forall>ix\<in>set (wm_instructions m). length (wi_accounts ix) < 256 \<and> length (wi_data ix) < 65536) \<and>
     \<not> bad_mask cfg_mask \<and> length config = config_len cfg_mask \<and>
     length sigs = unat (hd (wm_header m)) \<and> (\<forall>s\<in>set sigs. length s = 64)"

text \<open>
  What the scanner makes of a transaction of the layout, with the cast of the signature offset to 16 bits that it does. The
  properties do not trust this description: they compare a view with the transaction itself, by \<open>views_tx\<close> below.
\<close>

fun scanned_view :: "wire_tx \<Rightarrow> tx_view" where
  "scanned_view (LegacyTx sigs m) = \<lparr>tv_bytes = tx_wire (LegacyTx sigs m), tv_version = Legacy, tv_signatures_offset = 1,
     tv_num_signatures = word_of_nat (length sigs)\<rparr>"
| "scanned_view (V0Tx sigs m ls) = \<lparr>tv_bytes = tx_wire (V0Tx sigs m ls), tv_version = V0, tv_signatures_offset = 1,
     tv_num_signatures = word_of_nat (length sigs)\<rparr>"
| "scanned_view (V1Tx m cfg_mask config sigs) = \<lparr>tv_bytes = tx_wire (V1Tx m cfg_mask config sigs), tv_version = V1,
     tv_signatures_offset = word_of_nat (length (v1_body m cfg_mask config)), tv_num_signatures = word_of_nat (length sigs)\<rparr>"

lemma reads_counted:
  assumes "length b < 2097152" and "reads (f b) (done @ short_vec (length b) @ b) v y"
  shows "reads (\<lambda>s c. bind_out (shortvec_len c) (\<lambda>(n, c). bind_out (cursor_take n c) (\<lambda>(x, c). f x s c))) done (counted b @ v) y"
proof -
  have "reads (\<lambda>s c. bind_out (shortvec_len c) (\<lambda>(n, c). bind_out (cursor_take n c) (\<lambda>(x, c). f x s c)))
      done (short_vec (length b) @ b @ v) y"
    by (rule reads_bind [OF reads_shortvec [OF assms(1)]], rule reads_bind [OF reads_cursor_take [OF refl]]) (use assms(2) in simp)
  then show ?thesis by (simp add: counted_def)
qed

lemma reads_instruction:
  assumes "length (wi_accounts ix) < 2097152" and "length (wi_data ix) < 2097152"
  shows "reads (\<lambda>_. scan_instruction) done (instruction_wire ix) ()"
proof -
  have "reads (\<lambda>_. scan_instruction) done ([wi_program ix] @ counted (wi_accounts ix) @ counted (wi_data ix) @ []) ()"
    unfolding scan_instruction_def [abs_def]
    by (rule reads_bind [OF reads_u8], rule reads_counted [OF assms(1)], rule reads_counted [OF assms(2)]) (rule reads_return)
  then show ?thesis by (simp add: instruction_wire_def)
qed

lemma reads_lookup:
  assumes "lookup_ok l"
  shows "reads (\<lambda>_. scan_lookup) done (lookup_wire l) ()"
proof -
  have "length (wl_table l) = 32" "length (wl_writable l) < 2097152" "length (wl_readonly l) < 2097152"
    using assms by (auto simp: lookup_ok_def)
  then have "reads (\<lambda>_. scan_lookup) done (wl_table l @ counted (wl_writable l) @ counted (wl_readonly l) @ []) ()"
    unfolding scan_lookup_def [abs_def]
    by - (rule reads_bind [OF reads_cursor_take], assumption, rule reads_counted, assumption, rule reads_counted, assumption, rule reads_return)
  then show ?thesis by (simp add: lookup_wire_def)
qed

text \<open>A counted list of items of one size, and one of items a loop scans.\<close>

lemma length_concat_fixed: "\<forall>b\<in>set bs. length b = k \<Longrightarrow> length (concat bs) = length bs * k"
  by (induction bs) auto

lemma length_concat_ge: "\<forall>b\<in>set bs. k \<le> length b \<Longrightarrow> k * length bs \<le> length (concat bs)"
  by (induction bs) auto

lemma reads_counted_take:
  assumes "length bs < 2097152" and "\<forall>b\<in>set bs. length b = k"
    and "reads (f (concat bs)) (done @ counted_list bs) v y"
  shows "reads (\<lambda>s c. bind_out (shortvec_len c) (\<lambda>(n, c). bind_out (cursor_take (n * k) c) (\<lambda>(x, c). f x s c)))
    done (counted_list bs @ v) y"
proof -
  have "reads (\<lambda>s c. bind_out (shortvec_len c) (\<lambda>(n, c). bind_out (cursor_take (n * k) c) (\<lambda>(x, c). f x s c)))
      done (short_vec (length bs) @ concat bs @ v) y"
    by (rule reads_bind [OF reads_shortvec [OF assms(1)]], rule reads_bind [OF reads_cursor_take [OF length_concat_fixed [OF assms(2)]]])
      (use assms(3) in \<open>simp add: counted_list_def\<close>)
  then show ?thesis by (simp add: counted_list_def)
qed

lemma reads_counted_loop:
  assumes "length ws < 2097152" and "\<forall>w\<in>set ws. \<forall>done. reads (\<lambda>_. step) done w ()"
    and "reads (f ()) (done @ counted_list ws) v y"
  shows "reads (\<lambda>s c. bind_out (shortvec_len c) (\<lambda>(n, c). bind_out (repeat_scan n step c) (\<lambda>(x, c). f x s c)))
    done (counted_list ws @ v) y"
proof -
  have "reads (\<lambda>s c. bind_out (shortvec_len c) (\<lambda>(n, c). bind_out (repeat_scan n step c) (\<lambda>(x, c). f x s c)))
      done (short_vec (length ws) @ concat ws @ v) y"
    by (rule reads_bind [OF reads_shortvec [OF assms(1)]], rule reads_bind [OF reads_repeat [OF assms(2)]])
      (use assms(3) in \<open>simp add: counted_list_def\<close>)
  then show ?thesis by (simp add: counted_list_def)
qed

lemma reads_lookups:
  shows "reads (\<lambda>_. scan_lookups Legacy) done [] ()"
    and "length ls < 2097152 \<Longrightarrow> \<forall>l\<in>set ls. lookup_ok l \<Longrightarrow> reads (\<lambda>_. scan_lookups V0) done (counted_list (map lookup_wire ls)) ()"
proof -
  show "reads (\<lambda>_. scan_lookups Legacy) done [] ()" by (simp add: reads_def scan_lookups_def)
  assume "length ls < 2097152" and ok: "\<forall>l\<in>set ls. lookup_ok l"
  moreover have "\<forall>w\<in>set (map lookup_wire ls). \<forall>done. reads (\<lambda>_. scan_lookup) done w ()" using ok reads_lookup by simp
  ultimately have "reads (\<lambda>_ c. bind_out (shortvec_len c) (\<lambda>(n, c). bind_out (repeat_scan n scan_lookup c) (\<lambda>(x, c). Inr ((), c))))
      done (counted_list (map lookup_wire ls) @ []) ()"
    by (intro reads_counted_loop reads_return) simp_all
  moreover have "bind_out r (\<lambda>(x, c). Inr ((), c)) = r" for r :: "(view_error, unit \<times> cursor) outcome"
    by (cases r) auto
  ultimately show "reads (\<lambda>_. scan_lookups V0) done (counted_list (map lookup_wire ls)) ()"
    by (simp add: scan_lookups_def [abs_def])
qed

lemma reads_version:
  assumes "length h = 3"
  shows "unat (hd h) < 128 \<Longrightarrow> reads (g Legacy h) (done @ h) v y \<Longrightarrow>
      reads (\<lambda>s c. bind_out (scan_version c) (\<lambda>(ver, c). bind_out (cursor_take 3 c) (\<lambda>(h, c). g ver h s c))) done (h @ v) y"
    and "reads (g V0 h) ((done @ [0x80]) @ h) v y \<Longrightarrow>
      reads (\<lambda>s c. bind_out (scan_version c) (\<lambda>(ver, c). bind_out (cursor_take 3 c) (\<lambda>(h, c). g ver h s c))) done ([0x80] @ h @ v) y"
proof -
  obtain b t where h: "h = b # t" using assms by (cases h) auto
  assume low: "unat (hd h) < 128" and r: "reads (g Legacy h) (done @ h) v y"
  have "reads (\<lambda>s c. bind_out (cursor_take 3 c) (\<lambda>(h, c). g Legacy h s c)) done (h @ v) y"
    by (rule reads_bind [OF reads_cursor_take [OF assms]]) (rule r)
  then show "reads (\<lambda>s c. bind_out (scan_version c) (\<lambda>(ver, c). bind_out (cursor_take 3 c) (\<lambda>(h, c). g ver h s c))) done (h @ v) y"
    unfolding scan_version_take h append_Cons using low h by (intro reads_peek) (simp add: byte_high)
next
  assume r: "reads (g V0 h) ((done @ [0x80]) @ h) v y"
  have "reads (\<lambda>s c. bind_out (cursor_u8 c) (\<lambda>(_, c). bind_out (cursor_take 3 c) (\<lambda>(h, c). g V0 h s c))) done ([0x80] @ h @ v) y"
    by (rule reads_bind [OF reads_u8], rule reads_bind [OF reads_cursor_take [OF assms]]) (rule r)
  then show "reads (\<lambda>s c. bind_out (scan_version c) (\<lambda>(ver, c). bind_out (cursor_take 3 c) (\<lambda>(h, c). g ver h s c))) done ([0x80] @ h @ v) y"
    unfolding scan_version_take append_Cons by (intro reads_peek) simp
qed

text \<open>The message behind the header.\<close>

definition message_rest :: "tx_version \<Rightarrow> u16 \<Rightarrow> u8 \<Rightarrow> nat \<Rightarrow> tx_view scanner" where
  "message_rest version off n s c =
     bind_out (shortvec_len c) (\<lambda>(num_keys, c).
     bind_out (cursor_take (num_keys * 32) c) (\<lambda>(_, c).
     bind_out (cursor_take 32 c) (\<lambda>(_, c).
     bind_out (shortvec_len c) (\<lambda>(num_instructions, c).
     bind_out (repeat_scan num_instructions scan_instruction c) (\<lambda>(_, c).
     bind_out (scan_lookups version c) (\<lambda>(_, c). tx_view_from s version off n c))))))"

lemma reads_message_rest:
  assumes m: "message_ok m" "short_ok m" and l: "\<And>d. reads (\<lambda>_. scan_lookups version) d ls ()"
    and w: "w = counted_list (wm_keys m) @ wm_blockhash m @ counted_list (map instruction_wire (wm_instructions m)) @ ls"
  shows "reads (message_rest version off n) done w
    \<lparr>tv_bytes = done @ w, tv_version = version, tv_signatures_offset = off, tv_num_signatures = n\<rparr>"
proof -
  have ixs: "\<forall>w\<in>set (map instruction_wire (wm_instructions m)). \<forall>d. reads (\<lambda>_. scan_instruction) d w ()"
    using m(2) reads_instruction by (simp add: short_ok_def)
  have bh: "length (wm_blockhash m) = 32" and keys: "\<forall>b\<in>set (wm_keys m). length b = 32" using m(1) by (simp_all add: message_ok_def)
  have sizes: "length (wm_keys m) < 2097152" "length (map instruction_wire (wm_instructions m)) < 2097152"
    using m(2) by (simp_all add: short_ok_def)
  have "reads (message_rest version off n) done (counted_list (wm_keys m) @ wm_blockhash m @
      counted_list (map instruction_wire (wm_instructions m)) @ ls @ [])
    \<lparr>tv_bytes = (((done @ counted_list (wm_keys m)) @ wm_blockhash m) @ counted_list (map instruction_wire (wm_instructions m))) @ ls,
     tv_version = version, tv_signatures_offset = off, tv_num_signatures = n\<rparr>"
    unfolding message_rest_def [abs_def]
    by (rule reads_counted_take [OF sizes(1) keys], rule reads_bind [OF reads_cursor_take [OF bh]],
        rule reads_counted_loop [OF sizes(2) ixs], rule reads_bind [OF l], rule reads_view)
  then show ?thesis using w by simp
qed

lemma scan_legacy_rest:
  "scan_legacy_or_v0 = (\<lambda>s c. bind_out (shortvec_len c) (\<lambda>(num_signatures, c).
     let off = word_of_nat (cu_offset c - s) in
     bind_out (cursor_take (num_signatures * 64) c) (\<lambda>(_, c). bind_out (scan_version c) (\<lambda>(version, c).
     bind_out (cursor_take 3 c) (\<lambda>(h, c). message_rest version off (word_of_nat num_signatures) s c)))))"
  by (rule ext, rule ext) (simp add: scan_legacy_or_v0_def message_rest_def)

lemma reads_sigs:
  assumes "sigs_ok sigs"
    and "reads (\<lambda>s c. bind_out (scan_version c) (\<lambda>(version, c). bind_out (cursor_take 3 c) (\<lambda>(h, c).
      message_rest version 1 (word_of_nat (length sigs)) s c))) (counted_list sigs) v y"
  shows "reads scan_legacy_or_v0 [] (counted_list sigs @ v) y"
proof -
  have n: "length sigs < 2097152" "short_vec (length sigs) = [word_of_nat (length sigs)]"
    and len: "length (concat sigs) = length sigs * 64"
    using assms(1) length_concat_fixed [of sigs 64] by (auto simp: sigs_ok_def short_vec_def)
  have "reads scan_legacy_or_v0 [] (short_vec (length sigs) @ concat sigs @ v) y"
    unfolding scan_legacy_rest
    by (rule reads_bind [OF reads_shortvec [OF n(1)]], rule reads_here_offset, rule reads_bind [OF reads_cursor_take [OF len]])
      (use assms(2) n(2) in \<open>simp add: counted_list_def\<close>)
  then show ?thesis by (simp add: counted_list_def)
qed

text \<open>The v1 layout.\<close>

definition ix_header :: "wire_instruction \<Rightarrow> bytes" where
  "ix_header ix = [wi_program ix, word_of_nat (length (wi_accounts ix))] @ le_bytes 2 (length (wi_data ix))"

lemma payloads_len_headers:
  assumes "\<forall>ix\<in>set ixs. length (wi_accounts ix) < 256 \<and> length (wi_data ix) < 65536"
  shows "payloads_len (concat (map ix_header ixs)) = length (concat (map (\<lambda>ix. wi_accounts ix @ wi_data ix) ixs))"
proof -
  have "chunks_exact 4 (concat (map ix_header ixs)) = map ix_header ixs"
    by (rule chunks_exact_concat) (auto simp: ix_header_def numeral_2_eq_2)
  moreover have "unat (ix_header ix ! 1) + le_val [ix_header ix ! 2, ix_header ix ! 3] = length (wi_accounts ix @ wi_data ix)"
    if "ix \<in> set ixs" for ix
  proof -
    obtain a b where ab: "le_bytes 2 (length (wi_data ix)) = [a, b]" by (simp add: numeral_2_eq_2)
    have "le_val [a, b] = length (wi_data ix)" using le_val_le_bytes [of "length (wi_data ix)" 2] assms that ab by auto
    then show ?thesis using assms that unat_byte by (simp add: ix_header_def ab)
  qed
  ultimately have "payloads_len (concat (map ix_header ixs)) = sum_list (map (\<lambda>ix. length (wi_accounts ix @ wi_data ix)) ixs)"
    by (simp add: payloads_len_def o_def cong: map_cong)
  then show ?thesis by (simp add: length_concat o_def)
qed

lemma reads_let: "reads (h v) done w y \<Longrightarrow> reads (\<lambda>s c. let x = v in h x s c) done w y"
  by simp

lemma reads_if: "\<not> P \<Longrightarrow> reads n done w y \<Longrightarrow> reads (\<lambda>s c. if P then m s c else n s c) done w y"
  by simp

lemma reads_v1_tail:
  assumes "length ss = unat n * 64"
  shows "reads (\<lambda>s c. let off = word_of_nat (cu_offset c - s) in
      bind_out (cursor_take (unat n * 64) c) (\<lambda>(_, c). tx_view_from s V1 off n c)) done ss
    \<lparr>tv_bytes = done @ ss, tv_version = V1, tv_signatures_offset = word_of_nat (length done), tv_num_signatures = n\<rparr>"
proof -
  have "reads (\<lambda>s c. bind_out (cursor_take (unat n * 64) c) (\<lambda>(_, c). tx_view_from s V1 (word_of_nat (length done)) n c))
      done (ss @ []) \<lparr>tv_bytes = done @ ss, tv_version = V1, tv_signatures_offset = word_of_nat (length done), tv_num_signatures = n\<rparr>"
    by (rule reads_bind [OF reads_cursor_take [OF assms]]) (rule reads_view)
  then show ?thesis by (intro reads_here_offset) simp
qed

lemma reads_v1:
  assumes ok: "tx_ok (V1Tx m cfg_mask config sigs)"
  shows "reads scan_v1 [] (tx_wire (V1Tx m cfg_mask config sigs)) (scanned_view (V1Tx m cfg_mask config sigs))"
proof -
  let ?ixs = "wm_instructions m" and ?n = "hd (wm_header m)"
  obtain t where t: "wm_header m = [?n] @ t" "length t = 2"
    using ok by (cases "wm_header m") (auto simp: message_ok_def)
  have mask: "word_of_nat (le_val (le_bytes 4 (unat cfg_mask))) = cfg_mask"
    using le_val_le_bytes [of "unat cfg_mask" 4] unsigned_less [of cfg_mask, where 'a = nat] by simp
  have good: "\<not> bad_mask (word_of_nat (le_val (le_bytes 4 (unat cfg_mask))))" using ok mask by simp
  have bh: "length (wm_blockhash m) = 32" and sl: "length (concat sigs) = unat ?n * 64"
    using ok length_concat_fixed [of sigs 64] by (auto simp: message_ok_def)
  have kl: "length (concat (wm_keys m)) = unat (word_of_nat (length (wm_keys m)) :: u8) * 32"
    using ok length_concat_fixed [of "wm_keys m" 32] unat_byte by (auto simp: message_ok_def)
  have cl: "length config = config_len (word_of_nat (le_val (le_bytes 4 (unat cfg_mask))))" using ok mask by simp
  have hl: "length (concat (map ix_header ?ixs)) = unat (word_of_nat (length ?ixs) :: u8) * 4"
    using ok length_concat_fixed [of "map ix_header ?ixs" 4] unat_byte by (auto simp: ix_header_def)
  have pl: "length (concat (map (\<lambda>ix. wi_accounts ix @ wi_data ix) ?ixs)) = payloads_len (concat (map ix_header ?ixs))"
    using payloads_len_headers [of ?ixs] ok by simp
  have n: "word_of_nat (length sigs) = ?n" using ok by simp
  have body: "[0x81] @ [?n] @ t @ le_bytes 4 (unat cfg_mask) @ wm_blockhash m @ [word_of_nat (length ?ixs)] @
      [word_of_nat (length (wm_keys m))] @ concat (wm_keys m) @ config @ concat (map ix_header ?ixs) @
      concat (map (\<lambda>ix. wi_accounts ix @ wi_data ix) ?ixs) = v1_body m cfg_mask config"
    using t(1) by (simp add: v1_body_def ix_header_def [abs_def])
  have "reads scan_v1 [] ([0x81] @ [?n] @ t @ le_bytes 4 (unat cfg_mask) @ wm_blockhash m @ [word_of_nat (length ?ixs)] @
      [word_of_nat (length (wm_keys m))] @ concat (wm_keys m) @ config @ concat (map ix_header ?ixs) @
      concat (map (\<lambda>ix. wi_accounts ix @ wi_data ix) ?ixs) @ concat sigs) (scanned_view (V1Tx m cfg_mask config sigs))"
    unfolding scan_v1_def [abs_def]
    apply (rule reads_bind [OF reads_u8], rule reads_bind [OF reads_u8], rule reads_bind [OF reads_cursor_take [OF t(2)]],
        rule reads_bind [OF reads_cursor_take [OF length_le_bytes]], rule reads_let, rule reads_if [OF good])
    apply (rule reads_bind [OF reads_cursor_take [OF bh]], rule reads_bind [OF reads_u8], rule reads_bind [OF reads_u8],
        rule reads_bind [OF reads_cursor_take [OF kl]], rule reads_bind [OF reads_cursor_take [OF cl]], rule reads_bind [OF reads_cursor_take [OF hl]],
        rule reads_bind [OF reads_cursor_take [OF pl]])
    using reads_v1_tail [OF sl, of "v1_body m cfg_mask config"] n by (simp add: body [symmetric])
  then show ?thesis by (simp add: body [symmetric])
qed

lemma reads_legacy_or_v0:
  shows "tx_ok (LegacyTx sigs m) \<Longrightarrow> reads scan_legacy_or_v0 [] (tx_wire (LegacyTx sigs m)) (scanned_view (LegacyTx sigs m))"
    and "tx_ok (V0Tx sigs m ls) \<Longrightarrow> reads scan_legacy_or_v0 [] (tx_wire (V0Tx sigs m ls)) (scanned_view (V0Tx sigs m ls))"
proof -
  assume ok: "tx_ok (LegacyTx sigs m)"
  then have h: "length (wm_header m) = 3" "unat (hd (wm_header m)) < 128" by (simp_all add: message_ok_def)
  show "reads scan_legacy_or_v0 [] (tx_wire (LegacyTx sigs m)) (scanned_view (LegacyTx sigs m))"
    unfolding tx_wire.simps message_wire_def scanned_view.simps
    by (rule reads_sigs, use ok in simp, rule reads_version(1) [OF h])
      (use ok reads_message_rest [OF _ _ reads_lookups(1) refl, of m 1 "word_of_nat (length sigs)" "counted_list sigs @ wm_header m"] in simp)
next
  assume ok: "tx_ok (V0Tx sigs m ls)"
  then have h: "length (wm_header m) = 3" by (simp add: message_ok_def)
  have l: "reads (\<lambda>_. scan_lookups V0) d (counted_list (map lookup_wire ls)) ()" for d
    using ok by (intro reads_lookups(2)) simp_all
  have w: "tx_wire (V0Tx sigs m ls) = counted_list sigs @ [0x80] @ wm_header m @ counted_list (wm_keys m) @ wm_blockhash m @
      counted_list (map instruction_wire (wm_instructions m)) @ counted_list (map lookup_wire ls)"
    by (simp add: message_wire_def)
  show "reads scan_legacy_or_v0 [] (tx_wire (V0Tx sigs m ls)) (scanned_view (V0Tx sigs m ls))"
    unfolding w scanned_view.simps
    by (rule reads_sigs, use ok in simp, rule reads_version(2) [OF h])
      (use ok reads_message_rest [OF _ _ l refl, of m 1 "word_of_nat (length sigs)" "(counted_list sigs @ [0x80]) @ wm_header m"] in simp)
qed

lemma reads_tx:
  assumes "tx_ok t"
  shows "reads (\<lambda>_. scan_transaction) done (tx_wire t) (scanned_view t)"
proof (rule reads_here)
  let ?f = "\<lambda>first s c. if first < 0x80 then scan_legacy_or_v0 s c else if first = 0x81 then scan_v1 s c
      else Inl (Err (UnknownVersion first))"
  show "scan_transaction c = (\<lambda>s c. bind_out (cursor_peek c) (\<lambda>first. ?f first s c)) (cu_offset c) c" for c
    by (simp add: scan_transaction_def Let_def)
  have short: "\<exists>b v. counted_list sigs @ w = b # v \<and> b < 0x80" if "sigs_ok sigs" for sigs w
    using that by (auto simp: sigs_ok_def counted_list_def short_vec_def word_less_nat_alt unat_byte)
  show "reads (\<lambda>s c. bind_out (cursor_peek c) (\<lambda>first. ?f first s c)) [] (tx_wire t) (scanned_view t)"
  proof (cases t)
    case (LegacyTx sigs m)
    then obtain b v where b: "tx_wire t = b # v" "b < 0x80" using assms short [of sigs "message_wire m"] by auto
    have "reads (\<lambda>s c. ?f b s c) [] (b # v) (scanned_view t)"
      using reads_legacy_or_v0(1) [of sigs m] assms LegacyTx b by simp
    then show ?thesis unfolding b(1) by (rule reads_peek)
  next
    case (V0Tx sigs m ls)
    then obtain b v where b: "tx_wire t = b # v" "b < 0x80" using assms short [of sigs "[0x80] @ message_wire m @ counted_list (map lookup_wire ls)"] by auto
    have "reads (\<lambda>s c. ?f b s c) [] (b # v) (scanned_view t)"
      using reads_legacy_or_v0(2) [of sigs m ls] assms V0Tx b by simp
    then show ?thesis unfolding b(1) by (rule reads_peek)
  next
    case (V1Tx m cfg_mask config sigs)
    then obtain v where v: "tx_wire t = 0x81 # v" by (simp add: v1_body_def)
    have "reads (\<lambda>s c. ?f 0x81 s c) [] (0x81 # v) (scanned_view t)"
      using reads_v1 [of m cfg_mask config sigs] assms V1Tx v by simp
    then show ?thesis unfolding v by (rule reads_peek)
  qed
qed

text \<open>Entries and segments.\<close>

record wire_entry =
  we_num_hashes :: u64
  we_hash :: bytes
  we_txs :: "wire_tx list"

definition entry_wire :: "wire_entry \<Rightarrow> bytes" where
  "entry_wire e = le_bytes 8 (unat (we_num_hashes e)) @ we_hash e @ le_bytes 8 (length (we_txs e)) @ concat (map tx_wire (we_txs e))"

definition segment_wire :: "wire_entry list \<Rightarrow> bytes" where
  "segment_wire es = le_bytes 8 (length es) @ concat (map entry_wire es)"

definition entry_ok :: "wire_entry \<Rightarrow> bool" where
  "entry_ok e \<longleftrightarrow> length (we_hash e) = 32 \<and> length (we_txs e) < 2 ^ 64 \<and> (\<forall>t\<in>set (we_txs e). tx_ok t)"

definition entry_view_of :: "wire_entry \<Rightarrow> entry_view" where
  "entry_view_of e = \<lparr>ev_num_hashes = we_num_hashes e, ev_hash = we_hash e,
     ev_num_transactions = word_of_nat (length (we_txs e)), ev_transactions = concat (map tx_wire (we_txs e))\<rparr>"

lemma unat_u64: "n < 2 ^ 64 \<Longrightarrow> unat (word_of_nat n :: u64) = n"
  by (simp add: unsigned_of_nat take_bit_nat_eq_self)

lemma reads_entry:
  assumes "entry_ok e"
  shows "reads (\<lambda>_. scan_entry) done (entry_wire e) (entry_view_of e)"
proof -
  let ?n = "word_of_nat (length (we_txs e)) :: u64"
  have n: "unat ?n = length (we_txs e)" and hash: "length (we_hash e) = 32" using assms unat_u64 by (auto simp: entry_ok_def)
  have "\<forall>w\<in>set (map tx_wire (we_txs e)). \<forall>d. reads (\<lambda>_. skip_transaction) d w ()"
    using assms reads_map [OF reads_tx, where g = "\<lambda>_. ()"] unfolding skip_transaction_def [abs_def] by (auto simp: entry_ok_def)
  from reads_repeat [OF this] have rep: "reads (\<lambda>_. repeat_scan (unat ?n) skip_transaction) d (concat (map tx_wire (we_txs e))) ()" for d
    using n by simp
  have "reads (entry_body (we_num_hashes e) (we_hash e) ?n) [] (concat (map tx_wire (we_txs e)) @ []) (entry_view_of e)"
    unfolding entry_body_def [abs_def] by (rule reads_bind [OF rep]) (use reads_slice in \<open>simp add: entry_view_of_def\<close>)
  then have body: "reads (\<lambda>_ c. entry_body (we_num_hashes e) (we_hash e) ?n (cu_offset c) c) d (concat (map tx_wire (we_txs e))) (entry_view_of e)" for d
    by (intro reads_here [of _ "entry_body (we_num_hashes e) (we_hash e) ?n"]) simp_all
  have "reads (\<lambda>_. scan_entry) done (le_bytes 8 (unat (we_num_hashes e)) @ we_hash e @ le_bytes 8 (unat ?n) @ concat (map tx_wire (we_txs e)))
      (entry_view_of e)"
    unfolding scan_entry_bind
    by (rule reads_bind [OF reads_u64], rule reads_bind [OF reads_cursor_take [OF hash]], rule reads_bind [OF reads_u64]) (rule body)
  then show ?thesis by (simp add: entry_wire_def n)
qed

lemma tx_wire_nonempty: "tx_wire t \<noteq> []"
  by (cases t) (auto simp: counted_list_def short_vec_def v1_body_def)

lemma tx_items:
  assumes "entry_ok e" and "length (entry_wire e) < 2 ^ 64"
  shows "iter_items scan_transaction (transactions (entry_view_of e)) = map (Inr \<circ> scanned_view) (we_txs e)"
proof -
  have len: "length (concat (map tx_wire (we_txs e))) < 2 ^ 64" using assms(2) by (simp add: entry_wire_def)
  then have "txs.pieces (map tx_wire (we_txs e)) (map scanned_view (we_txs e))"
    using assms(1) reads_tx tx_wire_nonempty by (intro txs.pieces_map) (auto simp: entry_ok_def)
  from txs.iter_items_reads [OF this, of "[]" "[]"] len assms(1) show ?thesis
    by (simp add: transactions_def entry_view_of_def at_def unat_u64 entry_ok_def)
qed

lemma entry_pieces:
  assumes "ents.pieces ws evs" and "ev \<in> set evs"
  shows "length (ev_hash ev) = 32"
    and "\<exists>txs. iter_items scan_transaction (transactions ev) = map Inr txs \<and>
      length txs = unat (ev_num_transactions ev) \<and> concat (map tv_bytes txs) = ev_transactions ev"
proof -
  obtain w where w: "length w < 2 ^ 64" "reads (\<lambda>_. scan_entry) [] w ev"
    using assms by (auto simp: list_all2_conv_all_nth in_set_conv_nth)
  have run: "scan_entry (at w 0) = Inr (ev, at w (length w))"
    using w(2) [unfolded reads_def, rule_format, of "[]" "[]"] w(1) by simp
  note e = entry_whole [OF w(1) run]
  show "length (ev_hash ev) = 32" by (rule e(2))
  obtain txs where txs: "txs.pieces (map tv_bytes txs) txs" "length txs = unat (ev_num_transactions ev)"
      "ev_transactions ev = concat (map tv_bytes txs)" using e(3) by blast
  have "length (concat (map tv_bytes txs)) < 2 ^ 64" using e(1) w(1) txs(3) by (auto simp: entry_bytes_def)
  then have "iter_items scan_transaction (transactions ev) = map Inr txs"
    using txs.iter_items_reads [OF txs(1), of "[]" "[]"] txs(2,3) by (simp add: transactions_def at_def)
  with txs(2,3) show "\<exists>txs. iter_items scan_transaction (transactions ev) = map Inr txs \<and>
      length txs = unat (ev_num_transactions ev) \<and> concat (map tv_bytes txs) = ev_transactions ev" by metis
qed

lemma entries_cases:
  assumes "length segment < 2 ^ 64"
  obtains (short) "entries segment = Inl (Err (Truncated 0))" and "length segment < 8"
    | (iter) n rest where "segment = le_bytes 8 (unat n) @ rest"
      and "entries segment = Inr \<lparr>it_cursor = at (le_bytes 8 (unat n) @ rest) (length (le_bytes 8 (unat n))), it_remaining = n\<rparr>"
proof (cases "cursor_u64 (at segment 0)")
  case (Inl e)
  with cursor_take_at [of "[]" segment 8] assms have "e = Err (Truncated 0)" "length segment < 8"
    by (auto simp: cursor_u64_def split: if_splits)
  with Inl short show thesis by (simp add: entries_def at_def)
next
  case (Inr r)
  then obtain n c where r: "cursor_u64 (at ([] @ segment) (length [])) = Inr (n, c)" by (cases r) auto
  obtain post where "segment = le_bytes 8 (unat n) @ post" "c = at (le_bytes 8 (unat n) @ post) (length (le_bytes 8 (unat n)))"
    using cursor_u64_at [of "[]" segment n c] r assms by auto
  with r iter show thesis by (simp add: entries_def at_def)
qed

lemma segment_walk:
  assumes "\<forall>e\<in>set es. entry_ok e" and "length (segment_wire es @ padding) < 2 ^ 64"
  shows "\<exists>it. entries (segment_wire es @ padding) = Inr it \<and>
    iter_items scan_entry it = map (Inr \<circ> entry_view_of) es \<and>
    (\<forall>e\<in>set es. iter_items scan_transaction (transactions (entry_view_of e)) = map (Inr \<circ> scanned_view) (we_txs e))"
proof -
  let ?n = "word_of_nat (length es) :: u64"
  have "48 * length es \<le> length (concat (map entry_wire es))"
    using assms(1) length_concat_ge [of "map entry_wire es" 48] by (auto simp: entry_wire_def entry_ok_def)
  then have n: "unat ?n = length es" using assms(2) by (intro unat_u64) (simp add: segment_wire_def)
  have seg: "segment_wire es @ padding = le_bytes 8 (unat ?n) @ concat (map entry_wire es) @ padding"
    by (simp add: segment_wire_def n)
  have pieces: "ents.pieces (map entry_wire es) (map entry_view_of es)"
  proof (rule ents.pieces_map)
    have "entry_wire e \<noteq> []" if "entry_ok e" for e using that by (auto simp: entry_wire_def entry_ok_def)
    then show "\<forall>e\<in>set es. entry_wire e \<noteq> [] \<and> reads (\<lambda>_. scan_entry) [] (entry_wire e) (entry_view_of e)"
      using assms(1) reads_entry by blast
    show "length (concat (map entry_wire es)) < 2 ^ 64" using assms(2) by (simp add: segment_wire_def)
  qed
  have "reads (\<lambda>_. cursor_u64) [] (le_bytes 8 (unat ?n)) ?n" by (rule reads_u64)
  then have "cursor_u64 (at (le_bytes 8 (unat ?n) @ concat (map entry_wire es) @ padding) 0) =
      Inr (?n, at (le_bytes 8 (unat ?n) @ concat (map entry_wire es) @ padding) 8)"
    using assms(2) unfolding seg reads_def by (metis append_Nil length_le_bytes list.size(3))
  then have it: "entries (segment_wire es @ padding) =
      Inr \<lparr>it_cursor = at (le_bytes 8 (unat ?n) @ concat (map entry_wire es) @ padding) (length (le_bytes 8 (unat ?n))), it_remaining = ?n\<rparr>"
    unfolding seg by (simp add: entries_def at_def)
  have items: "iter_items scan_entry \<lparr>it_cursor = at (le_bytes 8 (unat ?n) @ concat (map entry_wire es) @ padding) (length (le_bytes 8 (unat ?n))),
      it_remaining = ?n\<rparr> = map (Inr \<circ> entry_view_of) es"
    using ents.iter_items_reads [OF pieces, of "le_bytes 8 (unat ?n)" padding ?n] assms(2) n seg by simp
  have "iter_items scan_transaction (transactions (entry_view_of e)) = map (Inr \<circ> scanned_view) (we_txs e)" if "e \<in> set es" for e
  proof -
    have "length (entry_wire e) \<le> length (concat (map entry_wire es))"
      using that by (simp add: length_concat member_le_sum_list)
    with assms that show ?thesis by (intro tx_items) (auto simp: segment_wire_def)
  qed
  with it items show ?thesis by blast
qed

text \<open>A sample segment: one entry with a legacy and a v1 transaction, each with one signature.\<close>

definition sample_message :: wire_message where
  "sample_message = \<lparr>wm_header = [1, 0, 1], wm_keys = [replicate 32 7, replicate 32 8], wm_blockhash = replicate 32 9,
     wm_instructions = [\<lparr>wi_program = 1, wi_accounts = [0], wi_data = [1, 2, 3]\<rparr>]\<rparr>"

definition sample_entry :: wire_entry where
  "sample_entry = \<lparr>we_num_hashes = 5, we_hash = replicate 32 6,
     we_txs = [LegacyTx [replicate 64 1] sample_message, V1Tx sample_message 0 [] [replicate 64 1]]\<rparr>"

lemma sample_entry_ok: "entry_ok sample_entry"
  by (simp add: entry_ok_def sample_entry_def sample_message_def sigs_ok_def message_ok_def short_ok_def bad_mask_def config_len_def)

lemma length_sample_segment: "length (segment_wire [sample_entry] @ [0, 0]) < 2 ^ 64"
  by (simp add: segment_wire_def entry_wire_def sample_entry_def sample_message_def counted_list_def short_vec_def
      message_wire_def instruction_wire_def counted_def v1_body_def)

text \<open>Where the signatures of a transaction are.\<close>

fun tx_sigs :: "wire_tx \<Rightarrow> bytes list" where
  "tx_sigs (LegacyTx sigs m) = sigs"
| "tx_sigs (V0Tx sigs m ls) = sigs"
| "tx_sigs (V1Tx m cfg_mask config sigs) = sigs"

definition sigs_start :: "wire_tx \<Rightarrow> nat" where
  "sigs_start t = (case t of V1Tx m cfg_mask config sigs \<Rightarrow> length (v1_body m cfg_mask config) | _ \<Rightarrow> 1)"

fun wire_version :: "wire_tx \<Rightarrow> tx_version" where
  "wire_version (LegacyTx sigs m) = Legacy"
| "wire_version (V0Tx sigs m ls) = V0"
| "wire_version (V1Tx m cfg_mask config sigs) = V1"

text \<open>
  A view shows a transaction: its exact bytes, its version and its number of signatures; and if the signatures start below byte
  65536, where a 16-bit offset can point, that offset and, through \<open>signature()\<close>, the first signature.
\<close>

definition views_tx :: "wire_tx \<Rightarrow> tx_view \<Rightarrow> bool" where
  "views_tx t v \<longleftrightarrow> tv_bytes v = tx_wire t \<and> tv_version v = wire_version t \<and> unat (tv_num_signatures v) = length (tx_sigs t) \<and>
     (sigs_start t < 65536 \<longrightarrow> unat (tv_signatures_offset v) = sigs_start t \<and>
        (tx_sigs t \<noteq> [] \<longrightarrow> tx_signature v = (Inr (hd (tx_sigs t)) :: (unit, bytes) outcome)))"

lemma sigs_at:
  assumes "tx_ok t" and "tx_sigs t = s # ss"
  shows "\<exists>post. drop (sigs_start t) (tx_wire t) = s @ post" and "length s = 64" and "sigs_start t \<le> length (tx_wire t)"
    and "tv_signatures_offset (scanned_view t) = word_of_nat (sigs_start t)"
  using assms by (cases t; auto simp: sigs_start_def sigs_ok_def counted_list_def short_vec_def; fail)+

lemma scanned_view_views:
  assumes "tx_ok t"
  shows "views_tx t (scanned_view t)"
proof -
  have offset: "unat (tv_signatures_offset (scanned_view t)) = sigs_start t" if "sigs_start t < 65536"
    using that by (cases t) (simp_all add: sigs_start_def unsigned_of_nat take_bit_nat_eq_self)
  have bytes: "tv_bytes (scanned_view t) = tx_wire t" "tv_version (scanned_view t) = wire_version t" by (cases t; simp)+
  have first: "tx_signature (scanned_view t) = (Inr (hd (tx_sigs t)) :: (unit, bytes) outcome)"
    if fits: "sigs_start t < 65536" and some: "tx_sigs t \<noteq> []"
  proof -
    obtain s ss where s: "tx_sigs t = s # ss" using some by (cases "tx_sigs t") auto
    note at = sigs_at [OF assms(1) s]
    obtain post where "drop (sigs_start t) (tx_wire t) = s @ post" using at(1) by blast
    then show ?thesis using at(2,3) s by (simp add: tx_signature_def bytes(1) offset [OF fits])
  qed
  have "unat (tv_num_signatures (scanned_view t)) = length (tx_sigs t)"
    using assms by (cases t) (auto simp: sigs_ok_def unat_byte)
  with bytes offset first show ?thesis by (simp add: views_tx_def)
qed

lemma segment_views:
  assumes "\<forall>e\<in>set es. entry_ok e" and "length (segment_wire es @ padding) < 2 ^ 64"
  shows "\<exists>it. entries (segment_wire es @ padding) = Inr it \<and>
    iter_items scan_entry it = map (Inr \<circ> entry_view_of) es \<and>
    (\<forall>e\<in>set es. \<exists>views. iter_items scan_transaction (transactions (entry_view_of e)) = map Inr views \<and>
       list_all2 views_tx (we_txs e) views)"
proof -
  obtain it where it: "entries (segment_wire es @ padding) = Inr it" "iter_items scan_entry it = map (Inr \<circ> entry_view_of) es"
      "\<forall>e\<in>set es. iter_items scan_transaction (transactions (entry_view_of e)) = map (Inr \<circ> scanned_view) (we_txs e)"
    using segment_walk [OF assms] by blast
  have "list_all2 views_tx (we_txs e) (map scanned_view (we_txs e))" if "e \<in> set es" for e
    using assms(1) that scanned_view_views by (auto simp: entry_ok_def list_all2_map2 intro!: list.rel_refl_strong)
  then show ?thesis using it by (metis list.map_comp)
qed

lemma scan_tx_wire:
  assumes "tx_ok t" and "length (tx_wire t) < 2 ^ 64"
  shows "scan_transaction (at (tx_wire t) 0) = Inr (scanned_view t, at (tx_wire t) (length (tx_wire t)))"
  using reads_tx [OF assms(1), of "[]", unfolded reads_def, rule_format, of "[]" "[]"] assms(2) by simp

section \<open>Properties\<close>

text \<open>
  C19. The walk over a segment of any bytes ends without a panic, whatever counts the bytes announce: the
  items are entries, then at most one error, which ends the iteration; without an error there are as
  many entries as announced; printing the entries gives back exactly the bytes that were walked over,
  and each takes at least 48 of them, so the number of steps is bounded by the length of the segment.
\<close>

theorem view_walk_bounded:
  assumes "length segment < 2 ^ 64"
  shows "entries segment = Inl (Err (Truncated 0)) \<or>
    (\<exists>it evs tl rest. entries segment = Inr it \<and> iter_items scan_entry it = map Inr evs @ tl \<and>
       segment = le_bytes 8 (unat (it_remaining it)) @ concat (map entry_bytes evs) @ rest \<and>
       (tl = [] \<and> length evs = unat (it_remaining it) \<or> (\<exists>e. tl = [Inl (Err e)]) \<and> length evs < unat (it_remaining it)) \<and>
       8 + 48 * length evs \<le> length segment)"
proof (cases rule: entries_cases [OF assms, case_names short iter])
  case (iter n rest)
  have len: "length (le_bytes 8 (unat n) @ rest) < 2 ^ 64" using assms iter(1) by simp
  obtain ws evs tl post where shape: "iter_items scan_entry \<lparr>it_cursor = at (le_bytes 8 (unat n) @ rest) (length (le_bytes 8 (unat n))),
        it_remaining = n\<rparr> = map Inr evs @ tl" "ents.pieces ws evs" "rest = concat ws @ post"
      "tl = [] \<and> length evs = unat n \<or> (\<exists>e. tl = [Inl (Err e)]) \<and> length evs < unat n"
    using ents.iter_items_shape [OF len, of n] by blast
  have ws: "ws = map entry_bytes evs" using ents.pieces_bytes [OF shape(2)] by simp
  have "48 \<le> length (entry_bytes ev)" if "ev \<in> set evs" for ev
    using entry_pieces(1) [OF shape(2) that] by (simp add: entry_bytes_def)
  then have "48 * length evs \<le> length (concat ws)" using length_concat_ge [of ws 48] by (simp add: ws)
  then have "8 + 48 * length evs \<le> length segment" using iter(1) shape(3) by simp
  moreover have "segment = le_bytes 8 (unat n) @ concat (map entry_bytes evs) @ post" using iter(1) shape(3) ws by simp
  ultimately show ?thesis using iter(2) shape(1,4) by auto
qed simp

text \<open>
  C20. The transactions of an entry that the walk returned can be iterated without an error: there are
  exactly as many as the entry announced, and their byte slices are disjoint neighbours that together
  are all the transaction bytes of the entry.
\<close>

theorem entry_transactions_tile:
  assumes "length segment < 2 ^ 64" and "entries segment = Inr it" and "Inr ev \<in> set (iter_items scan_entry it)"
  shows "\<exists>txs. iter_items scan_transaction (transactions ev) = map Inr txs \<and>
    length txs = unat (ev_num_transactions ev) \<and> concat (map tv_bytes txs) = ev_transactions ev"
proof (cases rule: entries_cases [OF assms(1), case_names short iter])
  case (iter n rest)
  have len: "length (le_bytes 8 (unat n) @ rest) < 2 ^ 64" using assms(1) iter(1) by simp
  obtain ws evs tl where "iter_items scan_entry it = map Inr evs @ tl" "ents.pieces ws evs"
      "tl = [] \<or> (\<exists>e. tl = [Inl (Err e)])"
    using ents.iter_items_shape [OF len, of n] iter(2) assms(2) by auto
  then show ?thesis using entry_pieces(2) [of ws evs ev] assms(3) by auto
qed (use assms(2) in simp)

text \<open>
  C15. Round trip with the documented layout: for entries whose transactions are legacy, v0 or v1
  transactions of any content within the field sizes, serialized as documented and followed by any
  padding, the walk returns exactly these entries, and for each of them exactly these transactions with
  their exact bytes, version and signature count; and for every transaction whose signatures start below byte 65536, all but
  v1 transactions larger than that, the exact offset of the signatures and the first signature.
\<close>

theorem view_segment_wire:
  assumes "\<forall>e\<in>set es. entry_ok e" and "length (segment_wire es @ padding) < 2 ^ 64"
  shows "\<exists>it. entries (segment_wire es @ padding) = Inr it \<and>
    iter_items scan_entry it = map (Inr \<circ> entry_view_of) es \<and>
    (\<forall>e\<in>set es. \<exists>views. iter_items scan_transaction (transactions (entry_view_of e)) = map Inr views \<and>
       list_all2 views_tx (we_txs e) views)"
  by (rule segment_views [OF assms])

theorem view_walk_bounded_witness:
  "entries (segment_wire [sample_entry] @ [0, 0]) = Inl (Err (Truncated 0)) \<or>
    (\<exists>it evs tl rest. entries (segment_wire [sample_entry] @ [0, 0]) = Inr it \<and> iter_items scan_entry it = map Inr evs @ tl \<and>
       segment_wire [sample_entry] @ [0, 0] = le_bytes 8 (unat (it_remaining it)) @ concat (map entry_bytes evs) @ rest \<and>
       (tl = [] \<and> length evs = unat (it_remaining it) \<or> (\<exists>e. tl = [Inl (Err e)]) \<and> length evs < unat (it_remaining it)) \<and>
       8 + 48 * length evs \<le> length (segment_wire [sample_entry] @ [0, 0]))"
  by (rule view_walk_bounded [OF length_sample_segment])

theorem view_segment_wire_witness:
  "\<exists>it v w. entries (segment_wire [sample_entry] @ [0, 0]) = Inr it \<and>
    iter_items scan_entry it = [Inr (entry_view_of sample_entry)] \<and>
    iter_items scan_transaction (transactions (entry_view_of sample_entry)) = [Inr v, Inr w] \<and>
    tv_version v = Legacy \<and> unat (tv_signatures_offset v) = 1 \<and> tx_signature v = (Inr (replicate 64 1) :: (unit, bytes) outcome) \<and>
    tv_version w = V1 \<and> unat (tv_signatures_offset w) = 114 \<and> tx_signature w = (Inr (replicate 64 1) :: (unit, bytes) outcome)"
proof -
  obtain it views where walk: "entries (segment_wire [sample_entry] @ [0, 0]) = Inr it" "iter_items scan_entry it = [Inr (entry_view_of sample_entry)]"
      "iter_items scan_transaction (transactions (entry_view_of sample_entry)) = map Inr views" "list_all2 views_tx (we_txs sample_entry) views"
    using view_segment_wire [OF _ length_sample_segment] sample_entry_ok by auto
  let ?a = "LegacyTx [replicate 64 1] sample_message" and ?b = "V1Tx sample_message 0 [] [replicate 64 1]"
  obtain v w where views: "views = [v, w]" "views_tx ?a v" "views_tx ?b w"
    using walk(4) by (auto simp: sample_entry_def list_all2_Cons1)
  have "sigs_start ?a = 1" "sigs_start ?b = 114" by (simp_all add: sigs_start_def v1_body_def sample_message_def)
  then show ?thesis using walk views by (auto simp: views_tx_def)
qed

text \<open>
  The transaction id: for a transaction of the documented layout with at least one signature, the
  scanner's view returns its first signature, without a panic; for v1, whose signatures come last, this
  needs them to start below byte 65536.
\<close>

lemma transaction_id:
  assumes "tx_ok t" and "length (tx_wire t) < 2 ^ 64" and "tx_sigs t \<noteq> []" and "sigs_start t < 65536"
  shows "\<exists>tx. scan_transaction \<lparr>cu_bytes = tx_wire t, cu_offset = 0\<rparr> =
      Inr (tx, \<lparr>cu_bytes = tx_wire t, cu_offset = length (tx_wire t)\<rparr>) \<and>
    unat (tv_num_signatures tx) = length (tx_sigs t) \<and>
    tx_signature tx = (Inr (hd (tx_sigs t)) :: (unit, bytes) outcome)"
  using scan_tx_wire [OF assms(1,2)] scanned_view_views [OF assms(1)] assms(3,4) by (auto simp: views_tx_def at_def)

theorem entry_transactions_tile_witness:
  "\<exists>it ev txs. entries (segment_wire [sample_entry] @ [0, 0]) = Inr it \<and> Inr ev \<in> set (iter_items scan_entry it) \<and>
    iter_items scan_transaction (transactions ev) = map Inr txs \<and>
    length txs = unat (ev_num_transactions ev) \<and> concat (map tv_bytes txs) = ev_transactions ev"
proof -
  obtain it where it: "entries (segment_wire [sample_entry] @ [0, 0]) = Inr it"
      "iter_items scan_entry it = map (Inr \<circ> entry_view_of) [sample_entry]"
    using segment_walk [OF _ length_sample_segment] sample_entry_ok by auto
  then have "Inr (entry_view_of sample_entry) \<in> set (iter_items scan_entry it)" by simp
  with entry_transactions_tile [OF length_sample_segment it(1) this] it(1) show ?thesis by blast
qed

text \<open>
  C34. The signature offset of a view has 16 bits. For a v1 transaction whose signatures start at byte
  65536 or later the scanner accepts the transaction and truncates the offset, and \<open>signature()\<close> returns
  64 bytes from the middle of the message.
\<close>

theorem v1_offset_truncated:
  assumes "tx_ok t" and "length (tx_wire t) < 2 ^ 64" and "tx_sigs t \<noteq> []" and "65536 \<le> sigs_start t"
  shows "\<exists>tx. scan_transaction \<lparr>cu_bytes = tx_wire t, cu_offset = 0\<rparr> =
      Inr (tx, \<lparr>cu_bytes = tx_wire t, cu_offset = length (tx_wire t)\<rparr>) \<and>
    tx_signature tx = (Inr (take 64 (drop (sigs_start t mod 65536) (tx_wire t))) :: (unit, bytes) outcome)"
proof -
  obtain s ss where s: "tx_sigs t = s # ss" using assms(3) by (cases "tx_sigs t") auto
  note at = sigs_at [OF assms(1) s]
  have "unat (tv_signatures_offset (scanned_view t)) = sigs_start t mod 65536"
    by (simp add: at(4) unsigned_of_nat take_bit_eq_mod)
  moreover have "sigs_start t mod 65536 + 64 \<le> sigs_start t" using assms(4) le_mod_geq [of 65536 "sigs_start t"] mod_less_eq_dividend [of "sigs_start t - 65536" 65536] by linarith
  moreover have "tv_bytes (scanned_view t) = tx_wire t" by (cases t) simp_all
  ultimately have "tx_signature (scanned_view t) = (Inr (take 64 (drop (sigs_start t mod 65536) (tx_wire t))) :: (unit, bytes) outcome)"
    using at(3) by (simp add: tx_signature_def Let_def)
  then show ?thesis using scan_tx_wire [OF assms(1,2)] by (auto simp: at_def)
qed

definition long_v1 :: wire_tx where
  "long_v1 = V1Tx \<lparr>wm_header = [1, 0, 1], wm_keys = [], wm_blockhash = replicate 32 9,
     wm_instructions = [\<lparr>wi_program = 1, wi_accounts = [], wi_data = replicate 65535 2\<rparr>]\<rparr> 0 [] [replicate 64 1]"

theorem v1_offset_truncated_witness:
  "\<exists>tx. scan_transaction \<lparr>cu_bytes = tx_wire long_v1, cu_offset = 0\<rparr> =
      Inr (tx, \<lparr>cu_bytes = tx_wire long_v1, cu_offset = length (tx_wire long_v1)\<rparr>) \<and>
    (\<exists>s. tx_signature tx = (Inr s :: (unit, bytes) outcome) \<and> s \<noteq> hd (tx_sigs long_v1))"
proof -
  have start: "sigs_start long_v1 = 65581" by (simp add: long_v1_def sigs_start_def v1_body_def)
  have ok: "tx_ok long_v1" "length (tx_wire long_v1) < 2 ^ 64" "tx_sigs long_v1 \<noteq> []"
    by (simp_all add: long_v1_def message_ok_def bad_mask_def config_len_def v1_body_def)
  have "tx_wire long_v1 ! 46 = 2" and len: "46 < length (tx_wire long_v1)" and sig: "hd (tx_sigs long_v1) ! 1 = 1"
    by (simp_all add: long_v1_def v1_body_def nth_append)
  then have "take 64 (drop 45 (tx_wire long_v1)) ! 1 \<noteq> hd (tx_sigs long_v1) ! 1"
    by (simp del: tx_wire.simps)
  then have "take 64 (drop 45 (tx_wire long_v1)) \<noteq> hd (tx_sigs long_v1)" by metis
  with v1_offset_truncated [OF ok] start show ?thesis by auto
qed

text \<open>
  A legacy transaction without signatures is accepted by the scanner, but asking its view for the
  transaction id panics when the whole transaction is shorter than one signature.
\<close>

lemma no_signature_panics:
  assumes "tx_ok (LegacyTx [] m)" and "length (message_wire m) < 64"
  shows "\<exists>tx. scan_transaction \<lparr>cu_bytes = tx_wire (LegacyTx [] m), cu_offset = 0\<rparr> =
      Inr (tx, \<lparr>cu_bytes = tx_wire (LegacyTx [] m), cu_offset = length (tx_wire (LegacyTx [] m))\<rparr>) \<and>
    tv_num_signatures tx = 0 \<and> tx_signature tx = (Inl (Panic UnwrapNone) :: (unit, bytes) outcome)"
proof -
  have "length (tx_wire (LegacyTx [] m)) < 2 ^ 64" using assms(2) by (simp add: counted_list_def short_vec_def)
  from scan_tx_wire [OF assms(1) this] show ?thesis
    using assms(2) by (auto simp: at_def tx_signature_def counted_list_def short_vec_def)
qed

text \<open>The length prefix accepts more than a compact-u16: values up to \<open>2^21 - 1\<close>, and padded encodings.\<close>

lemma shortvec_accepts_more:
  "reads (\<lambda>_. shortvec_len) done [0xFF, 0xFF, 0x7F] 2097151"
  "reads (\<lambda>_. shortvec_len) done [0x80, 0x80, 0x00] 0"
proof -
  show "reads (\<lambda>_. shortvec_len) done [0xFF, 0xFF, 0x7F] 2097151"
    using reads_shortvec [of 2097151 "done"] by (simp add: short_vec_def more_byte_def)
  show "reads (\<lambda>_. shortvec_len) done [0x80, 0x80, 0x00] 0"
  proof (rule reads_here [where m = "\<lambda>s. shortvec_loop s [0, 7, 14] 0"])
    show "reads (\<lambda>s. shortvec_loop s [0, 7, 14] 0) [] [0x80, 0x80, 0x00] 0"
      by (intro reads_loop_more reads_loop_last) simp_all
  qed (simp add: shortvec_len_def)
qed

end
