(* ===== verification/ZeroCopy.thy ===== *)
theory ZeroCopy
  imports Exact ViewWire
begin

text \<open>
  The zero-copy path end to end: raw batches from \<open>push_raw\<close> (\<open>src/deshredder.rs\<close>) walked by the scanner of
  \<open>src/view.rs\<close>, for a leader's block among traffic of nearby slots, and compared with the owned entries that \<open>push\<close> decodes from the
  same datagrams (\<open>src/entry.rs\<close>), as the fixture test of \<open>src/view.rs\<close> does for one capture.
\<close>

section \<open>The walk against the owned decoder\<close>

text \<open>
  An entry that the owned decoder returned is one of the layout: the same framing, and transactions that the serializer
  writes as the same bytes.
\<close>

definition layout_entry :: "('tx \<Rightarrow> bytes) \<Rightarrow> wire_entry \<Rightarrow> 'tx entry \<Rightarrow> bool" where
  "layout_entry serialize_tx e entry \<longleftrightarrow> en_num_hashes entry = we_num_hashes e \<and> en_hash entry = we_hash e \<and>
     map serialize_tx (en_transactions entry) = map tx_wire (we_txs e)"

text \<open>
  What is documented of the owned decoder, \<open>wincode\<close> with the schema of \<open>VersionedTransaction\<close>: when it accepts bytes that
  start with entries in the layout of \<open>src/view.rs\<close>, it has read these entries. Nothing is assumed about what it
  accepts; it refuses lengths above a compact-u16 and batches above its preallocation limit, which the scanner does not.
\<close>

definition wincode_layout :: "('w, 'tx) deserializer \<Rightarrow> ('tx \<Rightarrow> bytes) \<Rightarrow> bool" where
  "wincode_layout deserialize serialize_tx \<longleftrightarrow> (\<forall>es padding decs.
     (\<forall>e\<in>set es. entry_ok e) \<and> length (segment_wire es @ padding) < 2 ^ 64 \<and>
     deserialize (segment_wire es @ padding) = Inr decs \<longrightarrow> list_all2 (layout_entry serialize_tx) es decs)"

text \<open>The walk returned the entry: the same framing, and the exact bytes of every transaction.\<close>

definition same_entry :: "('tx \<Rightarrow> bytes) \<Rightarrow> (view_error, entry_view) outcome \<Rightarrow> 'tx entry \<Rightarrow> bool" where
  "same_entry serialize_tx item entry \<longleftrightarrow> (\<exists>ev views. item = Inr ev \<and>
     ev_num_hashes ev = en_num_hashes entry \<and> ev_hash ev = en_hash entry \<and>
     unat (ev_num_transactions ev) = length (en_transactions entry) \<and>
     iter_items scan_transaction (transactions ev) = map Inr views \<and>
     map tv_bytes views = map serialize_tx (en_transactions entry))"

lemma same_entry_layout:
  assumes "entry_ok e" and "layout_entry serialize_tx e entry"
    and "iter_items scan_transaction (transactions (entry_view_of e)) = map Inr views" and "list_all2 views_tx (we_txs e) views"
  shows "same_entry serialize_tx (Inr (entry_view_of e)) entry"
proof -
  have "map tv_bytes views = map tx_wire (we_txs e)"
    using assms(4) by (induction rule: list_all2_induct) (simp_all add: views_tx_def)
  moreover have "unat (word_of_nat (length (we_txs e)) :: u64) = length (we_txs e)" using assms(1) by (intro unat_u64) (simp add: entry_ok_def)
  moreover have "length (en_transactions entry) = length (we_txs e)" using assms(2) map_eq_imp_length_eq by (auto simp: layout_entry_def)
  ultimately show ?thesis
    unfolding same_entry_def using assms(2,3)
    by (intro exI [of _ "entry_view_of e"] exI [of _ views]) (simp add: entry_view_of_def layout_entry_def)
qed

lemma walk_agrees:
  assumes "wincode_layout deserialize serialize_tx" and "\<forall>e\<in>set es. entry_ok e" and "es \<noteq> []"
    and "rb_bytes raw = segment_wire es @ padding" and "length (rb_bytes raw) < 2 ^ 64" and "deserialize (rb_bytes raw) = Inr decs"
  shows "\<exists>b it. batch_of deserialize raw = Some b \<and> eb_slot b = rb_slot raw \<and> eb_start b = rb_start raw \<and> eb_end b = rb_end raw \<and>
    eb_entries b = decs \<and> length decs = length es \<and> entries (rb_bytes raw) = Inr it \<and>
    list_all2 (same_entry serialize_tx) (iter_items scan_entry it) decs"
proof -
  have len: "length (segment_wire es @ padding) < 2 ^ 64" using assms(4,5) by simp
  obtain it where it: "entries (segment_wire es @ padding) = Inr it" "iter_items scan_entry it = map (Inr \<circ> entry_view_of) es"
      "\<forall>e\<in>set es. \<exists>views. iter_items scan_transaction (transactions (entry_view_of e)) = map Inr views \<and> list_all2 views_tx (we_txs e) views"
    using segment_views [OF assms(2) len] by blast
  have read: "list_all2 (layout_entry serialize_tx) es decs" using assms(1,2,4,6) len by (simp add: wincode_layout_def)
  have "48 * length es \<le> length (concat (map entry_wire es))"
    using assms(2) length_concat_ge [of "map entry_wire es" 48] by (auto simp: entry_wire_def entry_ok_def)
  then have "length es < 2 ^ 64" using len by (simp add: segment_wire_def)
  then have "take 8 (segment_wire es @ padding) \<noteq> replicate 8 0"
    using le_bytes_zero_iff [of "length es" 8] assms(3) by (simp add: segment_wire_def)
  then have "entry_decode deserialize (rb_bytes raw) = Inr (Entries decs)" using assms(4,6) by (simp add: entry_decode_def)
  moreover have "same_entry serialize_tx (Inr (entry_view_of e)) entry" if "e \<in> set es" "layout_entry serialize_tx e entry" for e entry
    using assms(2) it(3) same_entry_layout that by blast
  with read have "list_all2 (same_entry serialize_tx) (map (Inr \<circ> entry_view_of) es) decs"
    by (auto simp: list_all2_map1 elim: list.rel_mono_strong)
  ultimately show ?thesis using it(1,2) list_all2_lengthD [OF read] by (simp add: batch_of_def assms(4))
qed

section \<open>A small block\<close>

definition block_entry :: wire_entry where
  "block_entry = \<lparr>we_num_hashes = 0, we_hash = replicate 32 0, we_txs = []\<rparr>"

lemma le_bytes_one: "le_bytes 8 1 = (1 :: u8) # replicate 7 0"
proof -
  have "le_bytes (Suc 7) 1 = (1 :: u8) # replicate 7 0" unfolding le_bytes.simps(2) by (simp add: le_bytes_zero)
  moreover have "Suc 7 = 8" by simp
  ultimately show ?thesis by metis
qed

lemma block_entry_bytes: "leader_bytes block_shred 3 3 = segment_wire [block_entry] @ replicate 356 0" "entry_ok block_entry"
proof -
  have "leader_bytes block_shred 3 3 = 1 # replicate 411 0"
    by (simp add: leader_bytes_def payload_def block_shred_def data_wire_def common_wire_def sub_list_def)
  also have "replicate 411 (0 :: u8) = replicate 7 0 @ replicate 48 0 @ replicate 356 0" by (simp flip: replicate_add)
  also have "replicate 48 (0 :: u8) = entry_wire block_entry"
    by (simp add: entry_wire_def block_entry_def le_bytes_zero flip: replicate_add)
  also have "1 # replicate 7 (0 :: u8) @ entry_wire block_entry @ replicate 356 0 = le_bytes 8 1 @ entry_wire block_entry @ replicate 356 0"
    unfolding le_bytes_one by (simp only: append_Cons)
  finally show "leader_bytes block_shred 3 3 = segment_wire [block_entry] @ replicate 356 0" by (simp add: segment_wire_def)
  show "entry_ok block_entry" by (simp add: entry_ok_def block_entry_def)
qed

text \<open>An owned decoder of batches of ticks: entries without transactions, all other bytes are an error.\<close>

fun tick_entries :: "nat \<Rightarrow> bytes \<Rightarrow> bytes entry list option" where
  "tick_entries 0 b = Some []"
| "tick_entries (Suc n) b = (if length b < 48 \<or> take 8 (drop 40 b) \<noteq> replicate 8 0 then None
     else map_option ((#) \<lparr>en_num_hashes = word_of_nat (le_val (take 8 b)), en_hash = take 32 (drop 8 b), en_transactions = []\<rparr>)
       (tick_entries n (drop 48 b)))"

definition tick_deserialize :: "(unit, bytes) deserializer" where
  "tick_deserialize b = (if length b < 8 then Inl () else
     case tick_entries (le_val (take 8 b)) (drop 8 b) of None \<Rightarrow> Inl () | Some es \<Rightarrow> Inr es)"

lemma tick_entries_layout:
  assumes "\<forall>e\<in>set es. entry_ok e" and "tick_entries (length es) (concat (map entry_wire es) @ padding) = Some decs"
  shows "list_all2 (layout_entry id) es decs"
  using assms
proof (induction es arbitrary: decs)
  case (Cons e es)
  let ?rest = "concat (map tx_wire (we_txs e)) @ concat (map entry_wire es) @ padding"
  let ?b = "concat (map entry_wire (e # es)) @ padding"
  have e: "length (we_hash e) = 32" "length (we_txs e) < 2 ^ 64" using Cons.prems(1) by (simp_all add: entry_ok_def)
  have b: "?b = le_bytes 8 (unat (we_num_hashes e)) @ we_hash e @ le_bytes 8 (length (we_txs e)) @ ?rest"
    by (simp add: entry_wire_def)
  have parts: "take 8 ?b = le_bytes 8 (unat (we_num_hashes e))" "take 32 (drop 8 ?b) = we_hash e"
      "take 8 (drop 40 ?b) = le_bytes 8 (length (we_txs e))" "drop 48 ?b = ?rest"
    unfolding b using e(1) by simp_all
  have step: "take 8 (drop 40 ?b) = replicate 8 0 \<and> (\<exists>ds. tick_entries (length es) (drop 48 ?b) = Some ds \<and>
      decs = \<lparr>en_num_hashes = word_of_nat (le_val (take 8 ?b)), en_hash = take 32 (drop 8 ?b), en_transactions = []\<rparr> # ds)"
    using Cons.prems(2) by (simp only: list.size add_0_right add_Suc_right tick_entries.simps split: if_splits) auto
  then have none: "we_txs e = []" using le_bytes_zero_iff [of "length (we_txs e)" 8] e(2) unfolding parts by simp
  with step obtain ds where ds: "tick_entries (length es) (concat (map entry_wire es) @ padding) = Some ds"
      "decs = \<lparr>en_num_hashes = word_of_nat (le_val (take 8 ?b)), en_hash = take 32 (drop 8 ?b), en_transactions = []\<rparr> # ds"
    unfolding parts(4) by auto
  have rest: "list_all2 (layout_entry id) es ds" using Cons.IH [OF _ ds(1)] Cons.prems(1) by (simp add: id_def)
  have "le_val (le_bytes 8 (unat (we_num_hashes e))) = unat (we_num_hashes e)"
    using unsigned_less [of "we_num_hashes e", where 'a = nat] by (intro le_val_le_bytes) simp
  then have "layout_entry id e \<lparr>en_num_hashes = word_of_nat (le_val (take 8 ?b)), en_hash = take 32 (drop 8 ?b), en_transactions = []\<rparr>"
    unfolding parts(1,2) by (simp add: layout_entry_def none)
  with rest show ?case unfolding ds(2) by (simp only: list_all2_Cons simp_thms)
qed simp

lemma tick_layout: "wincode_layout tick_deserialize id"
  unfolding wincode_layout_def
proof (intro allI impI, elim conjE)
  fix es padding decs
  assume ok: "\<forall>e\<in>set es. entry_ok e" and len: "length (segment_wire es @ padding) < 2 ^ 64"
    and run: "tick_deserialize (segment_wire es @ padding) = Inr decs"
  have "48 * length es \<le> length (concat (map entry_wire es))"
    using ok length_concat_ge [of "map entry_wire es" 48] by (auto simp: entry_wire_def entry_ok_def)
  then have "le_val (le_bytes 8 (length es)) = length es" using len by (intro le_val_le_bytes) (simp add: segment_wire_def)
  then have "tick_entries (length es) (concat (map entry_wire es) @ padding) = Some decs"
    using run by (simp add: tick_deserialize_def segment_wire_def split: option.splits)
  then show "list_all2 (layout_entry id) es decs" by (rule tick_entries_layout [OF ok])
qed

lemma tick_block: "tick_deserialize (segment_wire [block_entry] @ padding) = Inr [\<lparr>en_num_hashes = 0, en_hash = replicate 32 0, en_transactions = []\<rparr>]"
proof -
  have "le_val (le_bytes 8 1) = Suc 0" using le_val_le_bytes [of 1 8] by simp
  moreover have "le_val (replicate 8 0) = 0" using le_val_le_bytes [of 0 8] by (simp add: le_bytes_zero)
  ultimately show ?thesis
    by (simp add: tick_deserialize_def segment_wire_def entry_wire_def block_entry_def le_bytes_zero)
qed

text \<open>The raw batch of the small block.\<close>

definition block_raw :: raw_batch where
  "block_raw = \<lparr>rb_slot = 1000, rb_start = 3, rb_end = 3, rb_last_in_slot = last_in_slot (block_shred 3), rb_bytes = leader_bytes block_shred 3 3\<rparr>"

lemma block_raw_promised:
  "raw_promised block_shred 1000 True (set block_arrivals) block_raw"
  "rb_bytes block_raw = segment_wire [block_entry] @ replicate 356 0" "length (rb_bytes block_raw) < 2 ^ 64"
proof -
  show "raw_promised block_shred 1000 True (set block_arrivals) block_raw"
    using enough_available [OF block_batch block_arrivals_ok(2)] by (simp add: raw_promised_def block_raw_def)
  show bytes: "rb_bytes block_raw = segment_wire [block_entry] @ replicate 356 0" by (simp add: block_raw_def block_entry_bytes(1))
  show "length (rb_bytes block_raw) < 2 ^ 64" unfolding bytes by (simp add: segment_wire_def entry_wire_def block_entry_def)
qed

section \<open>Properties\<close>

text \<open>
  C5. The zero-copy path delivers a leader's block, in the scope of \<open>block_exactly\<close>: the shreds come in any order, with losses and
  duplicates, among garbage, other versions and shreds of slots within the lookback of the block's, all with FEC set indexes below 32768.
  \<open>push_raw\<close> does not panic; its raw batches of the slot are exactly the batches of the leader that can be had,
  with the leader's bytes and last-in-slot mark, none twice; and whichever raw batch holds serialized entries, with any
  padding, is walked to exactly these entries and to views of exactly their transactions.
\<close>

theorem raw_block_walked:
  assumes "bit_set B" and "digest32 hashv" and "rs_in_place r" and "\<forall>k<K. rs_decodes r (cw k)"
    and "leader_block slot version K leader cw" and "room config slot"
    and "\<forall>p\<in>set ps. nearby_traffic config slot p"
    and "\<forall>x\<in>arrived config slot ps. of_leader slot version K leader cw x \<and> signed_by hashv root sg x"
  shows "\<exists>self raws. fold_out (push_raw oc B hashv r collect) ps (with_stats config st, []) = Inr (self, raws) \<and>
    distinct (map (\<lambda>b. (rb_start b, rb_end b)) (filter (\<lambda>b. rb_slot b = slot) raws)) \<and>
    {b\<in>set raws. rb_slot b = slot} = {b. rb_slot b = slot \<and>
      available leader (c_recover config) (arrived config slot ps) (unat (rb_start b)) (unat (rb_end b)) \<and>
      rb_bytes b = leader_bytes leader (unat (rb_start b)) (unat (rb_end b)) \<and>
      rb_last_in_slot b = last_in_slot (leader (unat (rb_end b)))} \<and>
    (\<forall>b\<in>set raws. \<forall>es padding. rb_bytes b = segment_wire es @ padding \<and> (\<forall>x\<in>set es. entry_ok x) \<and> length (rb_bytes b) < 2 ^ 64 \<longrightarrow>
       (\<exists>it. entries (rb_bytes b) = Inr it \<and> iter_items scan_entry it = map (Inr \<circ> entry_view_of) es \<and>
          (\<forall>x\<in>set es. \<exists>views. iter_items scan_transaction (transactions (entry_view_of x)) = map Inr views \<and>
             list_all2 views_tx (we_txs x) views)))"
proof -
  obtain self raws where run: "fold_out (push_raw oc B hashv r collect) ps (with_stats config st, []) = Inr (self, raws)"
      "distinct (map (\<lambda>b. (rb_start b, rb_end b)) (filter (\<lambda>b. rb_slot b = slot) raws))"
      "{b\<in>set raws. rb_slot b = slot} = {b. raw_promised leader slot (c_recover config) (arrived config slot ps) b}"
    using raws_exactly [OF assms] by blast
  moreover have "\<exists>it. entries (rb_bytes b) = Inr it \<and> iter_items scan_entry it = map (Inr \<circ> entry_view_of) es \<and>
      (\<forall>x\<in>set es. \<exists>views. iter_items scan_transaction (transactions (entry_view_of x)) = map Inr views \<and>
         list_all2 views_tx (we_txs x) views)"
    if "rb_bytes b = segment_wire es @ padding" "\<forall>x\<in>set es. entry_ok x" "length (rb_bytes b) < 2 ^ 64" for b es padding
    using segment_views [OF that(2), of padding] that(1,3) by simp
  ultimately show ?thesis unfolding raw_promised_def by blast
qed

theorem raw_block_walked_witness:
  "\<exists>self raws b it. fold_out (push_raw True bits_model constant_hash (codeword_rs (block_codeword 0)) collect)
      block_packets (with_stats config_default stats_default, []) = Inr (self, raws) \<and> b \<in> set raws \<and> rb_slot b = 1000 \<and>
    entries (rb_bytes b) = Inr it \<and> iter_items scan_entry it = [Inr (entry_view_of block_entry)]"
proof -
  obtain self raws where run: "fold_out (push_raw True bits_model constant_hash (codeword_rs (block_codeword 0)) collect)
      block_packets (with_stats config_default stats_default, []) = Inr (self, raws)"
    and exactly: "\<And>b. b \<in> set raws \<and> rb_slot b = 1000 \<longleftrightarrow> raw_promised block_shred 1000 (c_recover config_default) (set block_arrivals) b"
    and walk: "\<And>b es padding. b \<in> set raws \<Longrightarrow> rb_bytes b = segment_wire es @ padding \<Longrightarrow> \<forall>x\<in>set es. entry_ok x \<Longrightarrow> length (rb_bytes b) < 2 ^ 64 \<Longrightarrow>
      \<exists>it. entries (rb_bytes b) = Inr it \<and> iter_items scan_entry it = map (Inr \<circ> entry_view_of) es"
    using raw_block_walked [OF block_instance block_packets_room(1) block_packets_traffic block_packets_signed, of True stats_default]
    unfolding block_packets_arrived raw_promised_def [symmetric] set_eq_iff mem_Collect_eq by blast
  have "block_raw \<in> set raws" using exactly [of block_raw] block_raw_promised(1) by (simp add: block_packets_room(2) block_raw_def)
  with run walk [OF _ block_raw_promised(2) _ block_raw_promised(3)] block_entry_bytes(2) show ?thesis
    by (intro exI [of _ self] exI [of _ raws] exI [of _ block_raw]) (auto simp: block_raw_def)
qed

text \<open>
  C6. The scanner agrees with the owned decoder, on every raw batch that any datagrams produce, that holds
  at least one serialized entry in the documented layout followed by any padding, and that the owned decoder accepts: \<open>push\<close> on the same datagrams
  hands out an entry batch of the same slot and range with what the decoder returned, and the walk over the raw bytes finds the same entries in the
  same order, and for each of them the bytes that the serializer writes for its transactions.
\<close>

theorem views_match_decoder:
  assumes "wincode_layout deserialize serialize_tx"
    and "fold_out (push_raw oc B hashv rs collect) ps (with_stats config st, []) = Inr (self, raws)"
    and "raw \<in> set raws" and "length (rb_bytes raw) < 2 ^ 64"
    and "rb_bytes raw = segment_wire es @ padding" and "\<forall>e\<in>set es. entry_ok e" and "es \<noteq> []"
    and "deserialize (rb_bytes raw) = Inr decs"
  shows "\<exists>self' out b it. fold_out (push oc B hashv rs deserialize) ps (with_stats config st, []) = Inr (self', out) \<and>
    b \<in> set out \<and> eb_slot b = rb_slot raw \<and> eb_start b = rb_start raw \<and> eb_end b = rb_end raw \<and>
    eb_entries b = decs \<and> length decs = length es \<and>
    entries (rb_bytes raw) = Inr it \<and> list_all2 (same_entry serialize_tx) (iter_items scan_entry it) (eb_entries b)"
proof -
  obtain b it where b: "batch_of deserialize raw = Some b" "eb_slot b = rb_slot raw \<and> eb_start b = rb_start raw \<and> eb_end b = rb_end raw"
      "eb_entries b = decs" "length decs = length es" "entries (rb_bytes raw) = Inr it"
      "list_all2 (same_entry serialize_tx) (iter_items scan_entry it) decs"
    using walk_agrees [OF assms(1,6,7,5,4,8)] by blast
  obtain self' where "fold_out (push oc B hashv rs deserialize) ps (with_stats config st, []) = Inr (self', decode_all deserialize raws)"
    using push_outcome [OF assms(2)] by blast
  moreover have "b \<in> set (decode_all deserialize raws)" using assms(3) b(1) by (auto simp: in_map_filter)
  ultimately show ?thesis using b by auto
qed

theorem views_match_decoder_witness:
  "\<exists>self' out b it. fold_out (push True bits_model constant_hash (codeword_rs (block_codeword 0)) tick_deserialize)
      block_packets (with_stats config_default stats_default, []) = Inr (self', out) \<and> b \<in> set out \<and> eb_slot b = 1000 \<and>
    eb_entries b = [\<lparr>en_num_hashes = 0, en_hash = replicate 32 0, en_transactions = []\<rparr>] \<and>
    entries (rb_bytes block_raw) = Inr it \<and> list_all2 (same_entry id) (iter_items scan_entry it) (eb_entries b)"
proof -
  obtain self raws where run: "fold_out (push_raw True bits_model constant_hash (codeword_rs (block_codeword 0)) collect)
      block_packets (with_stats config_default stats_default, []) = Inr (self, raws)"
      "{b\<in>set raws. rb_slot b = 1000} = {b. raw_promised block_shred 1000 (c_recover config_default) (set block_arrivals) b}"
    using raws_exactly [OF block_instance block_packets_room(1) block_packets_traffic block_packets_signed, of True stats_default]
    unfolding block_packets_arrived by blast
  have "block_raw \<in> {b\<in>set raws. rb_slot b = 1000}" unfolding run(2) using block_raw_promised(1) by (simp add: block_packets_room(2))
  then have "block_raw \<in> set raws" by simp
  note raw = this block_raw_promised(3,2)
  have "tick_deserialize (rb_bytes block_raw) = Inr [\<lparr>en_num_hashes = 0, en_hash = replicate 32 0, en_transactions = []\<rparr>]"
    unfolding block_raw_promised(2) by (rule tick_block)
  from views_match_decoder [OF tick_layout run(1) raw _ _ this] block_entry_bytes(2) show ?thesis
    by (fastforce simp: block_raw_def)
qed

end
