(* ===== verification/Validation.thy ===== *)
theory Validation
  imports Shred Entry
begin

text \<open>
  The parser of \<open>src/shred.rs\<close> against a table of rules: a datagram of the documented layout is accepted exactly when it keeps
  every rule, and otherwise the error is the one of the first rule it breaks. From the table follow the unit tests of the
  module, whose packets and assertions are the definitions of the last section.
\<close>

unbundle bit_operations_syntax

section \<open>The rules\<close>

type_synonym rules = "(bool \<times> shred_error) list"

definition index_rule :: "u32 \<Rightarrow> bool \<times> shred_error" where
  "index_rule index = (unat index < 32768, IndexOutOfRange index)"

definition data_rules :: "u64 \<Rightarrow> u32 \<Rightarrow> u32 \<Rightarrow> u16 \<Rightarrow> u8 \<Rightarrow> u16 \<Rightarrow> nat \<Rightarrow> rules" where
  "data_rules slot index fec po fl sz cap =
     [index_rule index,
      (unat fec mod 32 = 0 \<and> unat fec \<le> unat index \<and> unat index < unat fec + 32, FecSetMisaligned index fec),
      ((po = 0 \<longrightarrow> slot = 0) \<and> unat po \<le> unat slot, InvalidParentOffset slot po),
      ((fl AND 0x80 \<noteq> 0 \<longrightarrow> fl AND FLAG_DATA_COMPLETE \<noteq> 0) \<and>
         (fl AND FLAG_LAST_IN_SLOT = FLAG_LAST_IN_SLOT \<longrightarrow> unat index mod 32 = 31), InvalidFlags fl),
      (88 \<le> unat sz \<and> unat sz \<le> 88 + cap, InvalidSize sz)]"

definition code_rules :: "u32 \<Rightarrow> u32 \<Rightarrow> u16 \<Rightarrow> u16 \<Rightarrow> u16 \<Rightarrow> rules" where
  "code_rules index fec nd nc pos =
     [index_rule index,
      (nd = 32 \<and> nc = 32 \<and> unat pos < 32 \<and> unat pos \<le> unat index \<and> unat fec mod 32 = 0, InvalidErasureConfig nd nc pos)]"

definition decide :: "rules \<Rightarrow> shred \<Rightarrow> (shred_error, shred) outcome" where
  "decide rules s = (case find (Not \<circ> fst) rules of None \<Rightarrow> Inr s | Some (_, e) \<Rightarrow> Inl (Err e))"

section \<open>The headers\<close>

lemma parse_data_header_wire:
  assumes sig: "length sig = 64" and i: "unat index < 32768"
  shows "parse_data_header (data_wire sig v slot index version fec po fl sz rest) slot index fec cap =
    (case find (Not \<circ> fst) (tl (data_rules slot index fec po fl sz cap)) of
       None \<Rightarrow> Inr (DataHeader po fl sz) | Some (_, e) \<Rightarrow> Inl (Err e))"
proof -
  have fec: "index < fec \<or> 32 \<le> index - fec \<longleftrightarrow> \<not> (unat fec \<le> unat index \<and> unat index < unat fec + 32)"
    using index_in_set [of fec index] by (cases "fec \<le> index") (auto simp: word_less_nat_alt word_le_nat_alt not_less not_le)
  have last: "unat (index + 1) mod 32 = 0 \<longleftrightarrow> unat index mod 32 = 31"
    using i by (simp add: unat_Suc_index) presburger
  show ?thesis
    by (simp add: parse_data_header_def data_rules_def layout_simps data_wire_fields [OF sig] le_val_word
        is_multiple_of_32 last fec Let_def word_less_nat_alt [of slot] unat_ucast_u16 not_less)
qed

lemma parse_code_header_wire:
  assumes sig: "length sig = 64"
  shows "parse_code_header (code_wire sig v slot index version fec nd nc pos rest) index fec =
    (case find (Not \<circ> fst) (tl (code_rules index fec nd nc pos)) of
       None \<Rightarrow> Inr (CodeHeader pos) | Some (_, e) \<Rightarrow> Inl (Err e))"
proof -
  have "unat nd = 32 \<longleftrightarrow> nd = 32" "unat nc = 32 \<longleftrightarrow> nc = 32" by (simp_all add: word_unat_eq_iff)
  then show ?thesis
    by (auto simp: parse_code_header_def code_rules_def layout_simps code_wire_fields [OF sig] le_val_word
        is_multiple_of_32 word_less_nat_alt unat_ucast_u16 not_less not_le)
qed

lemma decide_Cons: "decide ((ok, e) # rules) s = (if ok then decide rules s else Inl (Err e))"
  by (simp add: decide_def)

lemma parse_data_decides:
  assumes sig: "length sig = 64" and v: "shred_variant v = Some (Data, resigned)" and rest: "length rest = 1115"
    and cap: "capacity Data (v AND 0x0F) resigned = Some cap"
  shows "parse (data_wire sig v slot index version fec po fl sz rest @ nonce) =
    decide (data_rules slot index fec po fl sz cap)
      \<lparr>s_bytes = data_wire sig v slot index version fec po fl sz rest, s_kind = Data, s_resigned = resigned, s_proof_size = v AND 0x0F,
        s_slot = slot, s_index = index, s_version = version, s_fec_set_index = fec, s_capacity = cap, s_header = DataHeader po fl sz\<rparr>"
proof -
  let ?w = "data_wire sig v slot index version fec po fl sz rest"
  note fields = data_wire_fields [OF sig, of v slot index version fec po fl sz rest]
  have len: "length ?w = 1203" by (simp add: fields rest)
  have "index \<ge> 32768 \<longleftrightarrow> \<not> unat index < 32768" by (simp add: word_le_nat_alt not_less)
  then show ?thesis
    using parse_data_header_wire [OF sig, of index v slot version fec po fl sz rest cap] v cap len
    by (simp add: parse_def get_at_def nth_append fields wire_size_def layout_simps sub_list_append1 le_val_word data_rules_def index_rule_def decide_Cons)
      (auto simp: decide_def)
qed

lemma parse_code_decides:
  assumes sig: "length sig = 64" and v: "shred_variant v = Some (Code, resigned)" and rest: "length rest = 1139"
    and cap: "capacity Code (v AND 0x0F) resigned = Some cap"
  shows "parse (code_wire sig v slot index version fec nd nc pos rest @ nonce) =
    decide (code_rules index fec nd nc pos)
      \<lparr>s_bytes = code_wire sig v slot index version fec nd nc pos rest, s_kind = Code, s_resigned = resigned, s_proof_size = v AND 0x0F,
        s_slot = slot, s_index = index, s_version = version, s_fec_set_index = fec, s_capacity = cap, s_header = CodeHeader pos\<rparr>"
proof -
  let ?w = "code_wire sig v slot index version fec nd nc pos rest"
  note fields = code_wire_fields [OF sig, of v slot index version fec nd nc pos rest]
  have len: "length ?w = 1228" by (simp add: fields rest)
  have "index \<ge> 32768 \<longleftrightarrow> \<not> unat index < 32768" by (simp add: word_le_nat_alt not_less)
  then show ?thesis
    using parse_code_header_wire [OF sig, of v slot index version fec nd nc pos rest] v cap len
    by (simp add: parse_def get_at_def nth_append fields wire_size_def layout_simps sub_list_append1 le_val_word code_rules_def index_rule_def decide_Cons)
      (auto simp: decide_def)
qed

text \<open>Every datagram that is long enough has one of the two layouts.\<close>

lemma drop_split: "a \<le> b \<Longrightarrow> drop a p = sub_list p a b @ drop b p"
  by (simp add: sub_list_def) (metis append_take_drop_id drop_drop le_add_diff_inverse2)

lemma le_bytes_field:
  fixes w :: "'a::len word"
  assumes "w = word_of_nat (le_val (sub_list p a b))" and "a \<le> b" and "b \<le> length p" and "256 ^ (b - a) = (2 :: nat) ^ LENGTH('a)"
  shows "le_bytes (b - a) (unat w) = sub_list p a b"
proof -
  have len: "length (sub_list p a b) = b - a" using assms(2,3) by (simp add: sub_list_def)
  then have "le_val (sub_list p a b) < 2 ^ LENGTH('a)" using le_val_bound [of "sub_list p a b"] assms(4) by simp
  then have "unat w = le_val (sub_list p a b)" by (simp add: assms(1) unsigned_of_nat take_bit_nat_eq_self)
  then show ?thesis using le_bytes_le_val [of "sub_list p a b"] len by simp
qed

lemma common_wire_onto:
  assumes "83 \<le> length p"
  shows "p = common_wire (take 64 p) (p ! 64) (word_of_nat (le_val (sub_list p 65 73))) (word_of_nat (le_val (sub_list p 73 77)))
    (word_of_nat (le_val (sub_list p 77 79))) (word_of_nat (le_val (sub_list p 79 83))) @ drop 83 p"
proof -
  have "p = take 64 p @ p ! 64 # drop 65 p" using id_take_nth_drop [of 64 p] assms by simp
  also have "drop 65 p = sub_list p 65 73 @ sub_list p 73 77 @ sub_list p 77 79 @ sub_list p 79 83 @ drop 83 p"
    using drop_split [of 65 73 p] drop_split [of 73 77 p] drop_split [of 77 79 p] drop_split [of 79 83 p] by simp
  finally show ?thesis
    using le_bytes_field [OF refl, of 65 73 p, where 'a = 64] le_bytes_field [OF refl, of 73 77 p, where 'a = 32]
      le_bytes_field [OF refl, of 77 79 p, where 'a = 16] le_bytes_field [OF refl, of 79 83 p, where 'a = 32] assms
    by (simp add: common_wire_def)
qed

lemma data_wire_onto:
  assumes "1203 \<le> length p"
  shows "\<exists>sig slot index version fec po fl sz rest nonce. p = data_wire sig (p ! 64) slot index version fec po fl sz rest @ nonce \<and>
    length sig = 64 \<and> length rest = 1115"
proof -
  have "drop 83 p = sub_list p 83 85 @ p ! 85 # sub_list p 86 88 @ drop 88 p"
    using drop_split [of 83 85 p] Cons_nth_drop_Suc [of 85 p] drop_split [of 86 88 p] assms by simp
  also have "drop 88 p = take 1115 (drop 88 p) @ drop 1203 p" using append_take_drop_id [of 1115 "drop 88 p"] by simp
  finally have "p = data_wire (take 64 p) (p ! 64) (word_of_nat (le_val (sub_list p 65 73))) (word_of_nat (le_val (sub_list p 73 77)))
      (word_of_nat (le_val (sub_list p 77 79))) (word_of_nat (le_val (sub_list p 79 83))) (word_of_nat (le_val (sub_list p 83 85)))
      (p ! 85) (word_of_nat (le_val (sub_list p 86 88))) (take 1115 (drop 88 p)) @ drop 1203 p"
    using common_wire_onto [of p] le_bytes_field [OF refl, of 83 85 p, where 'a = 16] le_bytes_field [OF refl, of 86 88 p, where 'a = 16] assms
    by (simp add: data_wire_def)
  then show ?thesis using assms by (intro exI conjI) auto
qed

lemma code_wire_onto:
  assumes "1228 \<le> length p"
  shows "\<exists>sig slot index version fec nd nc pos rest nonce. p = code_wire sig (p ! 64) slot index version fec nd nc pos rest @ nonce \<and>
    length sig = 64 \<and> length rest = 1139"
proof -
  have "drop 83 p = sub_list p 83 85 @ sub_list p 85 87 @ sub_list p 87 89 @ drop 89 p"
    using drop_split [of 83 85 p] drop_split [of 85 87 p] drop_split [of 87 89 p] by simp
  also have "drop 89 p = take 1139 (drop 89 p) @ drop 1228 p" using append_take_drop_id [of 1139 "drop 89 p"] by simp
  finally have "p = code_wire (take 64 p) (p ! 64) (word_of_nat (le_val (sub_list p 65 73))) (word_of_nat (le_val (sub_list p 73 77)))
      (word_of_nat (le_val (sub_list p 77 79))) (word_of_nat (le_val (sub_list p 79 83))) (word_of_nat (le_val (sub_list p 83 85)))
      (word_of_nat (le_val (sub_list p 85 87))) (word_of_nat (le_val (sub_list p 87 89))) (take 1139 (drop 89 p)) @ drop 1228 p"
    using common_wire_onto [of p] le_bytes_field [OF refl, of 83 85 p, where 'a = 16] le_bytes_field [OF refl, of 85 87 p, where 'a = 16]
      le_bytes_field [OF refl, of 87 89 p, where 'a = 16] assms
    by (simp add: code_wire_def)
  then show ?thesis using assms by (intro exI conjI) auto
qed

section \<open>The unit tests of the module\<close>

text \<open>\<open>s[off..off + n].copy_from_slice(src)\<close> for a slice inside \<open>s\<close>.\<close>

definition copy_at :: "nat \<Rightarrow> bytes \<Rightarrow> bytes \<Rightarrow> bytes" where
  "copy_at off src s = take off s @ src @ drop (off + length src) s"

definition data_shred :: bytes where
  "data_shred =
     (let s = replicate DATA_SHRED_SIZE 0;
          s = s[VARIANT_OFFSET := 0x96];
          s = copy_at SLOT_OFFSET (le_bytes 8 1000) s;
          s = copy_at INDEX_OFFSET (le_bytes 4 35) s;
          s = copy_at FEC_SET_INDEX_OFFSET (le_bytes 4 32) s;
          s = copy_at PARENT_OFFSET_OFFSET (le_bytes 2 1) s
      in copy_at SIZE_OFFSET (le_bytes 2 500) s)"

definition code_shred :: bytes where
  "code_shred =
     (let s = replicate CODE_SHRED_SIZE 0;
          s = s[VARIANT_OFFSET := 0x66];
          s = copy_at SLOT_OFFSET (le_bytes 8 1000) s;
          s = copy_at INDEX_OFFSET (le_bytes 4 40) s;
          s = copy_at FEC_SET_INDEX_OFFSET (le_bytes 4 32) s;
          s = copy_at NUM_DATA_OFFSET (le_bytes 2 32) s;
          s = copy_at NUM_CODE_OFFSET (le_bytes 2 32) s
      in copy_at POSITION_OFFSET (le_bytes 2 8) s)"

definition capacities_match_agave :: bool where
  "capacities_match_agave \<longleftrightarrow> DATA_CAPACITY = 963 \<and>
     capacity Data 6 False = Some 963 \<and> capacity Data 6 True = Some 899 \<and>
     capacity Code 6 False = Some 987 \<and> capacity Code 6 True = Some 923 \<and>
     map_option (\<lambda>c. c + DATA_HEADERS_SIZE - SIGNATURE_SIZE) (capacity Data 6 False) = capacity Code 6 False"

definition parses_well_formed_shreds :: bool where
  "parses_well_formed_shreds \<longleftrightarrow>
     (case parse data_shred of Inl _ \<Rightarrow> False | Inr d \<Rightarrow>
        s_kind d = Data \<and> s_slot d = 1000 \<and> s_index d = 35 \<and> erasure_shard_index d = 3 \<and>
        map_sum id length (shred_data d :: (unit, bytes) outcome) = Inr (500 - DATA_HEADERS_SIZE) \<and>
        parent_slot d = Some 999 \<and> map_sum id length (erasure_shard d :: (unit, bytes) outcome) = Inr 987) \<and>
     (case parse code_shred of Inl _ \<Rightarrow> False | Inr c \<Rightarrow>
        s_kind c = Code \<and> erasure_shard_index c = 40 \<and> map_sum id length (erasure_shard c :: (unit, bytes) outcome) = Inr 987)"

definition repair_nonce_is_dropped :: bool where
  "repair_nonce_is_dropped \<longleftrightarrow>
     (case parse (data_shred @ [1, 2, 3, 4]) of Inl _ \<Rightarrow> False | Inr d \<Rightarrow> length (s_bytes d) = DATA_SHRED_SIZE)"

definition rejects_garbage :: bool where
  "rejects_garbage \<longleftrightarrow> parse (replicate 10 0) = Inl (Err (TooShort 10)) \<and>
     parse (data_shred[VARIANT_OFFSET := 0xA6]) = Inl (Err (InvalidVariant 0xA6)) \<and>
     parse (take 1000 data_shred) = Inl (Err (TooShort 1000))"

definition rejects_bad_data_headers :: bool where
  "rejects_bad_data_headers \<longleftrightarrow>
     (\<exists>i f. parse (copy_at INDEX_OFFSET (le_bytes 4 70) data_shred) = Inl (Err (FecSetMisaligned i f))) \<and>
     (\<exists>s p. parse (copy_at PARENT_OFFSET_OFFSET (le_bytes 2 0) data_shred) = Inl (Err (InvalidParentOffset s p))) \<and>
     parse (data_shred[FLAGS_OFFSET := 0x80]) = Inl (Err (InvalidFlags 0x80)) \<and>
     parse (data_shred[FLAGS_OFFSET := FLAG_LAST_IN_SLOT]) = Inl (Err (InvalidFlags FLAG_LAST_IN_SLOT)) \<and>
     parse (copy_at SIZE_OFFSET (le_bytes 2 (88 + 964)) data_shred) = Inl (Err (InvalidSize (88 + 964))) \<and>
     parse (copy_at SIZE_OFFSET (le_bytes 2 87) data_shred) = Inl (Err (InvalidSize 87))"

definition rejects_bad_erasure_config :: bool where
  "rejects_bad_erasure_config \<longleftrightarrow>
     (\<exists>a b c. parse (copy_at NUM_DATA_OFFSET (le_bytes 2 16) code_shred) = Inl (Err (InvalidErasureConfig a b c))) \<and>
     (\<exists>a b c. parse (copy_at POSITION_OFFSET (le_bytes 2 32) code_shred) = Inl (Err (InvalidErasureConfig a b c)))"

abbreviation zeros :: bytes where "zeros \<equiv> replicate 64 0"

lemma data_fields_set:
  "length sig = 64 \<Longrightarrow> copy_at 73 (le_bytes 4 (unat index')) (data_wire sig v slot index version fec po fl sz rest) = data_wire sig v slot index' version fec po fl sz rest"
  "length sig = 64 \<Longrightarrow> copy_at 65 (le_bytes 8 (unat slot')) (data_wire sig v slot index version fec po fl sz rest) = data_wire sig v slot' index version fec po fl sz rest"
  "length sig = 64 \<Longrightarrow> copy_at 79 (le_bytes 4 (unat fec')) (data_wire sig v slot index version fec po fl sz rest) = data_wire sig v slot index version fec' po fl sz rest"
  "length sig = 64 \<Longrightarrow> copy_at 83 (le_bytes 2 (unat po')) (data_wire sig v slot index version fec po fl sz rest) = data_wire sig v slot index version fec po' fl sz rest"
  "length sig = 64 \<Longrightarrow> copy_at 86 (le_bytes 2 (unat sz')) (data_wire sig v slot index version fec po fl sz rest) = data_wire sig v slot index version fec po fl sz' rest"
  "length sig = 64 \<Longrightarrow> (data_wire sig v slot index version fec po fl sz rest)[64 := v'] = data_wire sig v' slot index version fec po fl sz rest"
  "length sig = 64 \<Longrightarrow> (data_wire sig v slot index version fec po fl sz rest)[85 := fl'] = data_wire sig v slot index version fec po fl' sz rest"
  by (simp_all add: copy_at_def data_wire_def common_wire_def list_update_append)

lemma code_fields_set:
  "length sig = 64 \<Longrightarrow> copy_at 73 (le_bytes 4 (unat index')) (code_wire sig v slot index version fec nd nc pos rest) = code_wire sig v slot index' version fec nd nc pos rest"
  "length sig = 64 \<Longrightarrow> copy_at 65 (le_bytes 8 (unat slot')) (code_wire sig v slot index version fec nd nc pos rest) = code_wire sig v slot' index version fec nd nc pos rest"
  "length sig = 64 \<Longrightarrow> copy_at 79 (le_bytes 4 (unat fec')) (code_wire sig v slot index version fec nd nc pos rest) = code_wire sig v slot index version fec' nd nc pos rest"
  "length sig = 64 \<Longrightarrow> copy_at 83 (le_bytes 2 (unat nd')) (code_wire sig v slot index version fec nd nc pos rest) = code_wire sig v slot index version fec nd' nc pos rest"
  "length sig = 64 \<Longrightarrow> copy_at 85 (le_bytes 2 (unat nc')) (code_wire sig v slot index version fec nd nc pos rest) = code_wire sig v slot index version fec nd nc' pos rest"
  "length sig = 64 \<Longrightarrow> copy_at 87 (le_bytes 2 (unat pos')) (code_wire sig v slot index version fec nd nc pos rest) = code_wire sig v slot index version fec nd nc pos' rest"
  "length sig = 64 \<Longrightarrow> (code_wire sig v slot index version fec nd nc pos rest)[64 := v'] = code_wire sig v' slot index version fec nd nc pos rest"
  by (simp_all add: copy_at_def code_wire_def common_wire_def list_update_append)

lemma data_shred_wire: "data_shred = data_wire zeros 0x96 1000 35 0 32 1 0 500 (replicate 1115 0)"
proof -
  have zero: "replicate 1203 0 = data_wire zeros 0 0 0 0 0 0 0 0 (replicate 1115 0)"
    by (simp add: data_wire_def common_wire_def le_bytes_zero flip: replicate_add replicate_Suc)
  show ?thesis
    unfolding data_shred_def Let_def zero
    using data_fields_set(1) [of _ 35] data_fields_set(2) [of _ 1000] data_fields_set(3) [of _ 32] data_fields_set(4) [of _ 1] data_fields_set(5) [of _ 500]
    by (simp add: data_fields_set(6))
qed

lemma code_shred_wire: "code_shred = code_wire zeros 0x66 1000 40 0 32 32 32 8 (replicate 1139 0)"
proof -
  have zero: "replicate 1228 0 = code_wire zeros 0 0 0 0 0 0 0 0 (replicate 1139 0)"
    by (simp add: code_wire_def common_wire_def le_bytes_zero flip: replicate_add replicate_Suc)
  show ?thesis
    unfolding code_shred_def Let_def zero
    using code_fields_set(1) [of _ 40] code_fields_set(2) [of _ 1000] code_fields_set(3) [of _ 32] code_fields_set(4) [of _ 32]
      code_fields_set(5) [of _ 32] code_fields_set(6) [of _ 8]
    by (simp add: code_fields_set(7))
qed

lemmas variants = shred_variant_def capacity_def wire_size_def headers_size_def

lemma test_data: "parse (data_wire zeros 0x96 1000 index 0 32 po fl sz (replicate 1115 0) @ nonce) =
    decide (data_rules 1000 index 32 po fl sz 963)
      \<lparr>s_bytes = data_wire zeros 0x96 1000 index 0 32 po fl sz (replicate 1115 0), s_kind = Data, s_resigned = False, s_proof_size = 6,
        s_slot = 1000, s_index = index, s_version = 0, s_fec_set_index = 32, s_capacity = 963, s_header = DataHeader po fl sz\<rparr>"
  by (subst parse_data_decides [where resigned = False and cap = 963]) (simp_all add: variants)

lemma test_code: "parse (code_wire zeros 0x66 1000 40 0 32 nd nc pos (replicate 1139 0) @ nonce) =
    decide (code_rules 40 32 nd nc pos)
      \<lparr>s_bytes = code_wire zeros 0x66 1000 40 0 32 nd nc pos (replicate 1139 0), s_kind = Code, s_resigned = False, s_proof_size = 6,
        s_slot = 1000, s_index = 40, s_version = 0, s_fec_set_index = 32, s_capacity = 987, s_header = CodeHeader pos\<rparr>"
  by (subst parse_code_decides [where resigned = False and cap = 987]) (simp_all add: variants)

lemmas rule_simps = decide_def data_rules_def code_rules_def index_rule_def

lemma test_capacities: "capacities_match_agave"
  by (simp add: capacities_match_agave_def DATA_CAPACITY_def variants)

lemma test_parses: "parses_well_formed_shreds"
  using test_data [of 35 1 0 500 "[]"] test_code [of 32 32 8 "[]"]
  by (simp add: parses_well_formed_shreds_def data_shred_wire code_shred_wire rule_simps erasure_shard_index_def parent_slot_def
      shred_data_def erasure_shard_def data_wire_fields code_wire_fields)

lemma test_nonce: "repair_nonce_is_dropped"
  using test_data [of 35 1 0 500 "[1, 2, 3, 4]"]
  by (simp add: repair_nonce_is_dropped_def data_shred_wire rule_simps data_wire_fields)

lemma test_garbage: "rejects_garbage"
  by (simp add: rejects_garbage_def data_shred_wire data_fields_set parse_def get_at_def data_wire_fields variants)

lemma test_data_headers: "rejects_bad_data_headers"
  using test_data [of 70 1 0 500 "[]"] test_data [of 35 0 0 500 "[]"] test_data [of 35 1 "0x80" 500 "[]"] test_data [of 35 1 "0xC0" 500 "[]"]
    test_data [of 35 1 0 1052 "[]"] test_data [of 35 1 0 87 "[]"]
    data_fields_set(1) [of _ 70] data_fields_set(4) [of _ 0] data_fields_set(5) [of _ 1052] data_fields_set(5) [of _ 87]
  by (simp add: rejects_bad_data_headers_def data_shred_wire data_fields_set(7) rule_simps)

lemma test_erasure: "rejects_bad_erasure_config"
  using test_code [of 16 32 8 "[]"] test_code [of 32 32 32 "[]"] code_fields_set(4) [of _ 16] code_fields_set(6) [of _ 32]
  by (simp add: rejects_bad_erasure_config_def code_shred_wire rule_simps)

section \<open>Properties\<close>

text \<open>The datagram is a serialization of some fields, and their rules decide it.\<close>

definition decided :: "bytes \<Rightarrow> shred_kind \<Rightarrow> bool \<Rightarrow> nat \<Rightarrow> bool" where
  "decided p kind resigned cap \<longleftrightarrow>
     (case kind of
        Data \<Rightarrow> \<exists>sig slot index version fec po fl sz rest nonce.
          p = data_wire sig (p ! 64) slot index version fec po fl sz rest @ nonce \<and> length sig = 64 \<and> length rest = 1115 \<and>
          parse p = decide (data_rules slot index fec po fl sz cap)
            \<lparr>s_bytes = data_wire sig (p ! 64) slot index version fec po fl sz rest, s_kind = Data, s_resigned = resigned,
              s_proof_size = p ! 64 AND 0x0F, s_slot = slot, s_index = index, s_version = version, s_fec_set_index = fec,
              s_capacity = cap, s_header = DataHeader po fl sz\<rparr>
      | Code \<Rightarrow> \<exists>sig slot index version fec nd nc pos rest nonce.
          p = code_wire sig (p ! 64) slot index version fec nd nc pos rest @ nonce \<and> length sig = 64 \<and> length rest = 1139 \<and>
          parse p = decide (code_rules index fec nd nc pos)
            \<lparr>s_bytes = code_wire sig (p ! 64) slot index version fec nd nc pos rest, s_kind = Code, s_resigned = resigned,
              s_proof_size = p ! 64 AND 0x0F, s_slot = slot, s_index = index, s_version = version, s_fec_set_index = fec,
              s_capacity = cap, s_header = CodeHeader pos\<rparr>)"

lemma parse_long:
  assumes "64 < length p" and "shred_variant (p ! 64) = Some (kind, resigned)"
  shows "if length p < wire_size kind then parse p = Inl (Err (TooShort (length p)))
      else \<exists>cap. capacity kind (p ! 64 AND 0x0F) resigned = Some cap \<and>
       decided p kind resigned cap"
proof (cases "length p < wire_size kind")
  case True
  then show ?thesis using assms by (simp add: parse_def get_at_def)
next
  case False
  obtain cap where cap: "capacity kind (p ! 64 AND 0x0F) resigned = Some cap" using capacity_low_nibble [of kind "p ! 64" resigned] by blast
  show ?thesis
  proof (cases kind)
    case Data
    then obtain sig slot index version fec po fl sz rest nonce where
      p: "p = data_wire sig (p ! 64) slot index version fec po fl sz rest @ nonce" "length sig = 64" "length rest = 1115"
      using data_wire_onto [of p] False by (auto simp: wire_size_def)
    from parse_data_decides [OF p(2) assms(2) [unfolded Data] p(3) cap [unfolded Data], of slot index version fec po fl sz nonce, folded p(1)]
    have "decided p Data resigned cap" using p unfolding decided_def shred_kind.case by blast
    then show ?thesis using cap Data False by simp
  next
    case Code
    then obtain sig slot index version fec nd nc pos rest nonce where
      p: "p = code_wire sig (p ! 64) slot index version fec nd nc pos rest @ nonce" "length sig = 64" "length rest = 1139"
      using code_wire_onto [of p] False by (auto simp: wire_size_def)
    from parse_code_decides [OF p(2) assms(2) [unfolded Code] p(3) cap [unfolded Code], of slot index version fec nd nc pos nonce, folded p(1)]
    have "decided p Code resigned cap" using p unfolding decided_def shred_kind.case by blast
    then show ?thesis using cap Code False by simp
  qed
qed

text \<open>
  C12. The parser decides every datagram by the table of rules. One of at most 64 bytes, or shorter than the wire size of its
  variant, is too short; an unknown variant is named as such; every other datagram is a serialization of some field values, data
  or code, followed by ignored bytes, and is accepted with exactly these values if they keep all the rules, and refused with the
  error of the first rule they break otherwise.
\<close>

theorem parse_decides:
  "(length p \<le> 64 \<longrightarrow> parse p = Inl (Err (TooShort (length p)))) \<and>
   (64 < length p \<and> shred_variant (p ! 64) = None \<longrightarrow> parse p = Inl (Err (InvalidVariant (p ! 64)))) \<and>
   (64 < length p \<and> shred_variant (p ! 64) = Some (kind, resigned) \<longrightarrow>
     (if length p < wire_size kind then parse p = Inl (Err (TooShort (length p)))
      else \<exists>cap. capacity kind (p ! 64 AND 0x0F) resigned = Some cap \<and>
       decided p kind resigned cap))"
  using parse_long [of p kind resigned] by (auto simp: parse_def get_at_def)

theorem parse_decides_witness:
  "parse [1, 2] = Inl (Err (TooShort 2)) \<and> (\<exists>cap. decided data_shred Data False cap) \<and> (\<exists>cap. decided code_shred Code False cap)"
proof -
  have "length data_shred = 1203" "data_shred ! 64 = 0x96" by (simp_all add: data_shred_wire data_wire_fields)
  then have "64 < length data_shred \<and> shred_variant (data_shred ! 64) = Some (Data, False)" "\<not> length data_shred < wire_size Data"
    by (simp_all add: shred_variant_def wire_size_def)
  moreover have "length code_shred = 1228" "code_shred ! 64 = 0x66" by (simp_all add: code_shred_wire code_wire_fields)
  then have "64 < length code_shred \<and> shred_variant (code_shred ! 64) = Some (Code, False)" "\<not> length code_shred < wire_size Code"
    by (simp_all add: shred_variant_def wire_size_def)
  ultimately show ?thesis
    using parse_decides [of data_shred Data False] parse_decides [of code_shred Code False] parse_decides [of "[1, 2]"] by auto
qed

end
