(* ===== verification/Tests.thy ===== *)
theory Tests
  imports Validation ViewWire Fixture
begin

text \<open>
  The unit tests of \<open>src/merkle.rs\<close>, \<open>src/fixture.rs\<close>, \<open>src/view.rs\<close> and \<open>src/entry.rs\<close> that need no recorded capture, as statements about the
  model; those of \<open>src/shred.rs\<close> are in \<open>Validation\<close>. \<open>wincode\<close> is replaced by the decoder made of the scanner
  (\<open>scan_deserialize\<close>), which reads the documented layout.
\<close>

section \<open>A decoder for the tests\<close>

text \<open>An entry as the owned decoder returns it, by its decoder of transactions.\<close>

definition owned :: "(wire_tx \<Rightarrow> 'tx) \<Rightarrow> wire_entry \<Rightarrow> 'tx entry" where
  "owned dec e = \<lparr>en_num_hashes = we_num_hashes e, en_hash = we_hash e, en_transactions = map dec (we_txs e)\<rparr>"

text \<open>It keeps the bytes of every transaction and is made of the scanner.\<close>

definition ok_items :: "('e + 'a) list \<Rightarrow> 'a list option" where
  "ok_items items = those (map (\<lambda>i. case i of Inl _ \<Rightarrow> None | Inr x \<Rightarrow> Some x) items)"

definition scanned_entry :: "entry_view \<Rightarrow> bytes entry option" where
  "scanned_entry ev = map_option (\<lambda>txs. \<lparr>en_num_hashes = ev_num_hashes ev, en_hash = ev_hash ev, en_transactions = map tv_bytes txs\<rparr>)
     (ok_items (iter_items scan_transaction (transactions ev)))"

definition scan_deserialize :: "(unit, bytes) deserializer" where
  "scan_deserialize segment = (case entries segment of
     Inl _ \<Rightarrow> Inl ()
   | Inr it \<Rightarrow> (case Option.bind (ok_items (iter_items scan_entry it)) (\<lambda>evs. those (map scanned_entry evs)) of
       None \<Rightarrow> Inl () | Some es \<Rightarrow> Inr es))"

lemma those_map: "(\<And>x. x \<in> set xs \<Longrightarrow> f x = Some (g x)) \<Longrightarrow> those (map f xs) = Some (map g xs)"
  by (induction xs) auto

lemma ok_items_map: "ok_items (map (Inr \<circ> f) xs) = Some (map f xs)"
  unfolding ok_items_def map_map by (rule those_map) simp

lemma scan_deserialize_wire:
  assumes es: "\<forall>e\<in>set es. entry_ok e" "length (segment_wire es @ padding) < 2 ^ 64"
  shows "scan_deserialize (segment_wire es @ padding) = Inr (map (owned tx_wire) es)"
proof -
  obtain it where it: "entries (segment_wire es @ padding) = Inr it" "iter_items scan_entry it = map (Inr \<circ> entry_view_of) es"
      "\<forall>e\<in>set es. iter_items scan_transaction (transactions (entry_view_of e)) = map (Inr \<circ> scanned_view) (we_txs e)"
    using segment_walk [OF es] by blast
  have "tv_bytes (scanned_view t) = tx_wire t" for t by (cases t) simp_all
  then have "scanned_entry (entry_view_of e) = Some (owned tx_wire e)" if "e \<in> set es" for e
    using it(3) that by (simp add: scanned_entry_def ok_items_map [unfolded comp_def] owned_def entry_view_of_def comp_def)
  then have "those (map (scanned_entry \<circ> entry_view_of) es) = Some (map (owned tx_wire) es)" by (intro those_map) simp
  then show ?thesis by (simp add: scan_deserialize_def it(1,2) ok_items_map)
qed

section \<open>The tests\<close>

definition roundtrip :: bool where
  "roundtrip \<longleftrightarrow>
     (\<exists>w0 w1 buf r0 r1 r2 r3 a b.
        writer_new vec_write_all [] = (w0, None) \<and>
        write_at vec_write_all 1 [0x61, 0x62, 0x63] w0 = (w1, None) \<and>
        write_at vec_write_all 2 (replicate 1203 0) w1 = (buf, None) \<and>
        reader_new slice_read_exact buf = (r0, Inr ()) \<and>
        reader_next slice_read_exact r0 = (r1, Some (Inr a)) \<and>
        reader_next slice_read_exact r1 = (r2, Some (Inr b)) \<and>
        reader_next slice_read_exact r2 = (r3, None) \<and>
        fr_unix_nanos a = 1 \<and> fr_packet a = [0x61, 0x62, 0x63] \<and> length (fr_packet b) = 1203) \<and>
     (\<exists>r e. reader_new slice_read_exact [0x6E, 0x6F, 0x70, 0x65] = (r, Inl e))"

definition truncated_and_garbage_segments_error :: bool where
  "truncated_and_garbage_segments_error \<longleftrightarrow>
     (\<exists>e. entries [] = Inl e) \<and>
     (\<exists>it. entries (segment_wire []) = Inr it \<and> length (iter_items scan_entry it) = 0) \<and>
     (\<exists>it e. entries (le_bytes 8 1 @ replicate 4 0) = Inr it \<and> last (iter_items scan_entry it) = Inl e \<and> iter_items scan_entry it \<noteq> [])"

definition zero_count_is_a_block_marker :: bool where
  "zero_count_is_a_block_marker \<longleftrightarrow>
     entry_decode scan_deserialize (replicate 8 0 @ [1, 0, 42]) = Inr BlockMarker \<and>
     (\<exists>e. entry_decode scan_deserialize [1, 2, 3] = Inl e) \<and> (\<exists>e. entry_decode scan_deserialize (replicate 40 9) = Inl e)"

text \<open>
  The Merkle tests, for any hash function with digests of 32 bytes. That a proof does not lead another index to the root
  (the last assertion of the module) needs a hash without collisions and is left out.
\<close>

definition test_leaves :: "hasher \<Rightarrow> nat \<Rightarrow> nat \<Rightarrow> hash32 list" where
  "test_leaves hashv k n = map (\<lambda>i. leaf hashv (replicate k (word_of_nat i))) [0..<n]"

definition proofs_reproduce_root_test :: "hasher \<Rightarrow> bool" where
  "proofs_reproduce_root_test hashv \<longleftrightarrow>
     (\<forall>n\<in>set [1, 2, 3, 5, 64]. \<forall>i<n.
        bind_out (tree_new hashv (test_leaves hashv 10 n)) (\<lambda>t.
        bind_out (tree_proof t i) (\<lambda>p.
        bind_out (root_from_proof hashv i (test_leaves hashv 10 n ! i) (concat p)) (\<lambda>walked.
        bind_out (tree_root t) (\<lambda>root. Inr (walked = Some root))))) = (Inr True :: (unit, bool) outcome)) \<and>
     bind_out (tree_new hashv (test_leaves hashv 1 64)) (\<lambda>t. bind_out (tree_proof t 0) (\<lambda>p.
       Inr (length p = unat PROOF_ENTRIES_FOR_32_32))) = (Inr True :: (unit, bool) outcome)"

definition short_proof_is_rejected :: "hasher \<Rightarrow> bool" where
  "short_proof_is_rejected hashv \<longleftrightarrow>
     bind_out (tree_new hashv (test_leaves hashv 1 64)) (\<lambda>t.
     bind_out (tree_proof t 5) (\<lambda>p.
     bind_out (slice (concat p) 0 40) (\<lambda>short.
     bind_out (root_from_proof hashv 5 (leaf hashv [5]) short) (\<lambda>walked. Inr (walked = None))))) = (Inr True :: (unit, bool) outcome)"

definition v1_transaction :: wire_tx where
  "v1_transaction = V1Tx
     \<lparr>wm_header = [1, 0, 1], wm_keys = [replicate 32 1, replicate 32 2], wm_blockhash = replicate 32 9,
       wm_instructions = [\<lparr>wi_program = 1, wi_accounts = [0], wi_data = [1, 2, 3]\<rparr>]\<rparr>
     7 (le_bytes 8 5000 @ le_bytes 4 200000) [replicate 64 7]"

definition v1_entry :: wire_entry where
  "v1_entry = \<lparr>we_num_hashes = 3, we_hash = replicate 32 4, we_txs = [v1_transaction]\<rparr>"

definition v1_transaction_round_trips :: bool where
  "v1_transaction_round_trips \<longleftrightarrow>
     (let bytes = segment_wire [v1_entry] in
      take 8 bytes = le_bytes 8 1 \<and> entry_decode scan_deserialize bytes = Inr (Entries [owned tx_wire v1_entry]))"

section \<open>They pass\<close>

lemma test_leaves_ok: "digest32 hashv \<Longrightarrow> \<forall>x\<in>set (test_leaves hashv k n). length x = 32" "length (test_leaves hashv k n) = n"
  by (auto simp: test_leaves_def)

lemma full_tree_proof:
  assumes "digest32 hashv" and "i < 64"
  obtains t p where "tree_new hashv (test_leaves hashv 1 64) = (Inr t :: ('e, _) outcome)" "tree_proof t i = (Inr p :: ('e, _) outcome)"
    "length p = 6" "\<forall>s\<in>set p. length s = 20"
proof -
  let ?l = "test_leaves hashv 1 64"
  have l: "?l \<noteq> []" "\<forall>x\<in>set ?l. length x = 32" "i < length ?l" using test_leaves_ok [of hashv 1 64] assms by auto
  moreover have "\<forall>x\<in>set ?l. PROOF_ENTRY_SIZE \<le> length x" using l(2) by simp
  moreover have "length (merkle_proof_of hashv ?l i) = 6" by (rule full_tree_proof_length) (simp add: test_leaves_ok(2))
  ultimately show thesis
    by (intro that [OF tree_new_eq [OF assms(1)] tree_and_proof [OF assms(1)] _ merkle_proof_entries [OF assms(1)]])
qed

lemma proofs_reproduce_root_passes: "digest32 hashv \<Longrightarrow> proofs_reproduce_root_test hashv"
  unfolding proofs_reproduce_root_test_def
proof (intro conjI ballI allI impI)
  assume hash: "digest32 hashv"
  then obtain t p where "tree_new hashv (test_leaves hashv 1 64) = (Inr t :: (unit, _) outcome)" "tree_proof t 0 = (Inr p :: (unit, _) outcome)"
      "length p = 6" by (rule full_tree_proof [of hashv 0]) simp_all
  then show "bind_out (tree_new hashv (test_leaves hashv 1 64)) (\<lambda>t. bind_out (tree_proof t 0) (\<lambda>p.
      Inr (length p = unat PROOF_ENTRIES_FOR_32_32))) = (Inr True :: (unit, bool) outcome)" by simp
qed (rule proof_walks_back; simp add: test_leaves_ok)

lemma short_proof_passes:
  assumes "digest32 hashv"
  shows "short_proof_is_rejected hashv"
proof -
  obtain t p where p: "tree_new hashv (test_leaves hashv 1 64) = (Inr t :: (unit, _) outcome)" "tree_proof t 5 = (Inr p :: (unit, _) outcome)"
      "length p = 6" "\<forall>s\<in>set p. length s = 20" by (rule full_tree_proof [OF assms, of 5]) simp_all
  have "length (concat p) = 120" using p(3,4) sum_list_triv [of 20 p] by (simp add: length_concat cong: map_cong)
  then have "length (take 40 (concat p)) div PROOF_ENTRY_SIZE = 2" "slice (concat p) 0 40 = (Inr (take 40 (concat p)) :: (unit, _) outcome)"
    by (simp_all add: slice_def)
  moreover obtain r where "root_from_proof hashv 5 (leaf hashv [5]) (take 40 (concat p)) = (Inr r :: (unit, _) outcome)"
      "r \<noteq> None \<longleftrightarrow> 5 < (2 :: nat) ^ (length (take 40 (concat p)) div PROOF_ENTRY_SIZE)"
    using root_from_proof_total [OF assms, of "leaf hashv [5]" 5 "take 40 (concat p)"] assms by auto
  ultimately show ?thesis using p(1,2) by (simp add: short_proof_is_rejected_def)
qed

lemma roundtrip_passes: "roundtrip"
proof -
  let ?a = "\<lparr>fr_unix_nanos = 1, fr_packet = [0x61, 0x62, 0x63]\<rparr>" and ?b = "\<lparr>fr_unix_nanos = 2, fr_packet = replicate 1203 0\<rparr>"
  obtain r0 where r0: "reader_new slice_read_exact (MAGIC @ record_bytes ?a @ record_bytes ?b) = (r0, Inr ())" "r0 = record_bytes ?a @ record_bytes ?b"
    using slice.reader_new_ok [of "MAGIC @ record_bytes ?a @ record_bytes ?b"] by auto
  obtain r1 where r1: "reader_next slice_read_exact r0 = (r1, Some (Inr ?a))" "r1 = record_bytes ?b"
    using slice.reader_next_record [of r0 ?a] r0(2) by auto
  obtain r2 where r2: "reader_next slice_read_exact r1 = (r2, Some (Inr ?b))" "r2 = []"
    using slice.reader_next_record [of r1 ?b "[]"] r1(2) by auto
  obtain r3 where r3: "reader_next slice_read_exact r2 = (r3, None)" using slice.reader_next_end [of r2] r2(2) by auto
  have w: "writer_new vec_write_all [] = (MAGIC, None)" "write_at vec_write_all 1 [0x61, 0x62, 0x63] MAGIC = (MAGIC @ record_bytes ?a, None)"
      "write_at vec_write_all 2 (replicate 1203 0) (MAGIC @ record_bytes ?a) = (MAGIC @ record_bytes ?a @ record_bytes ?b, None)"
    by (simp_all add: writer_new_def write_at_def vec_write_all_def record_bytes_def)
  have "\<exists>r e. reader_new slice_read_exact [0x6E, 0x6F, 0x70, 0x65] = (r, Inl e)"
    by (simp add: reader_new_def slice_read_exact_def)
  moreover have "\<exists>w0 w1 buf r0 r1 r2 r3 a b.
        writer_new vec_write_all [] = (w0, None) \<and>
        write_at vec_write_all 1 [0x61, 0x62, 0x63] w0 = (w1, None) \<and>
        write_at vec_write_all 2 (replicate 1203 0) w1 = (buf, None) \<and>
        reader_new slice_read_exact buf = (r0, Inr ()) \<and>
        reader_next slice_read_exact r0 = (r1, Some (Inr a)) \<and>
        reader_next slice_read_exact r1 = (r2, Some (Inr b)) \<and>
        reader_next slice_read_exact r2 = (r3, None) \<and>
        fr_unix_nanos a = 1 \<and> fr_packet a = [0x61, 0x62, 0x63] \<and> length (fr_packet b) = 1203"
    by (rule exI, rule exI, rule exI, rule exI, rule exI, rule exI, rule exI, rule exI, rule exI,
        rule conjI [OF w(1)], rule conjI [OF w(2)], rule conjI [OF w(3)], rule conjI [OF r0(1)], rule conjI [OF r1(1)],
        rule conjI [OF r2(1)], rule conjI [OF r3]) (simp only: fixture_record.simps length_replicate simp_thms)
  ultimately show ?thesis unfolding roundtrip_def by (rule conjI [rotated])
qed

text \<open>A segment that announces entries and ends inside the hash of the first of them.\<close>

lemma first_entry_cut:
  assumes "length p = 8" and "0 < le_val p" and "length rest < 40"
  shows "\<exists>it e. entries (p @ rest) = Inr it \<and> iter_items scan_entry it = [Inl e]"
proof -
  let ?it = "\<lparr>it_cursor = at (p @ rest) 8, it_remaining = word_of_nat (le_val p)\<rparr>"
  have n: "unat (word_of_nat (le_val p) :: u64) = le_val p" using le_val_bound [of p] assms(1) by (intro unat_u64) simp
  have "entries (p @ rest) = Inr ?it"
    using assms(1) by (simp add: entries_def cursor_u64_def cursor_take_def at_def slice_def)
  moreover obtain e where "scan_entry (at (p @ rest) 8) = Inl e"
    using assms(1,3) by (cases "length rest < 8") (simp_all add: scan_entry_def cursor_u64_def cursor_take_def at_def slice_def)
  then have "iter_items scan_entry ?it = [Inl e]"
    using assms(2) n
    by (subst iter_items.simps, simp add: iter_next_def flip: unat_gt_0) (subst iter_items.simps, simp add: iter_next_def)
  ultimately show ?thesis by blast
qed

lemma truncated_and_garbage_passes: "truncated_and_garbage_segments_error"
proof -
  have "\<exists>e. entries [] = Inl e" by (simp add: entries_def cursor_u64_def cursor_take_def slice_def)
  moreover obtain it where "entries (segment_wire []) = Inr it" "iter_items scan_entry it = []"
    using segment_walk [of "[]" "[]"] by (auto simp: segment_wire_def)
  moreover obtain it e where "entries (le_bytes 8 1 @ replicate 4 0) = Inr it" "iter_items scan_entry it = [Inl e]"
    using first_entry_cut [of "le_bytes 8 1" "replicate 4 0"] le_val_le_bytes [of 1 8] by auto
  then have "\<exists>it e. entries (le_bytes 8 1 @ replicate 4 0) = Inr it \<and> last (iter_items scan_entry it) = Inl e \<and>
      iter_items scan_entry it \<noteq> []" by auto
  ultimately show ?thesis unfolding truncated_and_garbage_segments_error_def by auto
qed

lemma zero_count_passes: "zero_count_is_a_block_marker"
proof -
  have nines: "replicate 40 9 = replicate 8 9 @ (replicate 32 9 :: bytes)" by (subst replicate_add [symmetric]) simp
  have "replicate 8 9 = (9 :: u8) # replicate 7 9" using replicate_Suc [of 7 "9 :: u8"] by (simp del: replicate_Suc)
  then have "0 < le_val (replicate 8 9)" by simp
  then obtain it e where "entries (replicate 40 9) = Inr it" "iter_items scan_entry it = [Inl e]"
    using first_entry_cut [of "replicate 8 9" "replicate 32 9"] unfolding nines by auto
  then have "scan_deserialize (replicate 40 9) = Inl ()" by (simp add: scan_deserialize_def ok_items_def)
  moreover have "scan_deserialize [1, 2, 3] = Inl ()"
    by (simp add: scan_deserialize_def entries_def cursor_u64_def cursor_take_def slice_def)
  moreover have "take 8 (replicate 40 9) \<noteq> (replicate 8 0 :: bytes)" by simp
  ultimately show ?thesis by (simp add: zero_count_is_a_block_marker_def entry_decode_def)
qed

lemma v1_transaction_ok: "tx_ok v1_transaction"
  by (simp add: v1_transaction_def message_ok_def bad_mask_def config_len_def)

lemma v1_round_trips: "v1_transaction_round_trips"
proof -
  have "entry_ok v1_entry" using v1_transaction_ok by (simp add: entry_ok_def v1_entry_def)
  moreover have "length (segment_wire [v1_entry]) < 2 ^ 64"
    by (simp add: segment_wire_def entry_wire_def v1_entry_def v1_transaction_def v1_body_def)
  ultimately have "scan_deserialize (segment_wire [v1_entry]) = Inr [owned tx_wire v1_entry]"
    using scan_deserialize_wire [of "[v1_entry]" "[]"] by simp
  moreover have "take 8 (segment_wire [v1_entry]) = le_bytes 8 1" by (simp add: segment_wire_def)
  moreover have "le_bytes 8 1 \<noteq> (replicate 8 0 :: bytes)" by code_simp
  ultimately show ?thesis unfolding v1_transaction_round_trips_def entry_decode_def by simp
qed

end
