(* ===== verification/Spec2Isabelle.thy ===== *)
theory Spec2Isabelle
  imports Latency Cli ZeroCopy Tests
begin

text \<open>
  A verification of \<open>deshred\<close>, the library that turns Solana shreds (UDP datagrams of a leader's block) back
  into entry batches while the block is still being produced.

  \<^bold>\<open>The program and its theories.\<close> A datagram goes through the layers of \<open>src/lib.rs\<close> from top to bottom; every
  layer is a theory, imports the ones it calls and models its file function by function:

  \<^item> \<open>Prelude\<close>: outcomes (a value, an error of the source, or a panic with its reason), checked slices and
    indexing, little-endian integers, and the generic lemmas on them.
  \<^item> \<open>Shred\<close> (\<open>shred.rs\<close>, \<open>Merkle\<close> for \<open>merkle.rs\<close>): \<open>parse\<close> with every validation branch, the accessors, Merkle
    proofs and trees. The record \<open>shred\<close> is the struct, \<open>shred_ok\<close> its invariant. \<open>Validation\<close> compares \<open>parse\<close> with
    a table of its rules.
  \<^item> \<open>Fec\<close> (\<open>fec.rs\<close>): the record \<open>fec_set\<close>, admission of shreds (\<open>fec_insert\<close>) and Reed-Solomon recovery
    (\<open>fec_recover\<close>), which gives the mutated set back with an error, as the code does.
  \<^item> \<open>Slot\<close> (\<open>slot.rs\<close>, over the bit set interface of \<open>Bitset\<close>): three bitmaps, the map of FEC sets, \<open>slot_insert\<close>
    and the emission of complete runs (\<open>try_complete\<close>). \<open>Progress\<close> adds liveness; \<open>slot_emits_complete_runs\<close>, which needs it, is in \<open>Exact\<close>.
  \<^item> \<open>Entry\<close> (\<open>entry.rs\<close>), \<open>Deshredder\<close> (\<open>deshredder.rs\<close>, over the ordered map of \<open>Ordmap\<close>, counters in \<open>Stats\<close>):
    \<open>push_raw\<close> and \<open>push\<close>, the retention window and the counters. \<open>Raw\<close> shows that \<open>push\<close> is \<open>push_raw\<close>
    followed by decoding, so that \<open>Delivery\<close> follows one slot through the traffic of nearby slots (\<open>nearby_traffic\<close>) on raw batches only. \<open>Exact\<close>
    characterises the output, raw and decoded, as a function of the set of arrived shreds (\<open>exact_spec\<close>), and compares runs
    with and without recovery.
  \<^item> \<open>View\<close>, \<open>ViewWire\<close> (\<open>view.rs\<close>): the zero-copy cursor, scanners and iterators, against the wire layout (\<open>views_tx\<close> says, in
    natural numbers, what a view has to show of a transaction). \<open>ZeroCopy\<close>
    joins them to the deshredder: the raw batches of a block are walked, and the walk agrees with the owned decoder.
  \<^item> \<open>Io\<close>, \<open>Fixture\<close> (\<open>fixture.rs\<close>), \<open>Socket\<close> (\<open>socket.rs\<close>), \<open>Pipeline\<close> (\<open>pipeline.rs\<close>): recording through
    the \<open>BufWriter\<close> of \<open>Writer::create\<close> and replay, binding and batched receiving, and the two threads with their bounded channel as a step relation.
  \<^item> \<open>Text\<close>, \<open>Cli\<close> (\<open>bin/deshred.rs\<close>): what is printed, the replay command, and the listen command, whose main thread
    is a third thread around the steps of the pipeline (\<open>listen_step\<close>). \<open>main_command\<close> dispatches to both.
  \<^item> \<open>Analysis\<close>, \<open>Latency\<close> (\<open>bin/analyze-recovery.rs\<close>): the measurements of the recovery study, its comparison of
    the two policies over the promises of \<open>Exact\<close>, and its report (\<open>study_main\<close>).
  \<^item> \<open>Tests\<close> and the end of \<open>Validation\<close>: the unit tests of \<open>shred.rs\<close>, \<open>merkle.rs\<close>, \<open>fixture.rs\<close>, \<open>view.rs\<close> and \<open>entry.rs\<close> that need no
    recorded capture, as definitions that state the assertions and lemmas that prove them of the model.

  \<^bold>\<open>What the theorems show.\<close> Parsing never panics, accepts only shreds that satisfy \<open>shred_ok\<close>, and decides every
  datagram by its table of rules, in their order (\<open>parse_decides\<close>). A FEC set classifies every shred exactly, its shreds agree on one root and signature, and
  recovery restores the leader's content. A slot emits exactly the complete runs of what it received, each once
  (safety), only the leader's batches (refinement of \<open>leader_batch\<close>), and every batch of which 32 of 64 places per
  set arrived (liveness). \<open>block_exactly\<close> carries all of that through the deshredder, for the block's shreds mixed with
  garbage, other versions and shreds of nearby slots, and says exactly which batches come out, with recovery on or off: so neither order nor repetition of the
  datagrams matter (\<open>order_irrelevant\<close>), and switching recovery on never costs a batch (\<open>recovery_only_adds\<close>).
  \<open>block_through_pipeline\<close> carries it through the two threads. A slot keeps what it still needs and frees the rest. The deshredder is bounded in memory and its counters balance. The view walks any bytes in
  bounded steps and inverts the wire layout; on a block's raw batches it finds the leader's entries
  (\<open>raw_block_walked\<close>), and on any raw batch of serialized entries that the owned decoder accepts what it returns (\<open>views_match_decoder\<close>). The pipeline loses nothing uncounted in any interleaving as long as the worker does not panic, and drains
  after a stop. The file of a recorded session holds, once the worker has dropped its writer, exactly what was
  taken, and replays with the lines the session has printed; before, it is behind by the writer's buffer. A recorded block replays
  with the lines of the leader's batches (\<open>recorded_block_printed\<close>). For a FEC set whose shreds carry one root and
  signature the study's threshold is the first moment \<open>can_recover\<close> holds; its percentiles are nearest ranks, its eager policy is never late by more than the
  cost it charges, and it reports on every capture of a block.

  \<^bold>\<open>The scope of the theorems about a block.\<close> What else arrives beside the block (\<open>nearby_traffic\<close>): anything that is dropped before it
  reaches a slot, and shreds of slots at most the lookback away from the block's, in FEC sets with an index below 32768. The lookback is positive
  and does not reach the end of \<open>u64\<close> (\<open>room\<close>), and the shreds of the slot are the leader's, with one Merkle root and one signature per FEC set
  (\<open>of_leader\<close>, \<open>signed_by\<close>). The bounds are those of the program: a batch of a slot further ahead moves the retention window past the block, a
  shred with a forged root that comes first keeps the leader's shreds out of its set, and a code shred past its slot makes the
  worker panic (\<open>code_shred_past_slot_panics\<close>).

  \<^bold>\<open>Third-party code\<close> is a parameter: SHA-256 (\<open>hashv\<close>, 32-byte digests by \<open>digest32\<close>), the Reed-Solomon coder (\<open>rs\<close>:
  \<open>rs_in_place\<close> for shape, \<open>rs_decodes\<close> for the codewords of a block), \<open>fixedbitset\<close> (the operations \<open>B\<close> with the laws
  of the locale \<open>bit_set\<close>), \<open>wincode\<close> (\<open>deserialize\<close>, \<open>serialize\<close>; \<open>wincode_layout\<close> says that bytes in the
  documented layout, if they are accepted, are read as that, and leaves open which are accepted), the texts of a transaction (\<open>transaction_text\<close>), the
  kernel's calls (\<open>recvmmsg\<close>, \<open>recv\<close>, \<open>socket_calls\<close>), and the devices behind \<open>Read\<close> and \<open>Write\<close> (locales \<open>byte_source\<close>,
  \<open>byte_sink\<close>, and \<open>file_device\<close> for the file behind a \<open>BufWriter\<close>, which gives a \<open>byte_sink\<close>). Each has an instance, and each theorem a witness over one. The flag \<open>oc\<close> is the overflow-check
  setting of the build.

  \<^bold>\<open>Bounds and loops.\<close> Integers have their width: \<open>u8\<close> to \<open>u64\<close> are words, \<open>usize\<close> is \<open>nat\<close> (lengths in memory). The
  retention loops and the scans of a slot are total functions with measures (a slot has 32768 indexes). The walk
  of an iterator is total by its announced count of items, and \<open>view_walk_bounded\<close> bounds its steps by the length of
  the segment. Reading a file may not end: those loops are \<open>partial_function (option)\<close>, and the theorems show that
  there is a result. No definition takes fuel.

  \<^bold>\<open>Not modelled.\<close> Logging, \<open>Debug\<close> output, command-line parsing (\<open>clap\<close>; its result is a \<open>command\<close>), a failing thread creation or standard output,
  the re-exports of \<open>lib.rs\<close>, benches, examples, and the tests that read a recorded capture or a socket. The text of a percentage that the study computes in \<open>f64\<close> is
  its parameter \<open>percent\<close>, the iteration orders of its hash maps are parameters too. Relaxed atomics of the counters are sequential updates, each counter having one writer; a thread that reads
  the counters sees them between two packets.
\<close>

section \<open>From datagrams to the leader's entry batches\<close>

text \<open>
  A leader's block comes out of the deshredder as it went in. The shreds of the block may arrive in
  any order, with losses and duplicates, mixed with garbage, foreign versions and shreds of neighbouring
  slots. No datagram makes the deshredder panic; every entry batch handed out for the slot is one of the
  leader's batches with exactly the entries the leader's bytes decode to and the leader's last-in-slot
  mark; no batch is handed out twice; and every batch of which enough arrived (32 of the 64 shreds of
  each FEC set it needs) is handed out.
\<close>

lemma block_delivered:
  assumes "bit_set B" and "digest32 hashv" and "rs_in_place r" and "\<forall>k<K. rs_decodes r (cw k)"
    and "leader_block slot version K leader cw" and "c_recover config" and "room config slot"
    and "\<forall>p\<in>set ps. nearby_traffic config slot p"
    and "\<forall>x\<in>arrived config slot ps. of_leader slot version K leader cw x \<and> signed_by hashv root sg x"
  shows "\<exists>self' out. fold_out (push oc B hashv r deserialize) ps (with_stats config st, []) = Inr (self', out) \<and>
    distinct (map (\<lambda>b. (eb_start b, eb_end b)) (filter (\<lambda>b. eb_slot b = slot) out)) \<and>
    (\<forall>b\<in>set out. eb_slot b = slot \<longrightarrow> leader_batch leader (unat (eb_start b)) (unat (eb_end b)) \<and>
       entry_decode deserialize (leader_bytes leader (unat (eb_start b)) (unat (eb_end b))) = Inr (Entries (eb_entries b)) \<and>
       eb_last_in_slot b = last_in_slot (leader (unat (eb_end b)))) \<and>
    (\<forall>a e es. leader_batch leader a e \<and> e < 32768 \<and> enough (arrived config slot ps) a e \<and>
       entry_decode deserialize (leader_bytes leader a e) = Inr (Entries es) \<longrightarrow>
       (\<exists>b\<in>set out. eb_slot b = slot \<and> unat (eb_start b) = a \<and> unat (eb_end b) = e \<and> eb_entries b = es))"
  using pushes_block [OF assms, of oc deserialize st] unfolding block_spec_def by simp

section \<open>Recovery only adds\<close>

text \<open>
  Recovery never costs a batch: push the same datagrams, a leader's block with losses and duplicates in any
  mixture, into two deshredders that differ in the recovery switch only. After every one of them,
  each batch of the slot that was handed out without recovery was handed out with recovery too, with the
  same range, entries and last-in-slot mark; neither deshredder panics.
\<close>

lemma recovery_only_adds:
  assumes "bit_set B" and "digest32 hashv" and "rs_in_place r" and "\<forall>k<K. rs_decodes r (cw k)"
    and "leader_block slot version K leader cw" and "room config slot"
    and "\<forall>p\<in>set ps. nearby_traffic config slot p"
    and "\<forall>x\<in>arrived config slot ps. of_leader slot version K leader cw x \<and> signed_by hashv root sg x"
  shows "\<exists>self out self0 out0.
    fold_out (push oc B hashv r deserialize) (take n ps) (with_stats (config\<lparr>c_recover := True\<rparr>) st, []) = Inr (self, out) \<and>
    fold_out (push oc B hashv r deserialize) (take n ps) (with_stats (config\<lparr>c_recover := False\<rparr>) st, []) = Inr (self0, out0) \<and>
    set (filter (\<lambda>b. eb_slot b = slot) out0) \<subseteq> set out"
proof (rule recovery_adds [OF assms(1-6)])
  show "\<forall>p\<in>set (take n ps). nearby_traffic config slot p" using assms(7) by (auto dest: in_set_takeD)
  show "\<forall>x\<in>arrived config slot (take n ps). of_leader slot version K leader cw x \<and> signed_by hashv root sg x"
    using assms(8) by (auto simp: arrived_def dest: in_set_takeD)
qed

section \<open>A block through the pipeline\<close>

text \<open>
  C3. A leader's block goes through the two threads as it went in. Whatever the kernel delivers in the scope of \<open>block_exactly\<close> (shreds
  within the lookback of the block's slot and with FEC set indexes below 32768, those of the slot the leader's, besides garbage and
  other versions), and however the threads interleave: the worker does not panic, the sink has got,
  in order, batches of which those of the slot are exactly what the datagrams taken so far promise, each once, whatever the setting
  of the recovery; and once the pipeline has shut down with no
  datagram dropped, all of what was delivered has been taken.
\<close>

theorem block_through_pipeline:
  assumes "bit_set B" and "digest32 hashv" and "rs_in_place r" and "\<forall>k<K. rs_decodes r (cw k)"
    and "leader_block slot version K leader cw" and "room (pc_deshredder config) slot"
    and reach: "(pipeline_step cap (worker_body oc B hashv r deserialize on_batch))\<^sup>*\<^sup>* (pipeline_spawn config sink) s"
    and "\<forall>p\<in>set (p_received s). nearby_traffic (pc_deshredder config) slot p"
    and "\<forall>x\<in>arrived (pc_deshredder config) slot (p_received s). of_leader slot version K leader cw x \<and> signed_by hashv root sg x"
  shows "p_worker s \<noteq> WorkerPanicked \<and>
    (\<exists>bs. rp_sink (p_state s) = fold on_batch bs sink \<and>
      distinct (map (\<lambda>b. (eb_start b, eb_end b)) (filter (\<lambda>b. eb_slot b = slot) bs)) \<and>
      {b\<in>set bs. eb_slot b = slot} =
        {b. promised deserialize leader slot (c_recover (pc_deshredder config)) (arrived (pc_deshredder config) slot (p_tapped s)) b}) \<and>
    (p_worker s = WorkerExit \<and> p_dropped s = 0 \<and> length (p_received s) < 2 ^ 64 \<longrightarrow> p_tapped s = p_received s)"
proof -
  let ?config = "pc_deshredder config" and ?work = "worker_body oc B hashv r deserialize on_batch"
  have run: "\<exists>self out. fold_out (push oc B hashv r deserialize) ps (with_stats ?config stats_default, []) = Inr (self, out) \<and>
      exact_spec deserialize leader slot (c_recover ?config) (arrived ?config slot ps) out" if "set ps \<subseteq> set (p_received s)" for ps
    using assms(8,9) that by (intro pushes_exactly [OF assms(1-6)]) (auto simp: arrived_def)
  have "\<exists>t. fold_out ?work ps (p_state (pipeline_spawn config sink)) = Inr t" if sub: "set ps \<subseteq> set (p_received s)" for ps
  proof -
    obtain self out where "fold_out (push oc B hashv r deserialize) ps (with_stats ?config stats_default, []) = Inr (self, out)"
      using run [OF sub] by blast
    then show ?thesis unfolding worker_body_replay
      using replay_packets [of oc B hashv r deserialize ps "p_state (pipeline_spawn config sink)" self out on_batch]
      by (simp add: pipeline_spawn_def)
  qed
  from never_panics [OF reach this] have alive: "p_worker s \<noteq> WorkerPanicked" .
  note inv = reachable_ok [OF reach, unfolded pipeline_ok_def conserved_def]
  have sub: "subseq (p_tapped s @ p_chan s @ pending (p_rx s)) (p_received s)"
    and taken: "fold_out ?work (p_tapped s) (p_state (pipeline_spawn config sink)) = Inr (p_state s)"
    using inv alive by blast+
  from worker_fold [OF taken] obtain bs where bs:
    "fold_out (push oc B hashv r deserialize) (p_tapped s) (with_stats ?config stats_default, []) = Inr (rp_deshredder (p_state s), bs)"
    "rp_sink (p_state s) = fold on_batch bs sink" by (auto simp: pipeline_spawn_def)
  have "set (p_tapped s) \<subseteq> set (p_received s)" using sub by (auto elim: list_emb_set)
  from run [OF this] bs have "exact_spec deserialize leader slot (c_recover ?config) (arrived ?config slot (p_tapped s)) bs" by simp
  moreover have "p_tapped s = p_received s" if exited: "p_worker s = WorkerExit" "p_dropped s = 0" "length (p_received s) < 2 ^ 64"
  proof -
    have rest: "p_chan s @ pending (p_rx s) = []" using inv exited(1) by (auto simp: pending_def)
    then have all: "subseq (p_tapped s) (p_received s)" using sub by simp
    have "(0 :: u64) = word_of_nat (length (p_received s) - length (p_tapped s))" using inv alive exited(2) rest by auto
    then have "length (p_received s) - length (p_tapped s) = 0"
      using exited(3) by (auto simp: word_of_nat_eq_0_iff dest!: sym dvd_imp_le)
    then have "length (p_tapped s) = length (p_received s)" using list_emb_length [OF all] by simp
    with all show ?thesis by (rule subseq_same_length)
  qed
  ultimately show ?thesis using alive bs(2) unfolding exact_spec_def by blast
qed

theorem block_through_pipeline_witness:
  "\<exists>s b. (pipeline_step 65536 (worker_body True bits_model constant_hash (codeword_rs (block_codeword 0)) tiny_deserialize (\<lambda>b k. k @ [b])))\<^sup>*\<^sup>*
      (pipeline_spawn (pipeline_config_new ()) []) s \<and> p_worker s = WorkerExit \<and> p_tapped s = block_packets \<and>
    b \<in> set (rp_sink (p_state s)) \<and> eb_slot b = 1000 \<and> unat (eb_start b) = 3 \<and> unat (eb_end b) = 3 \<and>
    eb_entries b = [\<lparr>en_num_hashes = 0, en_hash = [], en_transactions = []\<rparr>]"
proof -
  let ?work = "worker_body True bits_model constant_hash (codeword_rs (block_codeword 0)) tiny_deserialize (\<lambda>b k. k @ [b])"
  let ?config = "pipeline_config_new ()"
  have dc: "pc_deshredder ?config = config_default" by (simp add: pipeline_config_new_def)
  obtain self out where "fold_out (push True bits_model constant_hash (codeword_rs (block_codeword 0)) tiny_deserialize) block_packets
      (with_stats config_default stats_default, []) = Inr (self, out)"
    using pushes_exactly [OF block_instance block_packets_room(1) block_packets_traffic block_packets_signed] by blast
  then obtain t where run: "fold_out ?work block_packets (p_state (pipeline_spawn ?config [])) = Inr t"
    unfolding worker_body_replay
    using replay_packets [of True bits_model constant_hash "codeword_rs (block_codeword 0)" tiny_deserialize block_packets
        "p_state (pipeline_spawn ?config [])" self out "\<lambda>b k. k @ [b]"]
    by (auto simp: pipeline_spawn_def dc)
  from batch_flows [OF kernel_of_delivers [OF block_packets_fit] _ _ run, of 65536] obtain s where
    s: "(pipeline_step 65536 ?work)\<^sup>*\<^sup>* (pipeline_spawn ?config []) s" "p_received s = block_packets" "p_tapped s = block_packets" "p_worker s = WorkerExit"
    by (auto simp: block_packets_def block_arrivals_def)
  from block_through_pipeline [OF block_instance _ s(1), where sg = "\<lambda>_. replicate 64 0" and root = "\<lambda>_. replicate 32 0"] s(2,3) obtain bs where
    bs: "rp_sink (p_state s) = fold (\<lambda>b k. k @ [b]) bs []" "{b\<in>set bs. eb_slot b = 1000} = {b. promised tiny_deserialize block_shred 1000 True (set block_arrivals) b}"
    using block_packets_room block_packets_traffic block_packets_signed unfolding dc s(2,3) block_packets_arrived by auto
  have "fold (\<lambda>b k. k @ [b]) bs acc = acc @ bs" for acc by (induction bs arbitrary: acc) simp_all
  then have "rp_sink (p_state s) = bs" using bs(1) by simp
  moreover obtain b where "b \<in> set bs" "eb_slot b = 1000" "unat (eb_start b) = 3" "unat (eb_end b) = 3"
      "eb_entries b = [\<lparr>en_num_hashes = 0, en_hash = [], en_transactions = []\<rparr>]"
    using block_entry_handed_out [OF bs(2)] by blast
  ultimately show ?thesis using s by auto
qed

section \<open>A recorded block\<close>

text \<open>
  C4. What the command line prints for a block. Replay a recording of a leader's block, in any order, with losses
  and duplicates, in the scope of \<open>block_exactly\<close>: the recording may also hold garbage, datagrams of another shred version, and shreds of slots
  within the default lookback of the block's, but no shred of a slot further away and none with an FEC set index of 32768 or more
  (such a code shred panics, C30); the shreds of the slot carry one root and one signature per FEC set. Then the command ends normally and prints, in the order of their delivery, the lines
  of entry batches of which those of the slot are exactly the ones that the recorded datagrams promise, none
  twice, then the number of recorded datagrams, then the counters.
\<close>

theorem recorded_block_printed:
  fixes shred_version :: "u16 option"
  defines "config \<equiv> config_default\<lparr>c_shred_version := shred_version\<rparr>"
  assumes "bit_set B" and "digest32 hashv" and "rs_in_place r" and "\<forall>k<K. rs_decodes r (cw k)"
    and "leader_block slot version K leader cw" and "room config slot"
    and "\<forall>x\<in>set recs. nearby_traffic config slot (fr_packet x) \<and> length (fr_packet x) < 65536"
    and "\<forall>x\<in>arrived config slot (map fr_packet recs). of_leader slot version K leader cw x \<and> signed_by hashv root sg x"
    and "byte_source read_exact left" and "open_file path = Inr f" and "left f = fixture_bytes recs"
  shows "\<exists>bs counters.
    main_replay oc B hashv r deserialize T open_file read_exact display path shred_version print stdout =
      Some (Inr (), stdout @ concat (map (batch_lines T print) bs) @
        [''replayed '' @ decimal (length recs) @ '' packets from '' @ display path, stats_line counters]) \<and>
    distinct (map (\<lambda>b. (eb_start b, eb_end b)) (filter (\<lambda>b. eb_slot b = slot) bs)) \<and>
    {b\<in>set bs. eb_slot b = slot} = {b. promised deserialize leader slot True (arrived config slot (map fr_packet recs)) b}"
proof -
  have on: "c_recover config" by (simp add: config_def config_default_def)
  have "\<forall>p\<in>set (map fr_packet recs). nearby_traffic config slot p" using assms(8) by simp
  then obtain d bs where run: "fold_out (push oc B hashv r deserialize) (map fr_packet recs) (deshredder_new config, []) = Inr (d, bs)"
      and spec: "exact_spec deserialize leader slot (c_recover config) (arrived config slot (map fr_packet recs)) bs"
    using pushes_exactly [OF assms(2-7) _ assms(9), of oc deserialize stats_default] unfolding deshredder_new_def by blast
  have "\<forall>x\<in>set recs. length (fr_packet x) < 65536" using assms(8) by blast
  from main_replay_records [where open_file = open_file and path = path, OF assms(10-12) this run [unfolded config_def]]
    spec [unfolded exact_spec_def, simplified on] show ?thesis by blast
qed

theorem recorded_block_printed_witness:
  "\<exists>(bs :: unit entry_batch list) counters.
    main_replay True bits_model constant_hash (codeword_rs (block_codeword 0)) tiny_deserialize sample_text
        (\<lambda>_. Inr (fixture_bytes block_capture)) slice_read_exact (\<lambda>_. ''f'') () None Batches [] =
      Some (Inr (), map batch_line bs @ [''replayed '' @ decimal (length block_capture) @ '' packets from '' @ ''f'', stats_line counters]) \<and>
    (\<exists>b\<in>set bs. eb_slot b = 1000 \<and> unat (eb_start b) = 3 \<and> unat (eb_end b) = 3 \<and>
       eb_entries b = [\<lparr>en_num_hashes = 0, en_hash = [], en_transactions = []\<rparr>])"
proof -
  have config: "config_default\<lparr>c_shred_version := None\<rparr> = config_default" by (simp add: config_default_def)
  have packets: "map fr_packet block_capture = block_packets" by (simp add: block_capture_def comp_def)
  have tr: "\<forall>x\<in>set block_capture. nearby_traffic config_default 1000 (fr_packet x) \<and> length (fr_packet x) < 65536"
    using block_packets_traffic block_packets_fit by (fastforce simp: block_capture_def)
  obtain bs counters where printed:
      "main_replay True bits_model constant_hash (codeword_rs (block_codeword 0)) tiny_deserialize sample_text
        (\<lambda>_. Inr (fixture_bytes block_capture)) slice_read_exact (\<lambda>_. ''f'') () None Batches [] =
      Some (Inr (), [] @ concat (map (batch_lines sample_text Batches) bs) @
        [''replayed '' @ decimal (length block_capture) @ '' packets from '' @ ''f'', stats_line counters])"
      "{b\<in>set bs. eb_slot b = 1000} = {b. promised tiny_deserialize block_shred 1000 True (set block_arrivals) b}"
    using recorded_block_printed [OF block_instance, of None, unfolded config,
        where open_file = "\<lambda>_. Inr (fixture_bytes block_capture)" and path = "()" and f = "fixture_bytes block_capture",
        OF block_packets_room(1) tr block_packets_signed [folded packets] slice.byte_source_axioms refl refl,
        where oc = True and deserialize = tiny_deserialize and T = sample_text and display = "\<lambda>_. ''f''"
          and print = Batches and stdout = "[]"]
    unfolding packets block_packets_arrived by blast
  have lines: "concat (map (batch_lines sample_text Batches) bs) = map batch_line bs" by (induction bs) (simp_all add: batch_lines_def)
  have "\<exists>b\<in>set bs. eb_slot b = 1000 \<and> unat (eb_start b) = 3 \<and> unat (eb_end b) = 3 \<and>
      eb_entries b = [\<lparr>en_num_hashes = 0, en_hash = [], en_transactions = []\<rparr>]"
    by (rule block_entry_handed_out [OF printed(2)])
  then show ?thesis using printed(1) unfolding lines append_Nil by blast
qed

end
